(* ===== verification/Prelude.thy ===== *)
theory Prelude
  imports Main "HOL-Library.Signed_Division" "HOL-Library.AList"
begin

section \<open>Shared vocabulary of the development\<close>

text \<open>
  What every component uses: Go's fixed-width integers, results of fallible calls, the
  collections of rewrite rules the component proofs carry, and a few generic lemmas on
  lists and options.

  \<^item> A Go \<open>int\<close> or \<open>int64\<close> (the targets are 64-bit) is a HOL \<open>int\<close> that every arithmetic
    operation of the model wraps with \<open>i64\<close>; comparisons are then plain.
  \<^item> A Go \<open>string\<close> is a sequence of bytes, which is what HOL's \<open>string\<close> is.
  \<^item> A pair \<open>(value, error)\<close> is a value of the sum type \<open>'e + 'a\<close>, with \<open>Inl\<close> the error.
  \<^item> A \<open>time.Time\<close> is a number of nanoseconds since Go's zero time, so that \<open>IsZero\<close> is
    equality with 0.
\<close>

named_theorems go_simps \<open>unfolding rules of the model's constants and small helpers\<close>
named_theorems i64_simps \<open>rules that remove the 64-bit wrap-around\<close>

type_synonym gostring = string
type_synonym gotime = int
type_synonym duration = int

subsection \<open>64-bit integers\<close>

definition i64 :: "int \<Rightarrow> int" where
  "i64 x = (x + 2 ^ 63) mod 2 ^ 64 - 2 ^ 63"

abbreviation min_i64 :: int where "min_i64 \<equiv> - (2 ^ 63)"
abbreviation max_i64 :: int where "max_i64 \<equiv> 2 ^ 63 - 1"

definition in_i64 :: "int \<Rightarrow> bool" where
  "in_i64 x \<longleftrightarrow> min_i64 \<le> x \<and> x \<le> max_i64"

lemma i64_id [i64_simps]: "in_i64 x \<Longrightarrow> i64 x = x"
  by (simp add: i64_def in_i64_def)

lemma i64_in_range [simp]: "in_i64 (i64 x)"
proof -
  have "0 \<le> (x + 2 ^ 63) mod 2 ^ 64" and "(x + 2 ^ 63) mod 2 ^ 64 < 2 ^ 64" by simp_all
  then show ?thesis by (simp add: i64_def in_i64_def)
qed

lemma i64_idem [simp]: "i64 (i64 x) = i64 x"
  by (rule i64_id) simp

lemma i64_fixpoint: "i64 x = x \<longleftrightarrow> in_i64 x"
  using i64_in_range [of x] i64_id by metis

lemma in_i64_bounds: "in_i64 x \<Longrightarrow> - 9223372036854775808 \<le> x \<and> x \<le> 9223372036854775807"
  by (simp add: in_i64_def)

lemma in_i64I [intro]: "- 9223372036854775808 \<le> x \<Longrightarrow> x \<le> 9223372036854775807 \<Longrightarrow> in_i64 x"
  by (simp add: in_i64_def)

lemma i64_mod_eq: "i64 x = i64 y \<longleftrightarrow> x mod 2 ^ 64 = y mod 2 ^ 64"
proof -
  have "i64 x = i64 y \<longleftrightarrow> (x + 2 ^ 63) mod 2 ^ 64 = (y + 2 ^ 63) mod 2 ^ 64"
    by (simp add: i64_def)
  also have "\<dots> \<longleftrightarrow> x mod 2 ^ 64 = y mod 2 ^ 64"
    by (simp add: mod_eq_dvd_iff)
  finally show ?thesis .
qed

lemma i64_minus_mod: "i64 x mod 2 ^ 64 = x mod 2 ^ 64"
  by (metis i64_idem i64_mod_eq)

text \<open>Wrapping an intermediate sum does not change the final wrapped sum.\<close>

lemma i64_add_left [simp]: "i64 (i64 a + b) = i64 (a + b)"
  unfolding i64_mod_eq by (metis i64_minus_mod mod_add_left_eq)

lemma i64_add_right [simp]: "i64 (a + i64 b) = i64 (a + b)"
  using i64_add_left [of b a] by (simp add: add.commute)

subsection \<open>Results\<close>

type_synonym ('e, 'a) result = "'e + 'a"

fun rbind :: "('e, 'a) result \<Rightarrow> ('a \<Rightarrow> ('e, 'b) result) \<Rightarrow> ('e, 'b) result" where
  "rbind (Inl e) f = Inl e"
| "rbind (Inr x) f = f x"

lemma rbind_Inr_iff: "rbind m f = Inr y \<longleftrightarrow> (\<exists>x. m = Inr x \<and> f x = Inr y)"
  by (cases m) auto

lemma rbind_Inl_iff: "rbind m f = Inl e \<longleftrightarrow> m = Inl e \<or> (\<exists>x. m = Inr x \<and> f x = Inl e)"
  by (cases m) auto

fun is_ok :: "('e, 'a) result \<Rightarrow> bool" where
  "is_ok (Inl _) = False"
| "is_ok (Inr _) = True"

subsection \<open>Lists and options\<close>

lemma find_Some_split:
  "find P xs = Some x \<Longrightarrow> \<exists>ys zs. xs = ys @ x # zs \<and> P x \<and> (\<forall>y \<in> set ys. \<not> P y)"
proof (induction xs)
  case Nil
  then show ?case by simp
next
  case (Cons a xs)
  show ?case
  proof (cases "P a")
    case True
    with Cons.prems have "a # xs = [] @ x # xs \<and> P x \<and> (\<forall>y \<in> set []. \<not> P y)" by simp
    then show ?thesis by blast
  next
    case False
    with Cons obtain ys zs where "xs = ys @ x # zs" "P x" "\<forall>y \<in> set ys. \<not> P y" by auto
    with False have "a # xs = (a # ys) @ x # zs \<and> P x \<and> (\<forall>y \<in> set (a # ys). \<not> P y)" by simp
    then show ?thesis by blast
  qed
qed

lemma find_append: "find P (xs @ ys) = (case find P xs of None \<Rightarrow> find P ys | Some x \<Rightarrow> Some x)"
  by (induction xs) auto

lemma find_map_pair: "find P (map f xs) = map_option f (find (P \<circ> f) xs)"
  by (induction xs) auto

lemma foldr_max_ge: "x \<in> set xs \<Longrightarrow> (x :: int) \<le> foldr max xs b"
  by (induction xs) auto

text \<open>The maximum of a list of non-negative readings, 0 for none: Go's running maximum.\<close>

definition list_max0 :: "int list \<Rightarrow> int" where
  "list_max0 xs = foldl max 0 xs"


lemma foldl_max_max: "foldl max (max a b) xs = max (a :: int) (foldl max b xs)"
  by (induction xs arbitrary: b) (simp_all add: max.assoc)

lemma list_max0_Nil [simp]: "list_max0 [] = 0"
  by (simp add: list_max0_def)

lemma list_max0_Cons [simp]: "list_max0 (x # xs) = max x (list_max0 xs)"
  unfolding list_max0_def using foldl_max_max [of x 0 xs] by (simp add: max.commute)

lemma list_max0_nonneg [simp]: "0 \<le> list_max0 xs"
  by (induction xs) auto

lemma list_max0_upper: "x \<in> set xs \<Longrightarrow> x \<le> list_max0 xs"
  by (induction xs) auto

lemma list_max0_attained: "list_max0 xs = 0 \<or> list_max0 xs \<in> set xs"
  by (induction xs) (auto simp: max_def)

lemma update_fresh: "k \<notin> fst ` set m \<Longrightarrow> AList.update k v m = m @ [(k, v)]"
  by (induction m) auto

end
