(* ===== verification/Float64.thy ===== *)
theory Float64
  imports Prelude Complex_Main "HOL-Library.Log_Nat"
begin

section \<open>IEEE 754 binary64, as Go and Lua compute with it\<close>

text \<open>
  Go's \<open>float64\<close> and Lua's numbers are binary64 values rounded to nearest, ties to even.
  A finite value is kept as the rational it denotes; every operation computes the exact
  rational and rounds it once (\<open>f64_round\<close>), with gradual underflow at \<open>2 ^ -1074\<close> and
  overflow to an infinity at \<open>2 ^ 1024\<close>. The two zeros are one value: no code under
  \<^verbatim>\<open>src/\<close> divides by a zero or looks at a sign bit.

  The lemmas are the three facts the scoring code rests on: a value with a 53-bit
  significand is exact, rounding never crosses an integer of magnitude at most \<open>2 ^ 53\<close>,
  and the rounding error is at most half a unit in the last place.
\<close>

datatype f64 = Fin rat | PInf | NInf | NaN

subsection \<open>Rounding\<close>

text \<open>The exponent of the leading bit of a positive rational.\<close>

definition ilog2 :: "rat \<Rightarrow> int" where
  "ilog2 x = (let (p, q) = quotient_of x; k = bitlen p - bitlen q
              in if 2 powi k \<le> x then k else k - 1)"

text \<open>Round to the nearest integer, ties to even.\<close>

definition rne :: "rat \<Rightarrow> int" where
  "rne x = (let f = \<lfloor>x\<rfloor>; d = x - of_int f
            in if d < 1 / 2 then f else if d > 1 / 2 then f + 1
               else if even f then f else f + 1)"

definition ulp_exp :: "rat \<Rightarrow> int" where
  "ulp_exp x = max (- 1074) (ilog2 \<bar>x\<bar> - 52)"

definition round_rat :: "rat \<Rightarrow> rat" where
  "round_rat x = (if x = 0 then 0 else let u = 2 powi ulp_exp x in of_int (rne (x / u)) * u)"

definition f64_round :: "rat \<Rightarrow> f64" where
  "f64_round x = (let y = round_rat x
                  in if \<bar>y\<bar> \<ge> 2 ^ 1024 then (if y > 0 then PInf else NInf) else Fin y)"

subsection \<open>Operations\<close>

fun f64_neg :: "f64 \<Rightarrow> f64" where
  "f64_neg (Fin x) = Fin (- x)"
| "f64_neg PInf = NInf"
| "f64_neg NInf = PInf"
| "f64_neg NaN = NaN"

fun f64_add :: "f64 \<Rightarrow> f64 \<Rightarrow> f64" where
  "f64_add (Fin x) (Fin y) = f64_round (x + y)"
| "f64_add NaN _ = NaN"
| "f64_add _ NaN = NaN"
| "f64_add PInf NInf = NaN"
| "f64_add NInf PInf = NaN"
| "f64_add PInf _ = PInf"
| "f64_add _ PInf = PInf"
| "f64_add NInf _ = NInf"
| "f64_add _ NInf = NInf"

definition f64_sub :: "f64 \<Rightarrow> f64 \<Rightarrow> f64" where
  "f64_sub a b = f64_add a (f64_neg b)"

fun f64_sgn :: "f64 \<Rightarrow> int" where
  "f64_sgn (Fin x) = (if x > 0 then 1 else if x < 0 then - 1 else 0)"
| "f64_sgn PInf = 1"
| "f64_sgn NInf = - 1"
| "f64_sgn NaN = 0"

definition f64_inf :: "int \<Rightarrow> f64" where
  "f64_inf s = (if s > 0 then PInf else if s < 0 then NInf else NaN)"

fun f64_mul :: "f64 \<Rightarrow> f64 \<Rightarrow> f64" where
  "f64_mul (Fin x) (Fin y) = f64_round (x * y)"
| "f64_mul NaN _ = NaN"
| "f64_mul _ NaN = NaN"
| "f64_mul a b = f64_inf (f64_sgn a * f64_sgn b)"

fun f64_div :: "f64 \<Rightarrow> f64 \<Rightarrow> f64" where
  "f64_div (Fin x) (Fin y) = (if y = 0 then f64_inf (f64_sgn (Fin x)) else f64_round (x / y))"
| "f64_div NaN _ = NaN"
| "f64_div _ NaN = NaN"
| "f64_div (Fin x) _ = Fin 0"
| "f64_div a (Fin y) = f64_inf (f64_sgn a * (if y < 0 then - 1 else 1))"
| "f64_div _ _ = NaN"

text \<open>Comparisons are false as soon as an operand is NaN.\<close>

fun f64_lt :: "f64 \<Rightarrow> f64 \<Rightarrow> bool" where
  "f64_lt (Fin x) (Fin y) \<longleftrightarrow> x < y"
| "f64_lt NaN _ \<longleftrightarrow> False"
| "f64_lt _ NaN \<longleftrightarrow> False"
| "f64_lt _ NInf \<longleftrightarrow> False"
| "f64_lt PInf _ \<longleftrightarrow> False"
| "f64_lt _ _ \<longleftrightarrow> True"

definition f64_eq :: "f64 \<Rightarrow> f64 \<Rightarrow> bool" where
  "f64_eq a b \<longleftrightarrow> a = b \<and> a \<noteq> NaN"

definition f64_le :: "f64 \<Rightarrow> f64 \<Rightarrow> bool" where
  "f64_le a b \<longleftrightarrow> f64_lt a b \<or> f64_eq a b"

fun f64_abs :: "f64 \<Rightarrow> f64" where
  "f64_abs (Fin x) = Fin \<bar>x\<bar>"
| "f64_abs PInf = PInf"
| "f64_abs NInf = PInf"
| "f64_abs NaN = NaN"

text \<open>\<open>math.Max\<close> and \<open>math.Min\<close>: NaN is contagious, except that an infinity of the right sign wins.\<close>

definition f64_max :: "f64 \<Rightarrow> f64 \<Rightarrow> f64" where
  "f64_max a b = (if a = PInf \<or> b = PInf then PInf
                  else if a = NaN \<or> b = NaN then NaN
                  else if f64_lt a b then b else a)"

fun f64_ceil :: "f64 \<Rightarrow> f64" where
  "f64_ceil (Fin x) = Fin (of_int \<lceil>x\<rceil>)"
| "f64_ceil a = a"

fun f64_floor :: "f64 \<Rightarrow> f64" where
  "f64_floor (Fin x) = Fin (of_int \<lfloor>x\<rfloor>)"
| "f64_floor a = a"

definition f64_of_int :: "int \<Rightarrow> f64" where
  "f64_of_int n = f64_round (of_int n)"

text \<open>
  \<open>int64(x)\<close> truncates towards zero; out of range the language leaves the result to the
  implementation, and amd64's conversion instruction yields the smallest integer.
\<close>

definition trunc_rat :: "rat \<Rightarrow> int" where
  "trunc_rat x = (if 0 \<le> x then \<lfloor>x\<rfloor> else \<lceil>x\<rceil>)"

fun f64_to_i64 :: "f64 \<Rightarrow> int" where
  "f64_to_i64 (Fin x) = (let t = trunc_rat x in if in_i64 t then t else min_i64)"
| "f64_to_i64 _ = min_i64"

subsection \<open>The leading exponent\<close>

lemma bitlen_nat_bounds:
  assumes "0 < x"
  shows "(2 :: rat) powi (bitlen x - 1) \<le> of_int x" and "of_int x < (2 :: rat) powi bitlen x"
proof -
  have b: "2 ^ nat (bitlen x - 1) \<le> x" "x < 2 ^ nat (bitlen x)"
    using bitlen_bounds [OF assms] by auto
  have n: "0 \<le> bitlen x - 1" using assms by (simp add: bitlen_def floorlog_def)
  have "(2 :: rat) powi (bitlen x - 1) = of_int (2 ^ nat (bitlen x - 1))"
    using n by (simp add: power_int_def)
  also have "\<dots> \<le> of_int x" using b(1) by (simp only: of_int_le_iff)
  finally show "(2 :: rat) powi (bitlen x - 1) \<le> of_int x" .
  have "of_int x < (of_int (2 ^ nat (bitlen x)) :: rat)" using b(2) by (simp only: of_int_less_iff)
  also have "\<dots> = 2 powi bitlen x" using n by (simp add: power_int_def)
  finally show "of_int x < (2 :: rat) powi bitlen x" .
qed

lemma ilog2_bounds:
  assumes "0 < x"
  shows "2 powi ilog2 x \<le> x" and "x < 2 powi (ilog2 x + 1)"
proof -
  obtain p q where pq: "quotient_of x = (p, q)" by fastforce
  have q: "0 < q" using pq by (rule quotient_of_denom_pos)
  have x: "x = of_int p / of_int q" using pq by (rule quotient_of_div)
  with assms q have p: "0 < p" by (simp add: zero_less_divide_iff)
  define k where "k = bitlen p - bitlen q"
  have pl: "(2 :: rat) powi (bitlen p - 1) \<le> of_int p" and pu: "of_int p < (2 :: rat) powi bitlen p"
    using bitlen_nat_bounds [OF p] by auto
  have ql: "(2 :: rat) powi (bitlen q - 1) \<le> of_int q" and qu: "of_int q < (2 :: rat) powi bitlen q"
    using bitlen_nat_bounds [OF q] by auto
  have "x < 2 powi bitlen p / 2 powi (bitlen q - 1)"
    unfolding x using pu ql q p by (intro frac_less) auto
  also have "\<dots> = 2 powi (k + 1)"
    by (simp add: k_def power_int_diff power_int_add)
  finally have up: "x < 2 powi (k + 1)" .
  have "2 powi (bitlen p - 1) / 2 powi bitlen q \<le> x"
    unfolding x using pl qu q p by (intro frac_le) auto
  then have lo: "2 powi (k - 1) \<le> x"
    by (simp add: k_def power_int_diff)
  have e: "ilog2 x = (if 2 powi k \<le> x then k else k - 1)"
    by (simp add: ilog2_def pq k_def)
  show "2 powi ilog2 x \<le> x" using lo e by auto
  show "x < 2 powi (ilog2 x + 1)" using up e by auto
qed

lemma powi2_mono: "a \<le> b \<Longrightarrow> (2 :: rat) powi a \<le> 2 powi b"
  by (intro power_int_increasing) auto

lemma powi2_less_iff: "(2 :: rat) powi a < 2 powi b \<longleftrightarrow> a < b"
  by (rule iffI) (metis powi2_mono not_le, simp add: power_int_strict_increasing)

lemma powi2_pos [simp]: "0 < (2 :: rat) powi a"
  by (simp add: power_int_def)

lemma ilog2_le:
  assumes "0 < x" and "x < 2 powi (k + 1)"
  shows "ilog2 x \<le> k"
proof -
  have "(2 :: rat) powi ilog2 x < 2 powi (k + 1)"
    using ilog2_bounds(1) [OF assms(1)] assms(2) by (rule le_less_trans)
  then show ?thesis by (simp add: powi2_less_iff)
qed

subsection \<open>Rounding to an integer\<close>

lemma rne_of_int [simp]: "rne (of_int n) = n"
  by (simp add: rne_def)

lemma rne_error: "\<bar>of_int (rne x) - x\<bar> \<le> 1 / 2"
proof -
  define d where "d = x - of_int \<lfloor>x\<rfloor>"
  have x: "x = of_int \<lfloor>x\<rfloor> + d" by (simp add: d_def)
  have "0 \<le> d" and "d < 1"
    using floor_correct [of x] unfolding d_def by linarith+
  moreover have "rne x = (if d < 1 / 2 then \<lfloor>x\<rfloor> else if d > 1 / 2 then \<lfloor>x\<rfloor> + 1
      else if even \<lfloor>x\<rfloor> then \<lfloor>x\<rfloor> else \<lfloor>x\<rfloor> + 1)"
    by (simp only: rne_def Let_def d_def)
  moreover have "of_int \<lfloor>x\<rfloor> - x = - d" by (simp add: d_def)
  ultimately show ?thesis by (auto simp: algebra_simps abs_if split: if_splits)
qed

lemma rne_ge: "of_int m \<le> x \<Longrightarrow> m \<le> rne x"
  by (simp add: rne_def Let_def le_floor_iff add.commute add_increasing)

lemma rne_le: "x \<le> of_int m \<Longrightarrow> rne x \<le> m"
proof -
  assume le: "x \<le> of_int m"
  then have f: "\<lfloor>x\<rfloor> \<le> m" by (metis floor_mono floor_of_int)
  show ?thesis
  proof (cases "\<lfloor>x\<rfloor> = m")
    case True
    then have "x = of_int m" using le by (metis floor_correct order_antisym)
    then show ?thesis by simp
  next
    case False
    with f show ?thesis by (simp add: rne_def Let_def)
  qed
qed

subsection \<open>Exactness, order and error of the rounding\<close>

lemma ulp_exp_small:
  assumes "x \<noteq> 0" and "\<bar>x\<bar> < 2 ^ 53"
  shows "ulp_exp x \<le> 0"
proof -
  have "\<bar>x\<bar> < 2 powi (52 + 1)" using assms(2) by simp
  then have "ilog2 \<bar>x\<bar> \<le> 52" using assms(1) by (intro ilog2_le) auto
  then show ?thesis by (simp add: ulp_exp_def)
qed

lemma powi2_neg_int: "e \<le> 0 \<Longrightarrow> of_int n / (2 :: rat) powi e = of_int (n * 2 ^ nat (- e))"
  by (simp add: power_int_def divide_simps power_divide)

lemma of_int_powi2: "0 \<le> e \<Longrightarrow> (2 :: rat) powi e = of_int (2 ^ nat e)"
  by (simp add: power_int_def)

text \<open>A value \<open>n * 2 ^ k\<close> whose significand fits in 53 bits is exact.\<close>

lemma round_rat_exact:
  assumes "\<bar>n\<bar> < 2 ^ 53" and "- 1074 \<le> k"
  shows "round_rat (of_int n * 2 powi k) = of_int n * 2 powi k"
proof (cases "n = 0")
  case True
  then show ?thesis by (simp add: round_rat_def)
next
  case False
  let ?x = "of_int n * (2 :: rat) powi k"
  have nz: "?x \<noteq> 0" using False by simp
  have "\<bar>?x\<bar> = of_int \<bar>n\<bar> * 2 powi k" by (simp add: abs_mult)
  also have "\<dots> < 2 ^ 53 * 2 powi k"
  proof -
    have "(of_int \<bar>n\<bar> :: rat) < of_int (2 ^ 53)" using assms(1) by (simp only: of_int_less_iff)
    then show ?thesis by simp
  qed
  also have "\<dots> = 2 powi ((52 + k) + 1)"
    by (simp add: power_int_add)
  finally have "ilog2 \<bar>?x\<bar> \<le> 52 + k" using nz by (intro ilog2_le) auto
  then have e: "ulp_exp ?x \<le> k" using assms(2) by (simp add: ulp_exp_def)
  have "?x / 2 powi ulp_exp ?x = of_int n * 2 powi (k - ulp_exp ?x)"
    by (simp add: power_int_diff)
  also have "\<dots> = of_int (n * 2 ^ nat (k - ulp_exp ?x))"
    using e by (simp add: of_int_powi2)
  finally have "of_int (rne (?x / 2 powi ulp_exp ?x)) * 2 powi ulp_exp ?x = ?x"
    by (metis rne_of_int nonzero_divide_eq_eq powi2_pos less_irrefl)
  then show ?thesis using nz by (simp add: round_rat_def Let_def)
qed

lemma round_rat_error: "\<bar>round_rat x - x\<bar> \<le> 2 powi ulp_exp x / 2"
proof (cases "x = 0")
  case True
  then show ?thesis by (simp add: round_rat_def less_imp_le)
next
  case False
  let ?u = "(2 :: rat) powi ulp_exp x"
  have "round_rat x - x = (of_int (rne (x / ?u)) - x / ?u) * ?u"
    using False by (simp add: round_rat_def Let_def left_diff_distrib)
  then have "\<bar>round_rat x - x\<bar> = \<bar>of_int (rne (x / ?u)) - x / ?u\<bar> * ?u"
    by (simp add: abs_mult)
  also have "\<dots> \<le> 1 / 2 * ?u"
    using rne_error by (intro mult_right_mono) (auto simp: less_imp_le)
  finally show ?thesis by simp
qed

text \<open>Rounding never crosses an integer of magnitude at most \<open>2 ^ 53\<close>.\<close>

lemma round_rat_ge_int:
  assumes "of_int n \<le> x" and "\<bar>n\<bar> \<le> 2 ^ 53" and "- (2 ^ 53) < x"
  shows "of_int n \<le> round_rat x"
proof (cases "x = 0")
  case True
  with assms show ?thesis by (simp add: round_rat_def)
next
  case False
  let ?e = "ulp_exp x" and ?u = "(2 :: rat) powi ulp_exp x"
  have r: "round_rat x = of_int (rne (x / ?u)) * ?u"
    using False by (simp add: round_rat_def Let_def)
  show ?thesis
  proof (cases "?e \<le> 0")
    case True
    have "of_int (n * 2 ^ nat (- ?e)) \<le> x / ?u"
      unfolding powi2_neg_int [OF True, of n, symmetric]
      using assms(1) by (intro divide_right_mono) (auto simp: less_imp_le)
    then have "n * 2 ^ nat (- ?e) \<le> rne (x / ?u)" by (rule rne_ge)
    then have "(of_int (n * 2 ^ nat (- ?e)) :: rat) \<le> of_int (rne (x / ?u))"
      by (simp only: of_int_le_iff)
    then have "of_int n / ?u \<le> of_int (rne (x / ?u))"
      using powi2_neg_int [OF True, of n] by simp
    then show ?thesis by (simp add: r divide_le_eq)
  next
    case False
    then have big: "53 \<le> ilog2 \<bar>x\<bar>" and e: "?e = ilog2 \<bar>x\<bar> - 52" by (auto simp: ulp_exp_def)
    have lb: "2 powi ilog2 \<bar>x\<bar> \<le> \<bar>x\<bar>" using \<open>x \<noteq> 0\<close> by (intro ilog2_bounds) auto
    have "(2 :: rat) ^ 53 \<le> \<bar>x\<bar>"
      using powi2_mono [OF big] lb by simp
    with assms(3) have pos: "\<bar>x\<bar> = x" by (auto simp: abs_if split: if_splits)
    have "2 powi 52 * ?u \<le> x"
      using lb pos by (simp add: e power_int_diff)
    then have "of_int (2 ^ 52) \<le> x / ?u" by (simp add: le_divide_eq)
    then have "2 ^ 52 \<le> rne (x / ?u)" by (rule rne_ge)
    then have "(of_int (2 ^ 52) :: rat) \<le> of_int (rne (x / ?u))" by (simp only: of_int_le_iff)
    then have "2 ^ 52 * ?u \<le> round_rat x" by (simp add: r)
    moreover have "(2 :: rat) ^ 53 \<le> 2 ^ 52 * ?u"
      using powi2_mono [of 1 ?e] False by simp
    moreover have "(of_int n :: rat) \<le> 2 ^ 53"
    proof -
      have "(of_int n :: rat) \<le> of_int (2 ^ 53)" using assms(2) by (simp only: of_int_le_iff)
      then show ?thesis by simp
    qed
    ultimately show ?thesis by linarith
  qed
qed

lemma rne_neg: "rne (- x) = - rne x"
proof (cases "x = of_int \<lfloor>x\<rfloor>")
  case True
  then show ?thesis by (metis rne_of_int of_int_minus)
next
  case False
  have c: "\<lceil>x\<rceil> = \<lfloor>x\<rfloor> + 1"
    using False by (metis ceiling_altdef)
  have f: "\<lfloor>- x\<rfloor> = - \<lfloor>x\<rfloor> - 1" using c by (simp add: floor_minus)
  show ?thesis by (auto simp: rne_def Let_def f)
qed

lemma round_rat_neg: "round_rat (- x) = - round_rat x"
  by (simp add: round_rat_def Let_def ulp_exp_def rne_neg)

lemma round_rat_le_int:
  assumes "x \<le> of_int n" and "\<bar>n\<bar> \<le> 2 ^ 53" and "x < 2 ^ 53"
  shows "round_rat x \<le> of_int n"
proof -
  have "of_int (- n) \<le> round_rat (- x)"
    using assms by (intro round_rat_ge_int) auto
  then show ?thesis by (simp add: round_rat_neg)
qed

subsection \<open>The rules the clients use\<close>

lemma f64_round_Fin:
  assumes "\<bar>x\<bar> < 2 ^ 53"
  shows "f64_round x = Fin (round_rat x)"
proof -
  have "of_int (- (2 ^ 53)) \<le> round_rat x" using assms by (intro round_rat_ge_int) auto
  moreover have "round_rat x \<le> of_int (2 ^ 53)" using assms by (intro round_rat_le_int) auto
  ultimately have "\<bar>round_rat x\<bar> < 2 ^ 1024" by simp
  then show ?thesis by (simp add: f64_round_def Let_def)
qed

lemma round_rat_int: "\<bar>n\<bar> < 2 ^ 53 \<Longrightarrow> round_rat (of_int n) = of_int n"
  using round_rat_exact [of n 0] by simp

lemma f64_round_int:
  assumes "\<bar>n\<bar> < 2 ^ 53"
  shows "f64_round (of_int n) = Fin (of_int n)"
proof -
  have "\<bar>of_int n :: rat\<bar> < of_int (2 ^ 53)"
    using assms by (metis of_int_abs of_int_less_iff)
  then show ?thesis using assms by (simp add: f64_round_Fin round_rat_int)
qed

lemma f64_of_int_exact: "\<bar>n\<bar> < 2 ^ 53 \<Longrightarrow> f64_of_int n = Fin (of_int n)"
  by (simp add: f64_of_int_def f64_round_int)

text \<open>The error below \<open>2 ^ k\<close> is at most \<open>2 ^ (k - 54)\<close>.\<close>

lemma round_rat_error_bound:
  assumes "\<bar>x\<bar> < 2 powi k" and "- 1000 \<le> k"
  shows "\<bar>round_rat x - x\<bar> \<le> 2 powi (k - 54)"
proof (cases "x = 0")
  case True
  then show ?thesis by (simp add: round_rat_def less_imp_le)
next
  case False
  have "ilog2 \<bar>x\<bar> \<le> k - 1" using False assms(1) by (intro ilog2_le) auto
  then have "ulp_exp x \<le> k - 53" using assms(2) by (simp add: ulp_exp_def)
  then have "(2 :: rat) powi ulp_exp x / 2 \<le> 2 powi (k - 53) / 2"
    by (intro divide_right_mono powi2_mono) auto
  also have "\<dots> = 2 powi (k - 54)" by (simp add: power_int_diff)
  finally show ?thesis using round_rat_error [of x] by linarith
qed

lemma trunc_rat_of_int [simp]: "trunc_rat (of_int n) = n"
  by (simp add: trunc_rat_def)

lemma f64_to_i64_int: "in_i64 n \<Longrightarrow> f64_to_i64 (Fin (of_int n)) = n"
  by (simp add: Let_def)

subsection \<open>Rounding and representable numbers\<close>

text \<open>The finite values of binary64.\<close>

definition representable :: "rat \<Rightarrow> bool" where
  "representable g \<longleftrightarrow> (\<exists>n k. \<bar>n\<bar> < 2 ^ 53 \<and> - 1074 \<le> k \<and> g = of_int n * 2 powi k)"

lemma representable_int: "\<bar>n\<bar> < 2 ^ 53 \<Longrightarrow> representable (of_int n)"
  unfolding representable_def by (rule exI [of _ n], rule exI [of _ 0]) simp

lemma round_rat_ge:
  assumes "representable g" and "g \<le> x"
  shows "g \<le> round_rat x"
proof (cases "x = 0")
  case True
  with assms show ?thesis by (simp add: round_rat_def)
next
  case False
  from assms(1) obtain n k where n: "\<bar>n\<bar> < 2 ^ 53" and k: "- 1074 \<le> k" and g: "g = of_int n * 2 powi k"
    by (auto simp: representable_def)
  let ?e = "ulp_exp x" and ?u = "(2 :: rat) powi ulp_exp x"
  have r: "round_rat x = of_int (rne (x / ?u)) * ?u"
    using False by (simp add: round_rat_def Let_def)
  show ?thesis
  proof (cases "?e \<le> k")
    case True
    have "g = of_int (n * 2 ^ nat (k - ?e)) * ?u"
      using True by (simp add: g mult.assoc flip: power_int_add power_int_of_nat)
    moreover have "of_int (n * 2 ^ nat (k - ?e)) \<le> x / ?u"
      using assms(2) calculation by (simp add: le_divide_eq)
    then have "n * 2 ^ nat (k - ?e) \<le> rne (x / ?u)" by (rule rne_ge)
    then have "(of_int (n * 2 ^ nat (k - ?e)) :: rat) \<le> of_int (rne (x / ?u))"
      by (simp only: of_int_le_iff)
    ultimately show ?thesis by (simp add: r)
  next
    case e: False
    then have ilog: "?e = ilog2 \<bar>x\<bar> - 52" using k by (auto simp: ulp_exp_def)
    have lb: "2 powi ilog2 \<bar>x\<bar> \<le> \<bar>x\<bar>" using False by (intro ilog2_bounds) auto
    have big: "2 ^ 53 * 2 powi k \<le> (2 :: rat) powi ilog2 \<bar>x\<bar>"
      using powi2_mono [of "53 + k" "ilog2 \<bar>x\<bar>"] e ilog by (simp add: power_int_add)
    have "\<bar>(of_int n :: rat)\<bar> < of_int (2 ^ 53)" using n by linarith
    then have gb: "\<bar>g\<bar> < 2 ^ 53 * 2 powi k" by (simp add: g abs_mult)
    then have pos: "\<bar>x\<bar> = x" using assms(2) big lb by linarith
    have "2 powi 52 * ?u \<le> x" using lb pos by (simp add: ilog power_int_diff)
    then have "of_int (2 ^ 52) \<le> x / ?u" by (simp add: le_divide_eq)
    then have "2 ^ 52 \<le> rne (x / ?u)" by (rule rne_ge)
    then have "(of_int (2 ^ 52) :: rat) \<le> of_int (rne (x / ?u))" by (simp only: of_int_le_iff)
    then have "2 ^ 52 * ?u \<le> round_rat x" by (simp add: r)
    moreover have "2 ^ 52 * ?u = 2 powi ilog2 \<bar>x\<bar>" by (simp add: ilog power_int_diff)
    ultimately show ?thesis using gb big by linarith
  qed
qed

lemma representable_neg: "representable g \<Longrightarrow> representable (- g)"
proof -
  assume "representable g"
  then obtain n k where "\<bar>n\<bar> < 2 ^ 53" "- 1074 \<le> k" "g = of_int n * 2 powi k"
    by (auto simp: representable_def)
  then show ?thesis unfolding representable_def
    by (intro exI [of _ "- n"] exI [of _ k]) simp
qed

lemma round_rat_le:
  assumes "representable g" and "x \<le> g"
  shows "round_rat x \<le> g"
  using round_rat_ge [OF representable_neg [OF assms(1)], of "- x"] assms(2)
  by (simp add: round_rat_neg)

lemma representable_powi2: "- 1074 \<le> k \<Longrightarrow> representable (2 powi k)"
  unfolding representable_def by (rule exI [of _ 1], rule exI [of _ k]) simp

text \<open>In the normal range the relative error is at most \<open>2 ^ -53\<close>.\<close>

lemma round_rat_lower:
  assumes "2 powi (- 1022) \<le> x"
  shows "x * (1 - 1 / 2 ^ 53) \<le> round_rat x"
proof -
  have x: "0 < x" using assms powi2_pos [of "- 1022"] by linarith
  have "2 powi ilog2 x \<le> x" "x < 2 powi (ilog2 x + 1)" using ilog2_bounds x by auto
  then have "(2 :: rat) powi (- 1022) < 2 powi (ilog2 x + 1)" using assms by linarith
  then have "- 1022 < ilog2 x + 1" by (simp only: powi2_less_iff)
  then have "ulp_exp x = ilog2 x - 52" using x by (simp add: ulp_exp_def)
  then have "\<bar>round_rat x - x\<bar> \<le> 2 powi ilog2 x / 2 ^ 53"
    using round_rat_error [of x] by (simp add: power_int_diff)
  also have "\<dots> \<le> x / 2 ^ 53" using \<open>2 powi ilog2 x \<le> x\<close> by (simp add: divide_right_mono)
  finally have "x - round_rat x \<le> x / 2 ^ 53" by linarith
  then show ?thesis by (simp add: field_simps)
qed

lemma powi2_succ: "(2 :: rat) powi (k + 1) = 2 * 2 powi k"
  by (simp add: power_int_add)

lemma representableI: "g = of_int n * 2 powi k \<Longrightarrow> \<bar>n\<bar> < 2 ^ 53 \<Longrightarrow> - 1074 \<le> k \<Longrightarrow> representable g"
  unfolding representable_def by blast

lemma representable_round: "representable (round_rat x)"
proof (cases "x = 0")
  case False
  let ?e = "ulp_exp x" and ?n = "rne (x / 2 powi ulp_exp x)"
  have e: "- 1074 \<le> ?e" by (simp add: ulp_exp_def)
  have r: "round_rat x = of_int ?n * 2 powi ?e" using False by (simp add: round_rat_def Let_def)
  have "\<bar>x\<bar> < 2 powi (ilog2 \<bar>x\<bar> + 1)" using ilog2_bounds [of "\<bar>x\<bar>"] False by simp
  also have "\<dots> \<le> 2 powi (?e + 53)" by (rule powi2_mono) (simp add: ulp_exp_def)
  also have "\<dots> = 2 powi ?e * 2 ^ 53" by (simp add: power_int_add)
  finally have "\<bar>x / 2 powi ?e\<bar> \<le> of_int (2 ^ 53)" by (simp add: abs_divide field_simps)
  then have "x / 2 powi ?e \<le> of_int (2 ^ 53)" "of_int (- (2 ^ 53)) \<le> x / 2 powi ?e"
    unfolding abs_le_iff by (simp_all only: of_int_minus) linarith+
  then have "\<bar>?n\<bar> \<le> 2 ^ 53"
    using rne_le [of "x / 2 powi ?e" "2 ^ 53"] rne_ge [of "- (2 ^ 53)" "x / 2 powi ?e"] by linarith
  then consider "\<bar>?n\<bar> < 2 ^ 53" | "?n = 2 ^ 53" | "?n = - (2 ^ 53)" by linarith
  then show ?thesis
  proof cases
    case 1
    then show ?thesis unfolding representable_def r using e by blast
  next
    case 2
    have "round_rat x = of_int (2 ^ 53) * 2 powi ?e" unfolding r by (simp only: 2)
    also have "\<dots> = of_int (2 ^ 52) * 2 powi (?e + 1)" unfolding powi2_succ by (simp del: power_int_eq_0_iff)
    finally have "round_rat x = of_int (2 ^ 52) * 2 powi (?e + 1)" .
    then show ?thesis by (rule representableI) (use e in simp_all)
  next
    case 3
    have "round_rat x = of_int (- (2 ^ 53)) * 2 powi ?e" unfolding r by (simp only: 3)
    also have "\<dots> = of_int (- (2 ^ 52)) * 2 powi (?e + 1)" unfolding powi2_succ by (simp del: power_int_eq_0_iff)
    finally have "round_rat x = of_int (- (2 ^ 52)) * 2 powi (?e + 1)" .
    then show ?thesis by (rule representableI) (use e in simp_all)
  qed
qed (simp add: round_rat_def representable_int [of 0, simplified])

lemma representable_f64_round: "f64_round x = Fin y \<Longrightarrow> representable y"
  by (auto simp: f64_round_def Let_def representable_round split: if_splits)

text \<open>
  Dividing integers: the rounded quotient lies on the same side of every integer as the
  exact one, so floor and ceiling are exact, as long as \<open>1 / d\<close> exceeds the rounding error.
\<close>

text \<open>A quotient that is not a whole number is at least one over the divisor away from it.\<close>

lemma quotient_gap:
  fixes d :: int
  assumes "0 < d"
  shows "of_int n / of_int d < (of_int m :: rat) \<Longrightarrow> of_int n / of_int d \<le> (of_int m - 1 / of_int d :: rat)"
    and "(of_int m :: rat) < of_int n / of_int d \<Longrightarrow> (of_int m + 1 / of_int d :: rat) \<le> of_int n / of_int d"
proof -
  assume "of_int n / of_int d < (of_int m :: rat)"
  then have "(of_int n :: rat) < of_int m * of_int d" using assms by (simp add: field_simps)
  then have "n < m * d" by (simp only: of_int_less_iff of_int_mult [symmetric])
  then have "(of_int (n + 1) :: rat) \<le> of_int (m * d)" by (simp only: of_int_le_iff)
  then show "of_int n / of_int d \<le> (of_int m - 1 / of_int d :: rat)" using assms by (simp add: field_simps)
next
  assume "(of_int m :: rat) < of_int n / of_int d"
  then have "(of_int m * of_int d :: rat) < of_int n" using assms by (simp add: field_simps)
  then have "m * d < n" by (simp only: of_int_less_iff of_int_mult [symmetric])
  then have "(of_int (m * d + 1) :: rat) \<le> of_int n" by (simp only: of_int_le_iff)
  then have "(of_int m * of_int d + 1) / of_int d \<le> (of_int n / of_int d :: rat)" using assms by (intro divide_right_mono) auto
  then show "(of_int m + 1 / of_int d :: rat) \<le> of_int n / of_int d" using assms by (simp add: add_divide_distrib)
qed

lemma round_quotient:
  assumes "0 \<le> n" and "0 < d" and "k \<le> 52" and "of_int n / of_int d < (2 :: rat) ^ k" and "d < 2 ^ (54 - k)"
  shows "\<lfloor>round_rat (of_int n / of_int d)\<rfloor> = n div d"
    and "\<lceil>round_rat (of_int n / of_int d)\<rceil> = \<lceil>of_int n / (of_int d :: rat)\<rceil>"
proof -
  define x where "x = (of_int n / of_int d :: rat)"
  have x0: "0 \<le> x" using assms(1,2) by (simp add: x_def)
  have "\<bar>x\<bar> < 2 powi (int k)" using x0 assms(4) by (simp add: x_def)
  then have "\<bar>round_rat x - x\<bar> \<le> 2 powi (int k - 54)" by (rule round_rat_error_bound) simp
  also have "(2 :: rat) powi (int k - 54) = 1 / 2 ^ (54 - k)"
    using assms(3) by (simp add: power_int_diff power_diff)
  also have "\<dots> < 1 / of_int d"
  proof -
    have "(of_int d :: rat) < of_int (2 ^ (54 - k))" using assms(5) by (simp only: of_int_less_iff)
    then show ?thesis using assms(2) by (intro divide_strict_left_mono) auto
  qed
  finally have err: "\<bar>round_rat x - x\<bar> < 1 / of_int d" .
  have sep: "x \<le> of_int m - 1 / of_int d" if "x < of_int m" for m
    using quotient_gap(1) [OF assms(2), of n m] that by (simp add: x_def)
  have sep': "of_int m + 1 / of_int d \<le> x" if "of_int m < x" for m
    using quotient_gap(2) [OF assms(2), of m n] that by (simp add: x_def)
  have ub: "x < 2 ^ 52"
  proof -
    have "(2 :: rat) ^ k \<le> 2 ^ 52" using assms(3) by (intro power_increasing) auto
    then show ?thesis using assms(4) by (simp add: x_def)
  qed
  have fl: "\<lfloor>round_rat x\<rfloor> = \<lfloor>x\<rfloor>"
  proof (rule floor_unique)
    have "\<lfloor>x\<rfloor> \<le> 2 ^ 52" using ub by (simp add: floor_le_iff)
    then show "of_int \<lfloor>x\<rfloor> \<le> round_rat x" using x0 by (intro round_rat_ge_int) auto
    have "x < of_int (\<lfloor>x\<rfloor> + 1)" by linarith
    from sep [OF this] show "round_rat x < of_int \<lfloor>x\<rfloor> + 1" using err unfolding of_int_add of_int_1 by linarith
  qed
  have ce: "\<lceil>round_rat x\<rceil> = \<lceil>x\<rceil>"
  proof (rule ceiling_unique)
    have "of_int (\<lceil>x\<rceil> - 1) < x" by linarith
    from sep' [OF this] show "of_int \<lceil>x\<rceil> - 1 < round_rat x" using err unfolding of_int_diff of_int_1 by linarith
    have "0 \<le> \<lceil>x\<rceil>" "\<lceil>x\<rceil> \<le> 2 ^ 52" using x0 ub by (auto simp: ceiling_le_iff)
    then show "round_rat x \<le> of_int \<lceil>x\<rceil>" using ub x0 by (intro round_rat_le_int) auto
  qed
  show "\<lfloor>round_rat (of_int n / of_int d)\<rfloor> = n div d" using fl by (simp add: x_def floor_divide_of_int_eq)
  show "\<lceil>round_rat (of_int n / of_int d)\<rceil> = \<lceil>of_int n / (of_int d :: rat)\<rceil>" using ce by (simp add: x_def)
qed

end
