(* ===== verification/Verdict.thy ===== *)
theory Verdict
  imports Prelude
begin

section \<open>Verdicts (\<^verbatim>\<open>internal/core/verdict.go\<close>)\<close>

text \<open>
  A verdict is a Go string type, so values other than the eight constants exist: they come
  from JSON bodies and database columns. The model keeps it a string. \<open>severity\<close> orders
  verdicts, \<open>WorstOf\<close> chooses by it; the locale states what a client of such a choice may
  rely on and is interpreted on the two functions.
\<close>

type_synonym Verdict = string

definition VerdictAC :: Verdict where [go_simps]: "VerdictAC = ''AC''"
definition VerdictWA :: Verdict where [go_simps]: "VerdictWA = ''WA''"
definition VerdictTLE :: Verdict where [go_simps]: "VerdictTLE = ''TLE''"
definition VerdictMLE :: Verdict where [go_simps]: "VerdictMLE = ''MLE''"
definition VerdictRE :: Verdict where [go_simps]: "VerdictRE = ''RE''"
definition VerdictOLE :: Verdict where [go_simps]: "VerdictOLE = ''OLE''"
definition VerdictCE :: Verdict where [go_simps]: "VerdictCE = ''CE''"
definition VerdictIE :: Verdict where [go_simps]: "VerdictIE = ''IE''"

definition known_verdicts :: "Verdict list" where
  "known_verdicts = [VerdictAC, VerdictWA, VerdictTLE, VerdictMLE, VerdictRE, VerdictOLE,
                     VerdictCE, VerdictIE]"

definition severity :: "Verdict \<Rightarrow> int" where
  "severity v =
     (if v = VerdictIE then 70
      else if v = VerdictCE then 60
      else if v = VerdictOLE then 50
      else if v = VerdictMLE then 40
      else if v = VerdictTLE then 30
      else if v = VerdictRE then 20
      else if v = VerdictWA then 10
      else if v = VerdictAC then 0
      else 70)"

definition IsAccepted :: "Verdict \<Rightarrow> bool" where
  "IsAccepted v \<longleftrightarrow> v = VerdictAC"

definition IsTerminalForSubmission :: "Verdict \<Rightarrow> bool" where
  "IsTerminalForSubmission v \<longleftrightarrow> v \<noteq> VerdictAC"

definition WorstOf :: "Verdict \<Rightarrow> Verdict \<Rightarrow> Verdict" where
  "WorstOf a b = (if severity b > severity a then b else a)"

definition Human :: "Verdict \<Rightarrow> string" where
  "Human v =
     (if v = VerdictAC then ''Accepted''
      else if v = VerdictWA then ''Wrong Answer''
      else if v = VerdictTLE then ''Time Limit Exceeded''
      else if v = VerdictMLE then ''Memory Limit Exceeded''
      else if v = VerdictRE then ''Runtime Error''
      else if v = VerdictOLE then ''Output Limit Exceeded''
      else if v = VerdictCE then ''Compilation Error''
      else ''Internal Error'')"

type_synonym Status = string

definition StatusQueued :: Status where [go_simps]: "StatusQueued = ''QUEUED''"
definition StatusJudging :: Status where [go_simps]: "StatusJudging = ''JUDGING''"
definition StatusDone :: Status where [go_simps]: "StatusDone = ''DONE''"
definition StatusFailed :: Status where [go_simps]: "StatusFailed = ''FAILED''"

subsection \<open>Severity\<close>

lemma severity_values [simp]:
  "severity VerdictIE = 70" "severity VerdictCE = 60" "severity VerdictOLE = 50"
  "severity VerdictMLE = 40" "severity VerdictTLE = 30" "severity VerdictRE = 20"
  "severity VerdictWA = 10" "severity VerdictAC = 0"
  by (simp_all add: severity_def go_simps)

lemma severity_nonneg [simp]: "0 \<le> severity v"
  by (simp add: severity_def)

lemma severity_zero_iff: "severity v = 0 \<longleftrightarrow> v = VerdictAC"
  by (simp add: severity_def go_simps)

lemma severity_unknown: "v \<notin> set known_verdicts \<Longrightarrow> severity v = 70"
  by (simp add: severity_def known_verdicts_def)

lemma severity_inj_known:
  assumes "a \<in> set known_verdicts" and "b \<in> set known_verdicts" and "severity a = severity b"
  shows "a = b"
  using assms by (auto simp: known_verdicts_def)

subsection \<open>Choosing by rank\<close>

text \<open>
  The contract of a choice by rank: the result is one of the two candidates and has the
  greater rank. From it a client gets the choice over a whole list.
\<close>

locale rank_choice =
  fixes rank :: "'v \<Rightarrow> int" and pick :: "'v \<Rightarrow> 'v \<Rightarrow> 'v"
  assumes pick_mem: "pick a b = a \<or> pick a b = b"
    and pick_rank: "rank (pick a b) = max (rank a) (rank b)"
begin

lemma foldl_pick_mem: "foldl pick a vs \<in> insert a (set vs)"
proof (induction vs arbitrary: a)
  case Nil
  then show ?case by simp
next
  case (Cons v vs)
  then have "foldl pick (pick a v) vs \<in> insert (pick a v) (set vs)" .
  then show ?case using pick_mem [of a v] by auto
qed

lemma foldl_pick_rank_ge: "v \<in> insert a (set vs) \<Longrightarrow> rank v \<le> rank (foldl pick a vs)"
proof (induction vs arbitrary: a v)
  case Nil
  then show ?case by simp
next
  case (Cons w vs)
  from Cons.prems consider "v = a \<or> v = w" | "v \<in> set vs" by auto
  then show ?case
  proof cases
    case 1
    then have "rank v \<le> rank (pick a w)" using pick_rank [of a w] by auto
    also have "\<dots> \<le> rank (foldl pick (pick a w) vs)" by (rule Cons.IH) simp
    finally show ?thesis by simp
  next
    case 2
    then show ?thesis using Cons.IH [of v "pick a w"] by simp
  qed
qed

text \<open>The choice over a list is determined by the set of candidates where ranks differ.\<close>

lemma foldl_pick_unique:
  assumes "w \<in> insert a (set vs)" and "\<And>v. v \<in> insert a (set vs) \<Longrightarrow> v \<noteq> w \<Longrightarrow> rank v < rank w"
  shows "foldl pick a vs = w"
proof (rule ccontr)
  assume "foldl pick a vs \<noteq> w"
  then have "rank (foldl pick a vs) < rank w" using assms(2) foldl_pick_mem by blast
  moreover have "rank w \<le> rank (foldl pick a vs)" using assms(1) by (rule foldl_pick_rank_ge)
  ultimately show False by simp
qed

end

interpretation worst: rank_choice severity WorstOf
  by unfold_locales (auto simp: WorstOf_def)

lemma WorstOf_severity [simp]: "severity (WorstOf a b) = max (severity a) (severity b)"
  by (rule worst.pick_rank)

subsection \<open>Properties\<close>

text \<open>
  \<open>WorstOf\<close> never hides a failure: it answers \<^verbatim>\<open>AC\<close> exactly when both arguments are
  \<^verbatim>\<open>AC\<close>, whatever unknown strings the arguments are.
\<close>

lemma WorstOf_accepts_iff:
  "IsAccepted (WorstOf a b) \<longleftrightarrow> IsAccepted a \<and> IsAccepted b"
proof -
  have "IsAccepted (WorstOf a b) \<longleftrightarrow> severity (WorstOf a b) = 0"
    by (simp only: IsAccepted_def severity_zero_iff)
  also have "\<dots> \<longleftrightarrow> max (severity a) (severity b) = 0" by simp
  also have "\<dots> \<longleftrightarrow> severity a = 0 \<and> severity b = 0"
    using severity_nonneg [of a] severity_nonneg [of b] by linarith
  finally show ?thesis by (simp add: IsAccepted_def severity_zero_iff)
qed

text \<open>
  On the eight verdicts the program defines, \<open>WorstOf\<close> is a semilattice operation
  (idempotent, commutative, associative), so the order in which results are combined does
  not matter.
\<close>

lemma WorstOf_semilattice:
  assumes "a \<in> set known_verdicts" and "b \<in> set known_verdicts" and "c \<in> set known_verdicts"
  shows "WorstOf a a = a \<and> WorstOf a b = WorstOf b a \<and>
         WorstOf (WorstOf a b) c = WorstOf a (WorstOf b c)"
proof (intro conjI)
  show "WorstOf a a = a" by (simp add: WorstOf_def)
  have mem: "WorstOf x y \<in> set known_verdicts"
    if "x \<in> set known_verdicts" and "y \<in> set known_verdicts" for x y
    using that by (simp add: WorstOf_def)
  show "WorstOf a b = WorstOf b a"
    by (rule severity_inj_known) (simp_all add: mem assms max.commute)
  show "WorstOf (WorstOf a b) c = WorstOf a (WorstOf b c)"
    by (rule severity_inj_known) (simp_all add: mem assms max.assoc)
qed

end
