(* ===== verification/CoreLimits.thy ===== *)
theory CoreLimits
  imports Float64
begin

section \<open>Resource envelopes (\<^verbatim>\<open>internal/core/limits.go\<close>)\<close>

text \<open>
  The record \<open>Limits\<close>, its defaults, \<open>Normalize\<close>, \<open>Validate\<close> and \<open>Scale\<close>. Products are
  wrapped to 64 bits, \<open>Scale\<close> computes in binary64 as the source does. \<open>usable\<close> is what
  \<open>Normalize\<close> promises: every cap positive, the wall limit not below the CPU limit.
\<close>

record Limits =
  CPUms :: int
  WallMs :: int
  MemMB :: int
  StdoutKB :: int
  Pids :: int
  StackMB :: int
  OpenFiles :: int

record LimitSet =
  Compile :: Limits
  Run :: Limits

definition zero_Limits :: Limits where
  "zero_Limits = \<lparr>CPUms = 0, WallMs = 0, MemMB = 0, StdoutKB = 0, Pids = 0, StackMB = 0,
                  OpenFiles = 0\<rparr>"

definition DefaultCompileLimits :: Limits where
  "DefaultCompileLimits = \<lparr>CPUms = 10000, WallMs = 20000, MemMB = 512, StdoutKB = 65536,
                           Pids = 128, StackMB = 64, OpenFiles = 256\<rparr>"

definition DefaultRunLimits :: Limits where
  "DefaultRunLimits = \<lparr>CPUms = 2000, WallMs = 6000, MemMB = 256, StdoutKB = 1024,
                       Pids = 64, StackMB = 64, OpenFiles = 64\<rparr>"

definition wallRatio :: int where "wallRatio = 3"

definition Normalize :: "Limits \<Rightarrow> Limits" where
  "Normalize l =
     (let l = l\<lparr>CPUms := if CPUms l \<le> 0 then 2000 else CPUms l\<rparr>;
          l = l\<lparr>WallMs := if WallMs l \<le> 0 then i64 (CPUms l * wallRatio) else WallMs l\<rparr>;
          l = l\<lparr>WallMs := if WallMs l < CPUms l then i64 (CPUms l * wallRatio) else WallMs l\<rparr>;
          l = l\<lparr>MemMB := if MemMB l \<le> 0 then 256 else MemMB l\<rparr>;
          l = l\<lparr>StdoutKB := if StdoutKB l \<le> 0 then 1024 else StdoutKB l\<rparr>;
          l = l\<lparr>Pids := if Pids l \<le> 0 then 64 else Pids l\<rparr>;
          l = l\<lparr>StackMB := if StackMB l \<le> 0 then 64 else StackMB l\<rparr>;
          l = l\<lparr>OpenFiles := if OpenFiles l \<le> 0 then 64 else OpenFiles l\<rparr>
      in l)"

text \<open>The wrapped error carries the limit's name and the offending value.\<close>

datatype limit_error = ErrLimitOutOfRange string int

definition Validate :: "Limits \<Rightarrow> (limit_error, unit) result" where
  "Validate l =
     (if CPUms l > 30000 then Inl (ErrLimitOutOfRange ''cpu_ms'' (CPUms l))
      else if WallMs l > 60000 then Inl (ErrLimitOutOfRange ''wall_ms'' (WallMs l))
      else if MemMB l > 2048 then Inl (ErrLimitOutOfRange ''mem_mb'' (MemMB l))
      else if StdoutKB l > 65536 then Inl (ErrLimitOutOfRange ''stdout_kb'' (StdoutKB l))
      else if Pids l > 512 then Inl (ErrLimitOutOfRange ''pids'' (Pids l))
      else Inr ())"

definition Scale :: "Limits \<Rightarrow> f64 \<Rightarrow> int \<Rightarrow> Limits" where
  "Scale l timeMultiplier memOverheadMB =
     (let m = (if f64_le timeMultiplier (Fin 0) then Fin 1 else timeMultiplier);
          out = l\<lparr>CPUms := f64_to_i64 (f64_mul (f64_of_int (CPUms l)) m),
                  WallMs := f64_to_i64 (f64_mul (f64_of_int (WallMs l)) m),
                  MemMB := i64 (MemMB l + memOverheadMB)\<rparr>
      in Normalize out)"

definition Millisecond :: duration where "Millisecond = 1000000"

definition CPUDuration :: "Limits \<Rightarrow> duration" where
  "CPUDuration l = i64 (CPUms l * Millisecond)"

definition WallDuration :: "Limits \<Rightarrow> duration" where
  "WallDuration l = i64 (WallMs l * Millisecond)"

subsection \<open>Invariants\<close>

definition usable :: "Limits \<Rightarrow> bool" where
  "usable l \<longleftrightarrow> 0 < CPUms l \<and> CPUms l \<le> WallMs l \<and> 0 < MemMB l \<and> 0 < StdoutKB l \<and>
                0 < Pids l \<and> 0 < StackMB l \<and> 0 < OpenFiles l"

text \<open>The largest CPU limit whose default wall limit does not overflow.\<close>

definition no_overflow :: "Limits \<Rightarrow> bool" where
  "no_overflow l \<longleftrightarrow> 3 * CPUms l \<le> max_i64"

lemma usable_Normalize_id: "usable l \<Longrightarrow> Normalize l = l"
  by (simp add: usable_def Normalize_def Let_def)

lemma Normalize_CPUms: "CPUms (Normalize l) = (if CPUms l \<le> 0 then 2000 else CPUms l)"
  by (simp add: Normalize_def Let_def)

lemma i64_triple: "0 < c \<Longrightarrow> 3 * c \<le> max_i64 \<Longrightarrow> i64 (c * wallRatio) = 3 * c"
  by (rule trans [OF i64_id]) (auto simp: wallRatio_def in_i64_def)

lemma Normalize_WallMs_raw:
  "WallMs (Normalize l) =
     (let c = CPUms (Normalize l); w = (if WallMs l \<le> 0 then i64 (c * wallRatio) else WallMs l)
      in if w < c then i64 (c * wallRatio) else w)"
  by (simp add: Normalize_def Let_def)

lemma Normalize_CPUms_pos: "0 < CPUms (Normalize l)"
  by (simp add: Normalize_CPUms)

lemma Normalize_WallMs:
  assumes "no_overflow l"
  shows "WallMs (Normalize l) =
         (let c = CPUms (Normalize l) in if WallMs l \<le> 0 \<or> WallMs l < c then 3 * c else WallMs l)"
proof -
  let ?c = "CPUms (Normalize l)"
  have "3 * ?c \<le> max_i64" using assms by (simp add: no_overflow_def Normalize_CPUms)
  then have t: "i64 (?c * wallRatio) = 3 * ?c"
    using Normalize_CPUms_pos by (intro i64_triple)
  show ?thesis
    unfolding Normalize_WallMs_raw Let_def t using Normalize_CPUms_pos [of l] by auto
qed

lemma Normalize_caps:
  "0 < MemMB (Normalize l)" "0 < StdoutKB (Normalize l)" "0 < Pids (Normalize l)"
  "0 < StackMB (Normalize l)" "0 < OpenFiles (Normalize l)" "0 < CPUms (Normalize l)"
  by (simp_all add: Normalize_def Let_def)

lemma Normalize_MemMB: "MemMB (Normalize l) = (if MemMB l \<le> 0 then 256 else MemMB l)"
  by (simp add: Normalize_def Let_def)

lemma Normalize_WallMs_ge_arg: "no_overflow l \<Longrightarrow> WallMs l \<le> WallMs (Normalize l)"
  using Normalize_caps(6) [of l] by (auto simp: Normalize_WallMs Let_def)

lemma usable_Normalize:
  assumes "no_overflow l"
  shows "usable (Normalize l)"
proof -
  have "CPUms (Normalize l) \<le> WallMs (Normalize l)"
    using assms Normalize_caps(6) [of l] by (auto simp: Normalize_WallMs Let_def)
  then show ?thesis by (simp add: usable_def Normalize_caps)
qed

subsection \<open>One scaled field\<close>

text \<open>\<open>int64(float64(c) * m)\<close> for a dyadic multiplier \<open>n / 2 ^ k\<close> and for any multiplier from 1 on.\<close>

definition scaled :: "int \<Rightarrow> f64 \<Rightarrow> int" where
  "scaled c m = f64_to_i64 (f64_mul (f64_of_int c) m)"

lemma in_i64_small: "\<bar>x\<bar> \<le> 2 ^ 53 \<Longrightarrow> in_i64 x"
  by (auto simp: in_i64_def abs_if split: if_splits)

lemma scaled_dyadic:
  assumes c: "0 < c" "c < 2 ^ 53" and n: "0 < n" "c * n < 2 ^ 53" and k: "k \<le> 1000"
  shows "scaled c (Fin (of_int n / 2 ^ k)) = c * n div 2 ^ k"
proof -
  let ?x = "of_int (c * n) * (2 :: rat) powi (- int k)"
  have eq: "of_int c * (of_int n / 2 ^ k) = ?x"
    by (simp add: power_int_minus divide_inverse)
  have abs: "\<bar>c * n\<bar> < 2 ^ 53" using c n by simp
  have "(of_int (c * n) :: rat) < of_int (2 ^ 53)" using n by (simp only: of_int_less_iff)
  moreover have "(2 :: rat) powi (- int k) \<le> 1"
    by (simp add: power_int_minus divide_simps)
  ultimately have "?x < 2 ^ 53 * 1"
    using c n by (intro mult_less_le_imp_less) auto
  then have small: "\<bar>?x\<bar> < 2 ^ 53" using c n by simp
  have r: "f64_round ?x = Fin ?x"
    unfolding f64_round_Fin [OF small] using round_rat_exact [OF abs, of "- int k"] k by simp
  have "scaled c (Fin (of_int n / 2 ^ k)) = f64_to_i64 (f64_round (of_int c * (of_int n / 2 ^ k)))"
    using c by (simp add: scaled_def f64_of_int_exact)
  also have "\<dots> = f64_to_i64 (Fin ?x)" by (simp only: eq r)
  also have "\<dots> = (let t = \<lfloor>?x\<rfloor> in if in_i64 t then t else min_i64)"
    using c n by (simp add: trunc_rat_def)
  also have "\<lfloor>?x\<rfloor> = c * n div 2 ^ k"
    using floor_divide_of_int_eq [of "c * n" "2 ^ k", where ?'a = rat]
    by (simp add: power_int_minus divide_inverse)
  moreover have "in_i64 (c * n div 2 ^ k)"
  proof (rule in_i64_small)
    have "0 \<le> c * n div 2 ^ k" using c n by (simp add: pos_imp_zdiv_nonneg_iff)
    moreover have "c * n div 2 ^ k \<le> c * n" using c n zdiv_mono2 [of "c * n" 1 "2 ^ k"] by simp
    ultimately show "\<bar>c * n div 2 ^ k\<bar> \<le> 2 ^ 53" using n by simp
  qed
  ultimately show ?thesis by (simp add: Let_def)
qed

lemma scaled_ge:
  assumes c: "0 < c" and m: "1 \<le> m" and prod: "of_int c * m < 2 ^ 53"
  shows "c \<le> scaled c (Fin m)" and "scaled c (Fin m) \<le> 2 ^ 53"
proof -
  let ?x = "of_int c * m"
  have cx: "of_int c \<le> ?x" using c m by simp
  then have "(of_int c :: rat) < of_int (2 ^ 53)" using prod by simp
  then have c53: "c < 2 ^ 53" by (simp only: of_int_less_iff)
  have pos: "0 < ?x" using c m by simp
  have lo: "of_int c \<le> round_rat ?x"
    using cx c c53 by (intro round_rat_ge_int) (auto intro: less_trans [OF _ pos])
  have hi: "round_rat ?x \<le> of_int (2 ^ 53)"
    using prod by (intro round_rat_le_int) auto
  have "f64_round ?x = Fin (round_rat ?x)"
    using prod pos by (intro f64_round_Fin) simp
  then have s: "scaled c (Fin m) = (let t = \<lfloor>round_rat ?x\<rfloor> in if in_i64 t then t else min_i64)"
    using c c53 lo by (simp add: scaled_def f64_of_int_exact trunc_rat_def)
  have f: "c \<le> \<lfloor>round_rat ?x\<rfloor>" using lo by (simp add: le_floor_iff)
  have g: "\<lfloor>round_rat ?x\<rfloor> \<le> 2 ^ 53" using floor_mono [OF hi] by simp
  have "in_i64 \<lfloor>round_rat ?x\<rfloor>" using f g c by (intro in_i64_small) linarith
  with s have "scaled c (Fin m) = \<lfloor>round_rat ?x\<rfloor>" by (simp add: Let_def)
  with f g show "c \<le> scaled c (Fin m)" and "scaled c (Fin m) \<le> 2 ^ 53" by simp_all
qed

lemma Scale_unfold:
  "0 < m \<Longrightarrow> Scale l (Fin m) ov =
     Normalize (l\<lparr>CPUms := scaled (CPUms l) (Fin m), WallMs := scaled (WallMs l) (Fin m),
                  MemMB := i64 (MemMB l + ov)\<rparr>)"
  by (simp add: Scale_def scaled_def Let_def f64_le_def f64_eq_def)

subsection \<open>Properties\<close>

text \<open>
  \<open>Normalize\<close> returns a usable envelope for every input whose tripled CPU limit fits in
  64 bits, and it is idempotent there.
\<close>

theorem Normalize_usable_idem:
  assumes "no_overflow l"
  shows "usable (Normalize l) \<and> Normalize (Normalize l) = Normalize l"
  using usable_Normalize [OF assms] usable_Normalize_id by blast

theorem Normalize_usable_idem_witness:
  "no_overflow zero_Limits \<and> usable (Normalize zero_Limits)"
proof -
  have h: "no_overflow zero_Limits" by (simp add: no_overflow_def zero_Limits_def)
  show ?thesis using h Normalize_usable_idem [OF h] by blast
qed

text \<open>
  Beyond that bound the tripling wraps around, so \<open>Normalize\<close> is not total in the sense
  its comment gives: the envelope it returns for a CPU limit of \<open>2 ^ 62\<close> ms with no wall
  limit has a negative wall limit.
\<close>

lemma Normalize_overflow:
  "\<not> usable (Normalize (zero_Limits\<lparr>CPUms := 2 ^ 62\<rparr>)) \<and>
   WallMs (Normalize (zero_Limits\<lparr>CPUms := 2 ^ 62\<rparr>)) = - (2 ^ 62)"
  by (simp add: usable_def Normalize_def zero_Limits_def Let_def wallRatio_def i64_def)

text \<open>
  With a multiplier that binary64 holds exactly (the shipped manifests use 1.0, 2.5 and
  4.0) and from 1 on, scaling a usable envelope multiplies the two time limits exactly,
  rounding down, adds the memory overhead and changes nothing else.
\<close>

lemma Scale_exact:
  assumes "usable l" and "2 ^ k \<le> n" and "k \<le> 1000" and "WallMs l * n < 2 ^ 53"
    and "0 \<le> ov" and "MemMB l + ov \<le> max_i64"
  shows "Scale l (Fin (of_int n / 2 ^ k)) ov =
         l\<lparr>CPUms := CPUms l * n div 2 ^ k, WallMs := WallMs l * n div 2 ^ k,
           MemMB := MemMB l + ov\<rparr>"
proof -
  have p: "(0 :: int) < 2 ^ k" by simp
  have n: "0 < n" using assms(2) p by linarith
  have c: "0 < CPUms l" "CPUms l \<le> WallMs l" "0 < WallMs l" using assms(1) by (auto simp: usable_def)
  have cw: "CPUms l * n \<le> WallMs l * n" using c n by (intro mult_right_mono) auto
  have "WallMs l * 1 \<le> WallMs l * n" using c n by (intro mult_left_mono) auto
  then have w53: "WallMs l < 2 ^ 53" using assms(4) by linarith
  have sc: "scaled (CPUms l) (Fin (of_int n / 2 ^ k)) = CPUms l * n div 2 ^ k"
  proof (rule scaled_dyadic)
    show "CPUms l * n < 2 ^ 53" using cw assms(4) by (rule le_less_trans)
  qed (use c n w53 assms(3) in auto)
  have sw: "scaled (WallMs l) (Fin (of_int n / 2 ^ k)) = WallMs l * n div 2 ^ k"
    using c n w53 assms(3,4) by (intro scaled_dyadic) auto
  have mem: "i64 (MemMB l + ov) = MemMB l + ov"
    using assms(1,5,6) by (intro i64_id) (auto simp: in_i64_def usable_def)
  have "CPUms l * 2 ^ k \<le> CPUms l * n" using assms(2) c by (intro mult_left_mono) auto
  then have "CPUms l * 2 ^ k div 2 ^ k \<le> CPUms l * n div 2 ^ k" by (rule zdiv_mono1) simp
  then have "CPUms l \<le> CPUms l * n div 2 ^ k" by simp
  then have "0 < CPUms l * n div 2 ^ k" using c by linarith
  moreover have "CPUms l * n div 2 ^ k \<le> WallMs l * n div 2 ^ k" using cw by (intro zdiv_mono1) auto
  ultimately have "usable (l\<lparr>CPUms := CPUms l * n div 2 ^ k, WallMs := WallMs l * n div 2 ^ k,
      MemMB := MemMB l + ov\<rparr>)"
    using assms(1,5) by (auto simp: usable_def)
  then show ?thesis
    using n by (simp add: Scale_unfold sc sw mem usable_Normalize_id)
qed

lemma Scale_shipped:
  "Scale DefaultRunLimits (Fin (5 / 2)) 128 =
   DefaultRunLimits\<lparr>CPUms := 5000, WallMs := 15000, MemMB := 384\<rparr>"
  using Scale_exact [of DefaultRunLimits 1 5 128]
  by (simp add: usable_def DefaultRunLimits_def)

text \<open>
  A multiplier of at least 1 never tightens an envelope: after scaling, both time limits
  and the memory limit are at least what they were, and the envelope is still usable.
\<close>

theorem Scale_fair:
  assumes "usable l" and "1 \<le> m" and "of_int (WallMs l) * m < 2 ^ 53"
    and "0 \<le> ov" and "MemMB l + ov \<le> max_i64"
  shows "usable (Scale l (Fin m) ov) \<and> CPUms l \<le> CPUms (Scale l (Fin m) ov) \<and>
         WallMs l \<le> WallMs (Scale l (Fin m) ov) \<and> MemMB l \<le> MemMB (Scale l (Fin m) ov)"
proof -
  let ?l' = "l\<lparr>CPUms := scaled (CPUms l) (Fin m), WallMs := scaled (WallMs l) (Fin m),
               MemMB := i64 (MemMB l + ov)\<rparr>"
  have c: "0 < CPUms l" "CPUms l \<le> WallMs l" "0 < WallMs l" "0 < MemMB l"
    using assms(1) by (auto simp: usable_def)
  have "of_int (CPUms l) * m \<le> of_int (WallMs l) * m"
    using c assms(2) by (intro mult_right_mono) auto
  then have cm: "of_int (CPUms l) * m < 2 ^ 53" using assms(3) by linarith
  have sc: "CPUms l \<le> scaled (CPUms l) (Fin m)" "scaled (CPUms l) (Fin m) \<le> 2 ^ 53"
    using scaled_ge [OF c(1) assms(2) cm] by auto
  have sw: "WallMs l \<le> scaled (WallMs l) (Fin m)"
    using scaled_ge [OF c(3) assms(2,3)] by auto
  have mem: "i64 (MemMB l + ov) = MemMB l + ov"
    using c assms(4,5) by (intro i64_id) (auto simp: in_i64_def)
  have no: "no_overflow ?l'" using sc by (simp add: no_overflow_def)
  have eq: "Scale l (Fin m) ov = Normalize ?l'" using assms(2) by (simp add: Scale_unfold)
  have "CPUms l \<le> CPUms (Normalize ?l')" using sc c by (simp add: Normalize_CPUms)
  moreover have "WallMs l \<le> WallMs (Normalize ?l')"
    using Normalize_WallMs_ge_arg [OF no] sw by simp
  moreover have "MemMB l \<le> MemMB (Normalize ?l')" using c assms(4) by (simp add: Normalize_MemMB mem)
  ultimately show ?thesis using usable_Normalize [OF no] eq by simp
qed

theorem Scale_fair_witness:
  "usable (Scale DefaultRunLimits (Fin (11 / 10)) 32) \<and>
   2000 \<le> CPUms (Scale DefaultRunLimits (Fin (11 / 10)) 32)"
  using Scale_fair [of DefaultRunLimits "11 / 10" 32]
  by (simp add: usable_def DefaultRunLimits_def)

end
