(* ===== verification/Job.thy ===== *)
theory Job
  imports Verdict CoreLimits
begin

section \<open>Jobs, outcomes and the verdict of a run (\<^verbatim>\<open>internal/core/job.go\<close>)\<close>

text \<open>
  The records that travel between the control plane, the queue and the runners, and the two
  pure functions of the judge: \<open>ClassifyRun\<close>, which turns the measurements of one run into
  a verdict, and \<open>Aggregate\<close>, which folds the tests of a submission. Field names carry a
  prefix for the record they belong to, because several Go structs share them.
\<close>

record TestRef =
  ref_Index :: int
  ref_InputRef :: string
  ref_OutputRef :: string
  ref_IsSample :: bool
  ref_Points :: int

record CheckerConfig =
  chk_Type :: string
  chk_Epsilon :: f64

record Policy =
  StopOnFirstFailure :: bool
  Network :: bool
  DisableASLR :: bool

definition DefaultPolicy :: Policy where
  "DefaultPolicy = \<lparr>StopOnFirstFailure = True, Network = False, DisableASLR = True\<rparr>"

record JobSpec =
  job_SubmissionID :: string
  job_Attempt :: int
  job_ContestID :: string
  job_ProblemID :: string
  job_UserID :: string
  job_Language :: string
  job_SourceRef :: string
  job_SourceHash :: string
  job_ImageDigest :: string
  job_TestdataVersion :: string
  job_Tests :: "TestRef list"
  job_Limits :: LimitSet
  job_Checker :: CheckerConfig
  job_Policy :: Policy
  job_EnqueuedAt :: gotime

record ExecOutcome =
  out_ExitCode :: int
  out_Signal :: int
  out_CPUms :: int
  out_WallMs :: int
  out_MaxRSSKB :: int
  out_OOMKilled :: bool
  out_WallKill :: bool
  out_FSizeKill :: bool
  out_StdoutLen :: int
  out_Instructions :: int
  out_Stderr :: string

record TestResult =
  t_Index :: int
  t_Verdict :: Verdict
  t_CPUms :: int
  t_WallMs :: int
  t_MemKB :: int
  t_ExitCode :: int
  t_Signal :: int
  t_Message :: string
  t_Skipped :: bool
  t_SampleOut :: string

record SubmissionResult =
  r_SubmissionID :: string
  r_Attempt :: int
  r_RunnerID :: string
  r_Verdict :: Verdict
  r_Status :: Status
  r_CPUms :: int
  r_WallMs :: int
  r_MemKB :: int
  r_Instructions :: int
  r_Score :: int
  r_FailedTest :: int
  r_CompileLog :: string
  r_Tests :: "TestResult list"
  r_ImageDigest :: string
  r_CPUModel :: string
  r_JudgedAt :: gotime

definition zero_JobSpec :: JobSpec where
  "zero_JobSpec = \<lparr>job_SubmissionID = [], job_Attempt = 0, job_ContestID = [], job_ProblemID = [], job_UserID = [],
     job_Language = [], job_SourceRef = [], job_SourceHash = [], job_ImageDigest = [], job_TestdataVersion = [],
     job_Tests = [], job_Limits = \<lparr>Compile = zero_Limits, Run = zero_Limits\<rparr>,
     job_Checker = \<lparr>chk_Type = [], chk_Epsilon = Fin 0\<rparr>,
     job_Policy = \<lparr>StopOnFirstFailure = False, Network = False, DisableASLR = False\<rparr>, job_EnqueuedAt = 0\<rparr>"

definition zero_ExecOutcome :: ExecOutcome where
  "zero_ExecOutcome = \<lparr>out_ExitCode = 0, out_Signal = 0, out_CPUms = 0, out_WallMs = 0,
     out_MaxRSSKB = 0, out_OOMKilled = False, out_WallKill = False, out_FSizeKill = False,
     out_StdoutLen = 0, out_Instructions = 0, out_Stderr = []\<rparr>"

definition zero_TestResult :: TestResult where
  "zero_TestResult = \<lparr>t_Index = 0, t_Verdict = [], t_CPUms = 0, t_WallMs = 0, t_MemKB = 0,
     t_ExitCode = 0, t_Signal = 0, t_Message = [], t_Skipped = False, t_SampleOut = []\<rparr>"

definition zero_SubmissionResult :: SubmissionResult where
  "zero_SubmissionResult = \<lparr>r_SubmissionID = [], r_Attempt = 0, r_RunnerID = [], r_Verdict = [],
     r_Status = [], r_CPUms = 0, r_WallMs = 0, r_MemKB = 0, r_Instructions = 0, r_Score = 0,
     r_FailedTest = 0, r_CompileLog = [], r_Tests = [], r_ImageDigest = [], r_CPUModel = [],
     r_JudgedAt = 0\<rparr>"

subsection \<open>Classifying one run\<close>

definition ClassifyRun :: "ExecOutcome \<Rightarrow> Limits \<Rightarrow> bool \<Rightarrow> Verdict" where
  "ClassifyRun out lims outputCorrect =
     (if out_FSizeKill out \<or> (StdoutKB lims > 0 \<and> out_StdoutLen out \<ge> i64 (StdoutKB lims * 1024))
      then VerdictOLE
      else if out_OOMKilled out \<or> (MemMB lims > 0 \<and> out_MaxRSSKB out \<ge> i64 (MemMB lims * 1024))
      then VerdictMLE
      else if out_WallKill out \<or> out_Signal out = 24 \<or>
              (CPUms lims > 0 \<and> out_CPUms out \<ge> CPUms lims) \<or>
              (WallMs lims > 0 \<and> out_WallMs out \<ge> WallMs lims)
      then VerdictTLE
      else if out_Signal out \<noteq> 0 \<or> out_ExitCode out \<noteq> 0
      then VerdictRE
      else if \<not> outputCorrect
      then VerdictWA
      else VerdictAC)"

text \<open>
  The abstract specification: which diagnoses apply to a run, with no order among them. The
  first four are the documented meanings over unbounded integers.
\<close>

definition output_flood :: "ExecOutcome \<Rightarrow> Limits \<Rightarrow> bool" where
  "output_flood out lims \<longleftrightarrow> out_FSizeKill out \<or> StdoutKB lims * 1024 \<le> out_StdoutLen out"

definition memory_exhausted :: "ExecOutcome \<Rightarrow> Limits \<Rightarrow> bool" where
  "memory_exhausted out lims \<longleftrightarrow> out_OOMKilled out \<or> MemMB lims * 1024 \<le> out_MaxRSSKB out"

definition out_of_time :: "ExecOutcome \<Rightarrow> Limits \<Rightarrow> bool" where
  "out_of_time out lims \<longleftrightarrow> out_WallKill out \<or> out_Signal out = 24 \<or>
     CPUms lims \<le> out_CPUms out \<or> WallMs lims \<le> out_WallMs out"

definition crashed :: "ExecOutcome \<Rightarrow> bool" where
  "crashed out \<longleftrightarrow> out_Signal out \<noteq> 0 \<or> out_ExitCode out \<noteq> 0"

definition diagnoses :: "ExecOutcome \<Rightarrow> Limits \<Rightarrow> bool \<Rightarrow> Verdict set" where
  "diagnoses out lims ok =
     (if output_flood out lims then {VerdictOLE} else {}) \<union>
     (if memory_exhausted out lims then {VerdictMLE} else {}) \<union>
     (if out_of_time out lims then {VerdictTLE} else {}) \<union>
     (if crashed out then {VerdictRE} else {}) \<union>
     (if ok then {} else {VerdictWA})"

text \<open>Limits the platform accepts: positive and far from the 64-bit range.\<close>

definition sane :: "Limits \<Rightarrow> bool" where
  "sane l \<longleftrightarrow> usable l \<and> StdoutKB l < 2 ^ 52 \<and> MemMB l < 2 ^ 52"

lemma ClassifyRun_cases:
  assumes "sane lims"
  shows "ClassifyRun out lims ok =
     (if output_flood out lims then VerdictOLE
      else if memory_exhausted out lims then VerdictMLE
      else if out_of_time out lims then VerdictTLE
      else if crashed out then VerdictRE
      else if \<not> ok then VerdictWA else VerdictAC)"
proof -
  have "i64 (StdoutKB lims * 1024) = StdoutKB lims * 1024" "i64 (MemMB lims * 1024) = MemMB lims * 1024"
    using assms by (auto intro!: i64_id simp: sane_def usable_def)
  moreover have "0 < StdoutKB lims" "0 < MemMB lims" "0 < CPUms lims" "0 < WallMs lims"
    using assms by (auto simp: sane_def usable_def)
  ultimately show ?thesis
    by (simp only: ClassifyRun_def output_flood_def memory_exhausted_def out_of_time_def
        crashed_def simp_thms)
qed

subsection \<open>Folding the tests of a submission\<close>

type_synonym agg = "Verdict \<times> int \<times> int \<times> int \<times> int"

fun agg_step :: "agg \<Rightarrow> TestResult \<Rightarrow> agg" where
  "agg_step (v, cpuMs, wallMs, memKB, failedTest) t =
     (if t_Skipped t then (v, cpuMs, wallMs, memKB, failedTest)
      else
        let cpuMs = (if t_CPUms t > cpuMs then t_CPUms t else cpuMs);
            wallMs = (if t_WallMs t > wallMs then t_WallMs t else wallMs);
            memKB = (if t_MemKB t > memKB then t_MemKB t else memKB)
        in if \<not> IsAccepted (t_Verdict t) \<and> failedTest = - 1
           then (t_Verdict t, cpuMs, wallMs, memKB, t_Index t)
           else (v, cpuMs, wallMs, memKB, failedTest))"

definition Aggregate :: "TestResult list \<Rightarrow> agg" where
  "Aggregate tests = foldl agg_step (VerdictAC, 0, 0, 0, - 1) tests"

definition judged :: "TestResult list \<Rightarrow> TestResult list" where
  "judged tests = filter (\<lambda>t. \<not> t_Skipped t) tests"

definition first_failure :: "TestResult list \<Rightarrow> TestResult option" where
  "first_failure tests = find (\<lambda>t. \<not> IsAccepted (t_Verdict t)) (judged tests)"

lemma judged_simps [simp]:
  "judged [] = []"
  "judged (t # ts) = (if t_Skipped t then judged ts else t # judged ts)"
  by (simp_all add: judged_def)

lemma agg_step_metrics:
  "\<not> t_Skipped t \<Longrightarrow> agg_step (v, c, w, m, f) t =
     (if \<not> IsAccepted (t_Verdict t) \<and> f = - 1 then (t_Verdict t) else v,
      max c (t_CPUms t), max w (t_WallMs t), max m (t_MemKB t),
      if \<not> IsAccepted (t_Verdict t) \<and> f = - 1 then t_Index t else f)"
  by (simp add: Let_def max_def)

text \<open>Once a failure is recorded only the metrics move.\<close>

lemma foldl_agg_failed:
  "f \<noteq> - 1 \<Longrightarrow> foldl agg_step (v, c, w, m, f) ts =
     (v, foldl max c (map t_CPUms (judged ts)), foldl max w (map t_WallMs (judged ts)),
      foldl max m (map t_MemKB (judged ts)), f)"
  by (induction ts arbitrary: c w m) (simp_all add: agg_step_metrics del: agg_step.simps, simp)

text \<open>The whole fold while no failure is recorded.\<close>

lemma foldl_agg_open:
  assumes "\<forall>t \<in> set ts. t_Index t \<noteq> - 1"
  shows "foldl agg_step (v, c, w, m, - 1) ts =
     (case first_failure ts of None \<Rightarrow> v | Some t \<Rightarrow> t_Verdict t,
      foldl max c (map t_CPUms (judged ts)), foldl max w (map t_WallMs (judged ts)),
      foldl max m (map t_MemKB (judged ts)),
      case first_failure ts of None \<Rightarrow> - 1 | Some t \<Rightarrow> t_Index t)"
  using assms
proof (induction ts arbitrary: c w m)
  case Nil
  then show ?case by (simp add: first_failure_def)
next
  case (Cons t ts)
  consider "t_Skipped t" | "\<not> t_Skipped t" "IsAccepted (t_Verdict t)"
    | "\<not> t_Skipped t" "\<not> IsAccepted (t_Verdict t)" by blast
  then show ?case
  proof cases
    case 1
    with Cons show ?thesis by (simp add: first_failure_def)
  next
    case 2
    with Cons show ?thesis
      by (simp add: first_failure_def agg_step_metrics del: agg_step.simps)
  next
    case 3
    with Cons.prems show ?thesis
      by (simp add: first_failure_def agg_step_metrics foldl_agg_failed del: agg_step.simps)
  qed
qed

subsection \<open>Properties\<close>

text \<open>
  C34: \<open>ClassifyRun\<close> refines its specification: over sane limits the verdict is the most
  severe of the diagnoses that apply to the run, in whatever order they are listed, and
  \<^verbatim>\<open>AC\<close> when none applies. In particular an OOM kill is never reported as the crash it
  causes.
\<close>

theorem ClassifyRun_worst:
  assumes "sane lims" and "set vs = diagnoses out lims ok"
  shows "ClassifyRun out lims ok = foldl WorstOf VerdictAC vs"
proof -
  let ?w = "ClassifyRun out lims ok"
  have "?w \<in> insert VerdictAC (diagnoses out lims ok)"
    by (simp add: ClassifyRun_cases [OF assms(1)] diagnoses_def)
  moreover have "severity v < severity ?w"
    if "v \<in> insert VerdictAC (diagnoses out lims ok)" and "v \<noteq> ?w" for v
    using that by (auto simp: ClassifyRun_cases [OF assms(1)] diagnoses_def split: if_splits)
  ultimately show ?thesis
    unfolding assms(2) [symmetric] by (intro worst.foldl_pick_unique [symmetric]) auto
qed

theorem ClassifyRun_worst_witness:
  "ClassifyRun (zero_ExecOutcome\<lparr>out_OOMKilled := True, out_Signal := 9, out_ExitCode := 137\<rparr>)
     DefaultRunLimits False = foldl WorstOf VerdictAC [VerdictRE, VerdictWA, VerdictMLE]"
proof (rule ClassifyRun_worst)
  show "sane DefaultRunLimits" by (simp add: sane_def usable_def DefaultRunLimits_def)
qed (auto simp: diagnoses_def output_flood_def memory_exhausted_def out_of_time_def crashed_def
    zero_ExecOutcome_def DefaultRunLimits_def)

text \<open>
  A run is accepted only when it is clean and correct: no flood, no memory or time
  exhaustion, exit code 0, no signal and the checker's approval, and then it is accepted.
\<close>

lemma ClassifyRun_accept_iff:
  assumes "sane lims"
  shows "IsAccepted (ClassifyRun out lims ok) \<longleftrightarrow>
     ok \<and> out_ExitCode out = 0 \<and> out_Signal out = 0 \<and>
     \<not> out_FSizeKill out \<and> out_StdoutLen out < StdoutKB lims * 1024 \<and>
     \<not> out_OOMKilled out \<and> out_MaxRSSKB out < MemMB lims * 1024 \<and>
     \<not> out_WallKill out \<and> out_CPUms out < CPUms lims \<and> out_WallMs out < WallMs lims"
  unfolding ClassifyRun_cases [OF assms] IsAccepted_def output_flood_def memory_exhausted_def
    out_of_time_def crashed_def
  by (auto simp: go_simps)

text \<open>
  C35: \<open>Aggregate\<close> reports the first failing test that ran, in the order of the list, with
  its verdict and index (\<^verbatim>\<open>AC\<close> and \<open>- 1\<close> when none failed), and the maximum of each metric
  over the tests that ran; skipped tests contribute nothing. Test indices other than \<open>- 1\<close>
  are assumed, because \<open>- 1\<close> is also the loop's own "none yet".
\<close>

theorem Aggregate_spec:
  assumes "\<forall>t \<in> set tests. t_Index t \<noteq> - 1"
  shows "Aggregate tests =
     (case first_failure tests of None \<Rightarrow> VerdictAC | Some t \<Rightarrow> t_Verdict t,
      list_max0 (map t_CPUms (judged tests)), list_max0 (map t_WallMs (judged tests)),
      list_max0 (map t_MemKB (judged tests)),
      case first_failure tests of None \<Rightarrow> - 1 | Some t \<Rightarrow> t_Index t)"
  unfolding Aggregate_def foldl_agg_open [OF assms] list_max0_def ..

theorem Aggregate_spec_witness:
  "Aggregate [zero_TestResult\<lparr>t_Index := 1, t_Verdict := VerdictAC, t_CPUms := 10\<rparr>,
              zero_TestResult\<lparr>t_Index := 2, t_Verdict := VerdictWA, t_CPUms := 12\<rparr>,
              zero_TestResult\<lparr>t_Index := 5, t_Verdict := VerdictMLE, t_CPUms := 40\<rparr>]
   = (VerdictWA, 40, 0, 0, 2)"
  by (subst Aggregate_spec)
    (simp_all add: first_failure_def IsAccepted_def zero_TestResult_def go_simps)

end
