(* ===== verification/GoTime.thy ===== *)
theory GoTime
  imports Float64
begin

section \<open>Points in time and durations\<close>

text \<open>
  The parts of Go's \<open>time\<close> package the program computes with: \<open>Time.Sub\<close>, which saturates at
  the range of a 64-bit number of nanoseconds, and \<open>Duration.Minutes\<close> and
  \<open>Duration.Seconds\<close>, which go through binary64. The lemma \<open>minutes_trunc\<close> says when
  \<open>int64(d.Minutes())\<close> is the whole number of minutes: up to \<open>2 ^ 17\<close> minutes, a little over
  90 days.
\<close>

definition IsZero :: "gotime \<Rightarrow> bool" where
  "IsZero t \<longleftrightarrow> t = 0"

definition time_Sub :: "gotime \<Rightarrow> gotime \<Rightarrow> duration" where
  "time_Sub t u = max min_i64 (min max_i64 (t - u))"

abbreviation Second_ns :: int where "Second_ns \<equiv> 1000000000"
abbreviation Minute_ns :: int where "Minute_ns \<equiv> 60000000000"

text \<open>The quotient and the remainder of the unit are each converted, and the two added.\<close>

definition in_unit :: "int \<Rightarrow> duration \<Rightarrow> f64" where
  "in_unit u d = f64_add (f64_of_int (d sdiv u)) (f64_div (f64_of_int (d smod u)) (f64_of_int u))"

definition Minutes :: "duration \<Rightarrow> f64" where
  "Minutes d = in_unit Minute_ns d"

definition Seconds :: "duration \<Rightarrow> f64" where
  "Seconds d = in_unit Second_ns d"

lemma sdiv_nonneg: "0 \<le> d \<Longrightarrow> 0 < u \<Longrightarrow> d sdiv u = d div u" for d u :: int
  by (simp add: signed_divide_int_def sgn_if)

lemma smod_nonneg: "0 \<le> d \<Longrightarrow> 0 < u \<Longrightarrow> d smod u = d mod u" for d u :: int
  by (cases "d = 0") (simp_all add: signed_modulo_int_def)

lemma powi2_neg_nat: "(2 :: rat) powi (- int n) = 1 / 2 ^ n"
  by (simp add: power_int_minus divide_inverse)

text \<open>The sum of a whole part and a proper fraction does not round up to the next integer.\<close>

lemma trunc_whole_plus_fraction:
  assumes q: "0 \<le> q" "q < 2 ^ 17" and r: "0 \<le> r" "r \<le> u - 1" and u: "1 < u" "u \<le> Minute_ns"
  shows "f64_to_i64 (f64_add (Fin (of_int q)) (f64_round (of_int r / of_int u))) = q"
proof -
  define x where "x = of_int r / (of_int u :: rat)"
  have u0: "(0 :: rat) < of_int u" using u by simp
  have x0: "0 \<le> x" using r u0 by (simp add: x_def)
  have "(of_int r :: rat) \<le> of_int (u - 1)" using r by (simp only: of_int_le_iff)
  then have "x \<le> of_int (u - 1) / of_int u"
    unfolding x_def using u0 by (intro divide_right_mono) auto
  also have "\<dots> = 1 - 1 / of_int u" using u0 by (simp add: diff_divide_distrib)
  also have "\<dots> \<le> 1 - 1 / 60000000000"
  proof -
    have "(of_int u :: rat) \<le> of_int Minute_ns" using u by (simp only: of_int_le_iff)
    then have "(1 :: rat) / 60000000000 \<le> 1 / of_int u" using u0 by (intro divide_left_mono) auto
    then show ?thesis by simp
  qed
  finally have x1: "x \<le> 1 - 1 / 60000000000" .
  have xr: "f64_round x = Fin (round_rat x)" using x0 x1 by (intro f64_round_Fin) simp
  have y0: "0 \<le> round_rat x" using round_rat_ge_int [of 0 x] x0 by simp
  have "\<bar>x\<bar> < 2 powi 0" using x0 x1 by simp
  then have "\<bar>round_rat x - x\<bar> \<le> 2 powi (0 - 54)" by (rule round_rat_error_bound) simp
  then have "\<bar>round_rat x - x\<bar> \<le> 1 / 2 ^ 54" using powi2_neg_nat [of 54] by simp
  then have y1: "round_rat x \<le> 1 - 1 / 60000000000 + 1 / 2 ^ 54" using x1 by linarith
  define s where "s = of_int q + round_rat x"
  have q17: "(of_int q :: rat) < 131072"
  proof -
    have "(of_int q :: rat) < of_int (2 ^ 17)" using q by (simp only: of_int_less_iff)
    then show ?thesis by simp
  qed
  have s18: "\<bar>s\<bar> < 2 powi 18" using q q17 y0 y1 by (simp add: s_def)
  then have err: "\<bar>round_rat s - s\<bar> \<le> 2 powi (18 - 54)" by (rule round_rat_error_bound) simp
  have lo: "of_int q \<le> round_rat s" using y0 q unfolding s_def by (intro round_rat_ge_int) auto
  have "\<bar>round_rat s - s\<bar> \<le> 1 / 2 ^ 36" using err powi2_neg_nat [of 36] by simp
  then have "round_rat s - s \<le> 1 / 2 ^ 36" by linarith
  then have "round_rat s < of_int q + 1" using y1 by (simp add: s_def)
  then have fl: "\<lfloor>round_rat s\<rfloor> = q" using lo by (simp add: floor_eq_iff)
  have "f64_round s = Fin (round_rat s)" using s18 by (intro f64_round_Fin) simp
  then have "f64_add (Fin (of_int q)) (f64_round x) = Fin (round_rat s)" by (simp add: xr s_def)
  moreover have "trunc_rat (round_rat s) = q"
    using lo q fl by (simp add: trunc_rat_def)
  moreover have "in_i64 q" using q by (simp add: in_i64_def)
  ultimately show ?thesis by (simp add: x_def)
qed

lemma minutes_trunc:
  assumes "0 \<le> d" and "d < 2 ^ 17 * Minute_ns"
  shows "f64_to_i64 (Minutes d) = d div Minute_ns"
proof -
  let ?q = "d div Minute_ns" and ?r = "d mod Minute_ns"
  have q: "0 \<le> ?q" "?q < 2 ^ 17" using assms by arith+
  have r: "0 \<le> ?r" "?r \<le> Minute_ns - 1" by simp_all
  have "Minutes d = f64_add (Fin (of_int ?q)) (f64_round (of_int ?r / of_int Minute_ns))"
    using q r assms(1)
    by (simp add: Minutes_def in_unit_def sdiv_nonneg smod_nonneg f64_of_int_exact)
  then show ?thesis using trunc_whole_plus_fraction [OF q r] by simp
qed

lemma seconds_trunc:
  assumes "0 \<le> d" and "d < 2 ^ 17 * Second_ns"
  shows "f64_to_i64 (Seconds d) = d div Second_ns"
proof -
  let ?q = "d div Second_ns" and ?r = "d mod Second_ns"
  have q: "0 \<le> ?q" "?q < 2 ^ 17" using assms by arith+
  have r: "0 \<le> ?r" "?r \<le> Second_ns - 1" by simp_all
  have "Seconds d = f64_add (Fin (of_int ?q)) (f64_round (of_int ?r / of_int Second_ns))"
    using q r assms(1)
    by (simp add: Seconds_def in_unit_def sdiv_nonneg smod_nonneg f64_of_int_exact)
  then show ?thesis using trunc_whole_plus_fraction [OF q r] by simp
qed

end
