(* ===== verification/Scoring.thy ===== *)
theory Scoring
  imports Job GoTime "HOL-Library.Multiset"
begin

section \<open>Ranking and points (\<^verbatim>\<open>internal/core/scoring.go\<close>)\<close>

text \<open>
  \<open>RankScore\<close> packs "problems solved, then penalty" into one binary64 number. The map it
  ranges over is a list of its entries in some iteration order; sums are wrapped to 64 bits.
  \<open>TestPoints\<close> adds up the points of accepted tests.
\<close>

type_synonym ScoreMode = string

definition ModeSpeed :: ScoreMode where [go_simps]: "ModeSpeed = ''speed''"
definition ModeICPC :: ScoreMode where [go_simps]: "ModeICPC = ''icpc''"

record UserProblemStat =
  Solved :: bool
  Attempts :: int
  BestCPUms :: int
  BestMemKB :: int
  st_Instructions :: int
  SolvedAt :: gotime

definition zero_UserProblemStat :: UserProblemStat where
  "zero_UserProblemStat = \<lparr>Solved = False, Attempts = 0, BestCPUms = 0, BestMemKB = 0,
                           st_Instructions = 0, SolvedAt = 0\<rparr>"

definition zsetScale :: int where "zsetScale = 1000000000"

text \<open>What one solved problem adds to the penalty: the body of the \<open>switch\<close>.\<close>

definition add_penalty :: "ScoreMode \<Rightarrow> gotime \<Rightarrow> UserProblemStat \<Rightarrow> int \<Rightarrow> int" where
  "add_penalty mode contestStart s penalty =
     (if mode = ModeSpeed
      then (if st_Instructions s > 0 then i64 (penalty + st_Instructions s sdiv 1000000)
            else i64 (penalty + BestCPUms s))
      else if mode = ModeICPC
      then (let penalty = i64 (penalty + f64_to_i64 (Minutes (time_Sub (SolvedAt s) contestStart)))
            in i64 (penalty + i64 (Attempts s * 20)))
      else penalty)"

fun rank_step :: "ScoreMode \<Rightarrow> gotime \<Rightarrow> int \<times> int \<Rightarrow> UserProblemStat \<Rightarrow> int \<times> int" where
  "rank_step mode contestStart (solved, penalty) s =
     (if \<not> Solved s then (solved, penalty)
      else (i64 (solved + 1), add_penalty mode contestStart s penalty))"

definition clamp_penalty :: "int \<Rightarrow> int" where
  "clamp_penalty penalty =
     (let penalty = (if penalty < 0 then 0 else penalty)
      in if penalty \<ge> zsetScale then zsetScale - 1 else penalty)"

definition RankScore :: "ScoreMode \<Rightarrow> (string \<times> UserProblemStat) list \<Rightarrow> gotime \<Rightarrow> f64" where
  "RankScore mode stats contestStart =
     (case foldl (rank_step mode contestStart) (0, 0) (map snd stats) of
        (solved, penalty) \<Rightarrow>
          f64_sub (f64_mul (f64_of_int solved) (f64_of_int zsetScale))
                  (f64_of_int (clamp_penalty penalty)))"

definition byIdx :: "TestRef list \<Rightarrow> int \<rightharpoonup> int" where
  "byIdx perTest = foldl (\<lambda>m r. m(ref_Index r \<mapsto> ref_Points r)) Map.empty perTest"

definition points_at :: "(int \<rightharpoonup> int) \<Rightarrow> int \<Rightarrow> int" where
  "points_at m i = (case m i of None \<Rightarrow> 0 | Some p \<Rightarrow> p)"

definition TestPoints :: "TestResult list \<Rightarrow> TestRef list \<Rightarrow> int" where
  "TestPoints tests perTest =
     foldl (\<lambda>total t. if IsAccepted (t_Verdict t)
                      then i64 (total + points_at (byIdx perTest) (t_Index t)) else total) 0 tests"

subsection \<open>The fold as a count and a sum\<close>

definition solved_stats :: "(string \<times> UserProblemStat) list \<Rightarrow> UserProblemStat list" where
  "solved_stats stats = filter Solved (map snd stats)"

text \<open>The cost of a solved problem, unwrapped.\<close>

definition cost :: "ScoreMode \<Rightarrow> gotime \<Rightarrow> UserProblemStat \<Rightarrow> int" where
  "cost mode contestStart s =
     (if mode = ModeSpeed
      then (if st_Instructions s > 0 then st_Instructions s sdiv 1000000 else BestCPUms s)
      else if mode = ModeICPC
      then f64_to_i64 (Minutes (time_Sub (SolvedAt s) contestStart)) + Attempts s * 20
      else 0)"

definition total_cost :: "ScoreMode \<Rightarrow> gotime \<Rightarrow> (string \<times> UserProblemStat) list \<Rightarrow> int" where
  "total_cost mode contestStart stats = sum_list (map (cost mode contestStart) (solved_stats stats))"

lemma length_solved_stats: "length (solved_stats stats) \<le> length stats"
  unfolding solved_stats_def by (metis length_filter_le length_map)

lemma add_penalty_cost:
  "add_penalty mode cs s (i64 p) = i64 (p + cost mode cs s)"
  by (simp add: add_penalty_def cost_def Let_def add.assoc)

lemma foldl_rank_step:
  "foldl (rank_step mode cs) (i64 n, i64 p) ss =
     (i64 (n + int (length (filter Solved ss))),
      i64 (p + sum_list (map (cost mode cs) (filter Solved ss))))"
proof (induction ss arbitrary: n p)
  case Nil
  then show ?case by simp
next
  case (Cons s ss)
  have "foldl (rank_step mode cs) (i64 (n + 1), i64 (p + cost mode cs s)) ss =
     (i64 (n + 1 + int (length (filter Solved ss))),
      i64 (p + cost mode cs s + sum_list (map (cost mode cs) (filter Solved ss))))"
    by (rule Cons.IH)
  then show ?case using Cons.IH [of n p]
    by (simp add: add_penalty_cost add.assoc)
qed

lemma rank_fold:
  assumes "length stats \<le> 9007199"
  shows "foldl (rank_step mode cs) (0, 0) (map snd stats) =
     (int (length (solved_stats stats)), i64 (total_cost mode cs stats))"
proof -
  have z: "i64 0 = 0" by (simp add: i64_def)
  have "length (solved_stats stats) \<le> 9007199"
    using length_solved_stats [of stats] assms by linarith
  then have "i64 (int (length (solved_stats stats))) = int (length (solved_stats stats))"
    by (intro i64_id) auto
  then show ?thesis
    using foldl_rank_step [of mode cs 0 0 "map snd stats"]
    by (simp add: z solved_stats_def total_cost_def)
qed

lemma clamp_penalty_range: "0 \<le> clamp_penalty p" "clamp_penalty p < zsetScale"
  by (simp_all add: clamp_penalty_def zsetScale_def Let_def)

lemma clamp_penalty_id: "0 \<le> p \<Longrightarrow> p < zsetScale \<Longrightarrow> clamp_penalty p = p"
  by (simp add: clamp_penalty_def)

lemma clamp_penalty_mono: "p \<le> q \<Longrightarrow> clamp_penalty p \<le> clamp_penalty q"
  by (simp add: clamp_penalty_def zsetScale_def Let_def)

text \<open>The packing is exact: no binary64 rounding happens for up to 9007199 solved problems.\<close>

definition packed :: "int \<Rightarrow> int \<Rightarrow> int" where
  "packed n p = n * zsetScale - p"

lemma f64_pack:
  assumes "0 \<le> n" and "n \<le> 9007199" and "0 \<le> p" and "p < zsetScale"
  shows "f64_sub (f64_mul (f64_of_int n) (f64_of_int zsetScale)) (f64_of_int p) =
         Fin (of_int (packed n p))"
proof -
  have e: "f64_of_int n = Fin (of_int n)" "f64_of_int zsetScale = Fin (of_int zsetScale)"
    "f64_of_int p = Fin (of_int p)"
    using assms by (intro f64_of_int_exact; simp add: zsetScale_def)+
  have "\<bar>n * zsetScale\<bar> < 2 ^ 53" using assms by (simp add: zsetScale_def)
  then have m: "f64_round (of_int (n * zsetScale)) = Fin (of_int (n * zsetScale))"
    by (rule f64_round_int)
  have "\<bar>packed n p\<bar> < 2 ^ 53" using assms by (simp add: packed_def zsetScale_def)
  then have s: "f64_round (of_int (packed n p)) = Fin (of_int (packed n p))"
    by (rule f64_round_int)
  show ?thesis using m s by (simp add: e f64_sub_def packed_def)
qed

lemma RankScore_packed:
  assumes "length stats \<le> 9007199"
  shows "RankScore mode stats cs =
     Fin (of_int (packed (int (length (solved_stats stats)))
                         (clamp_penalty (i64 (total_cost mode cs stats)))))"
proof -
  have "length (solved_stats stats) \<le> 9007199"
    using length_solved_stats [of stats] assms by linarith
  then show ?thesis
    unfolding RankScore_def rank_fold [OF assms]
    using f64_pack [of "int (length (solved_stats stats))"] clamp_penalty_range by simp
qed

lemma packed_less:
  assumes "m < n" and "0 \<le> p" and "p < zsetScale" and "0 \<le> q"
  shows "packed m q < packed n p"
proof -
  have "(m + 1) * zsetScale \<le> n * zsetScale" using assms by (intro mult_right_mono) (auto simp: zsetScale_def)
  then show ?thesis using assms by (simp add: packed_def algebra_simps)
qed

subsection \<open>Points\<close>

definition accepted_points :: "TestResult list \<Rightarrow> TestRef list \<Rightarrow> int" where
  "accepted_points tests perTest =
     sum_list (map (\<lambda>t. points_at (byIdx perTest) (t_Index t))
                   (filter (\<lambda>t. IsAccepted (t_Verdict t)) tests))"

lemma foldl_points:
  "foldl (\<lambda>total t. if IsAccepted (t_Verdict t) then i64 (total + f t) else total) (i64 a) tests =
   i64 (a + sum_list (map f (filter (\<lambda>t. IsAccepted (t_Verdict t)) tests)))"
proof (induction tests arbitrary: a)
  case (Cons t tests)
  then show ?case using Cons [of "a + f t"] Cons [of a] by (simp add: add.assoc)
qed simp

lemma TestPoints_sum: "TestPoints tests perTest = i64 (accepted_points tests perTest)"
  using foldl_points [of "\<lambda>t. points_at (byIdx perTest) (t_Index t)" 0 tests]
  by (simp add: TestPoints_def accepted_points_def i64_def)

lemma foldl_byIdx:
  "foldl (\<lambda>m r. m(ref_Index r \<mapsto> ref_Points r)) m rs =
   m ++ map_of (rev (map (\<lambda>r. (ref_Index r, ref_Points r)) rs))"
  by (induction rs arbitrary: m) (simp_all add: map_add_def fun_eq_iff split: option.split)

lemma points_at_byIdx:
  assumes "distinct (map ref_Index rs)" and "r \<in> set rs"
  shows "points_at (byIdx rs) (ref_Index r) = ref_Points r"
proof -
  have "map_of (rev (map (\<lambda>r. (ref_Index r, ref_Points r)) rs)) (ref_Index r) = Some (ref_Points r)"
    using assms by (intro map_of_is_SomeI) (auto simp: o_def simp flip: rev_map)
  then show ?thesis unfolding points_at_def byIdx_def foldl_byIdx by simp
qed

subsection \<open>Properties\<close>

text \<open>
  C36: the number of solved problems dominates: a participant who solved more problems ranks
  strictly higher than one who solved fewer, whatever the penalties (also ones so large that
  their 64-bit sum wraps), in every scoring mode and for up to 9007199 problems.
\<close>

theorem RankScore_solved_dominates:
  assumes "length a \<le> 9007199" and "length b \<le> 9007199"
    and "length (solved_stats b) < length (solved_stats a)"
  shows "f64_lt (RankScore mode b start) (RankScore mode' a start')"
  using packed_less [of "int (length (solved_stats b))" "int (length (solved_stats a))"]
    clamp_penalty_range assms(3)
  by (simp add: RankScore_packed assms(1,2))

theorem RankScore_solved_dominates_witness:
  "f64_lt (RankScore ModeSpeed [(''a'', zero_UserProblemStat\<lparr>Solved := True\<rparr>)] 0)
     (RankScore ModeSpeed
        [(''a'', zero_UserProblemStat\<lparr>Solved := True, BestCPUms := 5000000000\<rparr>),
         (''b'', zero_UserProblemStat\<lparr>Solved := True, BestCPUms := 5000000000\<rparr>)] 0)"
  by (rule RankScore_solved_dominates) (simp_all add: solved_stats_def zero_UserProblemStat_def)

text \<open>
  C37: with equally many problems solved, the score is the packed number itself, so the
  lower total cost ranks higher, strictly so below the saturation point \<open>10 ^ 9\<close>; a total
  at or above it saturates to the lowest rank of its solved count and never wraps into the
  next one.
\<close>

theorem RankScore_cost_order:
  assumes "length a \<le> 9007199" and "length b \<le> 9007199"
    and "length (solved_stats a) = length (solved_stats b)"
    and "0 \<le> total_cost mode start a" and "total_cost mode start a < zsetScale"
    and "total_cost mode start a < total_cost mode start b"
    and "in_i64 (total_cost mode start b)"
  shows "f64_le (RankScore mode b start) (RankScore mode a start) \<and>
         (total_cost mode start a < zsetScale - 1 \<longrightarrow>
            f64_lt (RankScore mode b start) (RankScore mode a start))"
proof -
  let ?ta = "total_cost mode start a" and ?tb = "total_cost mode start b"
  have ia: "i64 ?ta = ?ta" using assms(4,5) by (intro i64_id) (auto simp: zsetScale_def)
  have ib: "i64 ?tb = ?tb" using assms(7) by (rule i64_id)
  have le: "clamp_penalty ?ta \<le> clamp_penalty ?tb" using assms(6) by (intro clamp_penalty_mono) simp
  have lt: "clamp_penalty ?ta < clamp_penalty ?tb" if "?ta < zsetScale - 1"
    using that assms(4,6) by (simp add: clamp_penalty_def zsetScale_def Let_def)
  show ?thesis
    using le lt assms(3)
    by (auto simp: RankScore_packed assms(1,2) ia ib packed_def f64_le_def f64_eq_def)
qed

theorem RankScore_cost_order_witness:
  "f64_lt (RankScore ModeSpeed [(''a'', zero_UserProblemStat\<lparr>Solved := True, BestCPUms := 900\<rparr>)] 0)
          (RankScore ModeSpeed [(''a'', zero_UserProblemStat\<lparr>Solved := True, BestCPUms := 100\<rparr>)] 0)"
  using RankScore_cost_order
    [of "[(''a'', zero_UserProblemStat\<lparr>Solved := True, BestCPUms := 100\<rparr>)]"
        "[(''a'', zero_UserProblemStat\<lparr>Solved := True, BestCPUms := 900\<rparr>)]" ModeSpeed 0]
  by (simp add: solved_stats_def total_cost_def cost_def zero_UserProblemStat_def zsetScale_def
      in_i64_def)

text \<open>
  The score does not depend on the order in which the map is iterated, which Go leaves
  open.
\<close>

lemma RankScore_iteration_order:
  assumes "mset a = mset b" and "length a \<le> 9007199"
  shows "RankScore mode a start = RankScore mode b start"
proof -
  have m: "mset (solved_stats a) = mset (solved_stats b)"
    using assms(1) by (simp add: solved_stats_def mset_filter)
  have "length a = length b" using assms(1) by (rule mset_eq_length)
  moreover have "length (solved_stats a) = length (solved_stats b)" using m by (rule mset_eq_length)
  moreover have "total_cost mode start a = total_cost mode start b"
  proof -
    have "mset (map (cost mode start) (solved_stats a)) = mset (map (cost mode start) (solved_stats b))"
      using m by simp
    then show ?thesis unfolding total_cost_def by (metis sum_mset_sum_list)
  qed
  ultimately show ?thesis using assms(2) by (simp add: RankScore_packed)
qed

end
