(* ===== verification/GoText.thy ===== *)
theory GoText
  imports Prelude
begin

section \<open>UTF-8 text in Go\<close>

text \<open>
  Go strings are byte sequences; \<open>range\<close>, \<open>bufio.ScanWords\<close> and \<open>unicode\<close> read them as
  UTF-8. This theory models what the program uses of that: \<open>utf8.DecodeRune\<close> with its
  replacement rune for ill-formed input, the resulting segmentation of a string into runes
  (\<open>runes\<close>), \<open>utf8.AppendRune\<close>, and \<open>bufio\<close>'s \<open>isSpace\<close>. The lemmas show that the
  segmentation loses no byte, that decoding inverts encoding, and that a string may be cut
  before any byte that cannot continue a rune.
\<close>

abbreviation byte :: "char \<Rightarrow> nat" where "byte c \<equiv> of_char c"

definition RuneError :: nat where "RuneError = 0xFFFD"

definition cont :: "nat \<Rightarrow> bool" where
  "cont b \<longleftrightarrow> 0x80 \<le> b \<and> b \<le> 0xBF"

text \<open>The admissible range of the second byte, which depends on the first.\<close>

definition second_ok :: "nat \<Rightarrow> nat \<Rightarrow> bool" where
  "second_ok b0 b1 \<longleftrightarrow>
     (if b0 = 0xE0 then 0xA0 else if b0 = 0xF0 then 0x90 else 0x80) \<le> b1 \<and>
     b1 \<le> (if b0 = 0xED then 0x9F else if b0 = 0xF4 then 0x8F else 0xBF)"

fun decode :: "nat list \<Rightarrow> nat \<times> nat" where
  "decode [] = (RuneError, 0)"
| "decode (b0 # bs) =
     (if b0 < 0x80 then (b0, 1)
      else if 0xC2 \<le> b0 \<and> b0 \<le> 0xDF then
        (case bs of b1 # _ \<Rightarrow>
           if second_ok b0 b1 then ((b0 - 0xC0) * 64 + (b1 - 0x80), 2) else (RuneError, 1)
         | _ \<Rightarrow> (RuneError, 1))
      else if 0xE0 \<le> b0 \<and> b0 \<le> 0xEF then
        (case bs of b1 # b2 # _ \<Rightarrow>
           if second_ok b0 b1 \<and> cont b2
           then ((b0 - 0xE0) * 4096 + (b1 - 0x80) * 64 + (b2 - 0x80), 3) else (RuneError, 1)
         | _ \<Rightarrow> (RuneError, 1))
      else if 0xF0 \<le> b0 \<and> b0 \<le> 0xF4 then
        (case bs of b1 # b2 # b3 # _ \<Rightarrow>
           if second_ok b0 b1 \<and> cont b2 \<and> cont b3
           then ((b0 - 0xF0) * 262144 + (b1 - 0x80) * 4096 + (b2 - 0x80) * 64 + (b3 - 0x80), 4)
           else (RuneError, 1)
         | _ \<Rightarrow> (RuneError, 1))
      else (RuneError, 1))"

definition DecodeRune :: "string \<Rightarrow> nat \<times> nat" where
  "DecodeRune s = decode (map of_char (take 4 s))"

definition valid_rune :: "nat \<Rightarrow> bool" where
  "valid_rune r \<longleftrightarrow> r < 0xD800 \<or> (0xE000 \<le> r \<and> r \<le> 0x10FFFF)"

definition encode :: "nat \<Rightarrow> nat list" where
  "encode r0 =
     (let r = (if valid_rune r0 then r0 else RuneError)
      in if r < 0x80 then [r]
         else if r < 0x800 then [0xC0 + r div 64, 0x80 + r mod 64]
         else if r < 0x10000
         then [0xE0 + r div 4096, 0x80 + r div 64 mod 64, 0x80 + r mod 64]
         else [0xF0 + r div 262144, 0x80 + r div 4096 mod 64, 0x80 + r div 64 mod 64,
               0x80 + r mod 64])"

definition EncodeRune :: "nat \<Rightarrow> string" where
  "EncodeRune r = map char_of (encode r)"

subsection \<open>Decoding\<close>

lemma decode_width: "bs \<noteq> [] \<Longrightarrow> 1 \<le> snd (decode bs) \<and> snd (decode bs) \<le> length bs"
  by (cases bs) (auto split: list.splits if_splits)

lemma DecodeRune_width:
  "s \<noteq> [] \<Longrightarrow> 1 \<le> snd (DecodeRune s) \<and> snd (DecodeRune s) \<le> length s"
  using decode_width [of "map of_char (take 4 s)"] by (simp add: DecodeRune_def)

lemma second_ok_cont: "second_ok b0 b1 \<Longrightarrow> cont b1"
  by (auto simp: second_ok_def cont_def split: if_splits)

text \<open>Decoding never looks past a byte that cannot continue a rune.\<close>

lemma decode_append:
  assumes "xs \<noteq> []" and "ys = [] \<or> \<not> cont (hd ys)"
  shows "decode (xs @ ys) = decode xs"
proof (cases "ys = []")
  case False
  with assms(2) obtain y ys' where ys: "ys = y # ys'" and nc: "\<not> cont y" by (cases ys) auto
  have ns: "\<not> second_ok b0 y" for b0 using nc second_ok_cont by blast
  from assms(1) obtain x xs' where "xs = x # xs'" by (cases xs) auto
  then show ?thesis using ns nc by (auto simp: ys split: list.splits)
qed simp

lemma decode_take4: "decode (take 4 bs) = decode bs"
  by (cases bs) (auto split: list.splits simp: take_Suc_conv_app_nth numeral_eq_Suc take_Cons')

lemma DecodeRune_decode: "DecodeRune s = decode (map of_char s)"
  by (simp add: DecodeRune_def take_map [symmetric] decode_take4)

lemma encode_cases:
  assumes "valid_rune r"
  shows "(r < 0x80 \<and> encode r = [r]) \<or>
    (0x80 \<le> r \<and> r < 0x800 \<and> encode r = [0xC0 + r div 64, 0x80 + r mod 64]) \<or>
    (0x800 \<le> r \<and> r < 0x10000 \<and>
       encode r = [0xE0 + r div 4096, 0x80 + r div 64 mod 64, 0x80 + r mod 64]) \<or>
    (0x10000 \<le> r \<and> r \<le> 0x10FFFF \<and>
       encode r = [0xF0 + r div 262144, 0x80 + r div 4096 mod 64, 0x80 + r div 64 mod 64,
                   0x80 + r mod 64])"
  using assms by (auto simp: encode_def Let_def valid_rune_def)

lemma split3: "(r :: nat) = r div 4096 * 4096 + r div 64 mod 64 * 64 + r mod 64"
proof -
  define q where "q = r div 64"
  have "r div 4096 = q div 64" by (simp add: q_def div_mult2_eq [symmetric])
  moreover have "r = q * 64 + r mod 64" by (simp add: q_def)
  moreover have "q = q div 64 * 64 + q mod 64" by simp
  ultimately show ?thesis unfolding q_def [symmetric] by linarith
qed

lemma split4: "(r :: nat) div 4096 = r div 262144 * 64 + r div 4096 mod 64"
proof -
  have "r div 262144 = r div 4096 div 64" by (simp add: div_mult2_eq [symmetric])
  then show ?thesis using div_mult_mod_eq [of "r div 4096" 64] by simp
qed

lemma decode_encode2:
  assumes "0x80 \<le> r" "r < 0x800"
  shows "decode ([0xC0 + r div 64, 0x80 + r mod 64] @ bs) = (r, 2)"
proof -
  have "2 \<le> r div 64" "r div 64 \<le> 31" using assms by linarith+
  moreover have "r mod 64 < 64" by simp
  moreover have "r div 64 * 64 + r mod 64 = r" by simp
  ultimately show ?thesis by (simp add: second_ok_def)
qed

lemma decode_encode3:
  assumes "0x800 \<le> r" "r < 0x10000" "valid_rune r"
  shows "decode ([0xE0 + r div 4096, 0x80 + r div 64 mod 64, 0x80 + r mod 64] @ bs) = (r, 3)"
proof -
  define a b c where abc: "a = r div 4096" "b = r div 64 mod 64" "c = r mod 64"
  have r: "r = a * 4096 + b * 64 + c" and bc: "b < 64" "c < 64"
    using split3 [of r] unfolding abc by simp_all
  have a: "a \<le> 15" using assms(2) unfolding abc by linarith
  have "a = 0 \<longrightarrow> 32 \<le> b" "a = 13 \<longrightarrow> b \<le> 31"
    using assms r bc by (auto simp: valid_rune_def)
  then show ?thesis using a bc unfolding abc [symmetric]
    by (auto simp: r second_ok_def cont_def)
qed

lemma decode_encode4:
  assumes "0x10000 \<le> r" "r \<le> 0x10FFFF"
  shows "decode ([0xF0 + r div 262144, 0x80 + r div 4096 mod 64, 0x80 + r div 64 mod 64,
                  0x80 + r mod 64] @ bs) = (r, 4)"
proof -
  define a b c d where abc: "a = r div 262144" "b = r div 4096 mod 64" "c = r div 64 mod 64" "d = r mod 64"
  have r: "r = a * 262144 + b * 4096 + c * 64 + d" and bc: "b < 64" "c < 64" "d < 64"
    using split3 [of r] split4 [of r] unfolding abc by simp_all
  have a: "a \<le> 4" using assms(2) unfolding abc by linarith
  have "a = 0 \<longrightarrow> 16 \<le> b" "a = 4 \<longrightarrow> b \<le> 15" using assms r bc by auto
  then show ?thesis using a bc unfolding abc [symmetric]
    by (auto simp: r second_ok_def cont_def)
qed

lemma decode_encode: "valid_rune r \<Longrightarrow> decode (encode r @ bs) = (r, length (encode r))"
  using encode_cases [of r] decode_encode2 [of r bs] decode_encode3 [of r bs]
    decode_encode4 [of r bs] by auto

lemma encode_valid_bytes:
  assumes "valid_rune r" and "b \<in> set (encode r)"
  shows "b < 256"
proof -
  have "r div 64 \<le> 31" if "r < 0x800" using that by linarith
  moreover have "r div 4096 \<le> 15" if "r < 0x10000" using that by linarith
  moreover have "r div 262144 \<le> 4" if "r \<le> 0x10FFFF" using that by linarith
  moreover have "x mod 64 < 64" for x :: nat by simp
  ultimately show ?thesis using encode_cases [OF assms(1)] assms(2)
    by (elim disjE) (fastforce simp: nat_less_le)+
qed

lemma encode_bytes: "b \<in> set (encode r) \<Longrightarrow> b < 256"
proof -
  let ?r = "if valid_rune r then r else RuneError"
  have "valid_rune ?r" by (simp add: valid_rune_def RuneError_def)
  moreover have "encode ?r = encode r" by (simp add: encode_def valid_rune_def RuneError_def)
  ultimately show "b \<in> set (encode r) \<Longrightarrow> b < 256" using encode_valid_bytes by metis
qed

lemma map_byte_EncodeRune: "map of_char (EncodeRune r) = encode r"
proof -
  have "map (of_char \<circ> char_of) (encode r) = encode r"
    by (rule map_idI) (simp add: encode_bytes)
  then show ?thesis by (simp add: EncodeRune_def)
qed

lemma length_EncodeRune: "length (EncodeRune r) = length (encode r)"
  by (simp add: EncodeRune_def)

lemma DecodeRune_EncodeRune:
  "valid_rune r \<Longrightarrow> DecodeRune (EncodeRune r @ s) = (r, length (EncodeRune r))"
  by (simp add: DecodeRune_decode map_byte_EncodeRune decode_encode length_EncodeRune)

text \<open>The rune that decoding yields is always a valid one.\<close>

lemma valid_rune3:
  assumes "a \<le> 15" "b \<le> 63" "c \<le> 63" "a = 13 \<longrightarrow> b \<le> 31"
  shows "valid_rune (a * 4096 + b * 64 + c)"
  using assms by (cases "a \<le> 12"; cases "a = 13") (simp_all add: valid_rune_def)

lemma valid_rune4:
  assumes "a \<le> 4" "b \<le> 63" "c \<le> 63" "d \<le> 63" "a = 0 \<longrightarrow> 16 \<le> b" "a = 4 \<longrightarrow> b \<le> 15"
  shows "valid_rune (a * 262144 + b * 4096 + c * 64 + d)"
  using assms by (cases "a = 0"; cases "a = 4") (simp_all add: valid_rune_def)

lemma decode_valid: "valid_rune (fst (decode bs))"
proof (cases bs)
  case Nil
  then show ?thesis by (simp add: RuneError_def valid_rune_def)
next
  case (Cons b0 bs')
  have err: "valid_rune RuneError" by (simp add: RuneError_def valid_rune_def)
  have two: "valid_rune ((b0 - 0xC0) * 64 + (b1 - 0x80))"
    if "b0 \<le> 0xDF" "second_ok b0 b1" for b1
  proof -
    have "b1 \<le> 0xBF" using that(2) by (auto dest: second_ok_cont simp: cont_def)
    then have "b1 - 0x80 \<le> 63" by simp
    moreover have "b0 - 0xC0 \<le> 31" using that(1) by simp
    ultimately have "(b0 - 0xC0) * 64 + (b1 - 0x80) < 0xD800" by linarith
    then show ?thesis by (simp add: valid_rune_def)
  qed
  have three: "valid_rune ((b0 - 0xE0) * 4096 + (b1 - 0x80) * 64 + (b2 - 0x80))"
    if "0xE0 \<le> b0" "b0 \<le> 0xEF" "second_ok b0 b1" "cont b2" for b1 b2
    using that by (intro valid_rune3) (auto simp: second_ok_def cont_def split: if_splits)
  have four: "valid_rune ((b0 - 0xF0) * 262144 + (b1 - 0x80) * 4096 + (b2 - 0x80) * 64 + (b3 - 0x80))"
    if "0xF0 \<le> b0" "b0 \<le> 0xF4" "second_ok b0 b1" "cont b2" "cont b3" for b1 b2 b3
    using that by (intro valid_rune4) (auto simp: second_ok_def cont_def split: if_splits)
  have one: "valid_rune b0" if "b0 < 0x80" using that by (simp add: valid_rune_def)
  show ?thesis using Cons one two three four err by (simp split: list.split)
qed

lemma DecodeRune_valid: "valid_rune (fst (DecodeRune s))"
  by (simp add: DecodeRune_decode decode_valid)

subsection \<open>The runes of a string\<close>

text \<open>The segments that \<open>range\<close> over a string visits: each rune with the bytes it stands for.\<close>

function runes :: "string \<Rightarrow> (nat \<times> string) list" where
  "runes [] = []"
| "runes (c # cs) =
     (let s = c # cs; w = snd (DecodeRune s)
      in (fst (DecodeRune s), take w s) # runes (drop w s))"
  by pat_completeness auto
termination
proof (relation "measure length")
  fix c cs s w
  assume "s = c # cs" and "w = snd (DecodeRune s)"
  then show "(drop w s, c # cs) \<in> measure length"
    using DecodeRune_width [of s] by simp
qed simp

lemma runes_unfold:
  "s \<noteq> [] \<Longrightarrow> runes s =
     (fst (DecodeRune s), take (snd (DecodeRune s)) s) # runes (drop (snd (DecodeRune s)) s)"
  by (cases s) (simp_all add: Let_def)

declare runes.simps(2) [simp del]

abbreviation bytes_of :: "(nat \<times> string) list \<Rightarrow> string" where
  "bytes_of rs \<equiv> concat (map snd rs)"

lemma bytes_of_runes [simp]: "bytes_of (runes s) = s"
proof (induction s rule: runes.induct)
  case (2 c cs)
  then show ?case by (simp add: runes_unfold [of "c # cs"])
qed simp

lemma runes_nonempty: "r \<in> set (runes s) \<Longrightarrow> snd r \<noteq> []"
proof (induction s rule: runes.induct)
  case (2 c cs)
  then show ?case using DecodeRune_width [of "c # cs"] by (auto simp: runes_unfold [of "c # cs"])
qed simp

lemma runes_Nil_iff [simp]: "runes s = [] \<longleftrightarrow> s = []"
  by (cases s) (simp_all add: runes_unfold)

lemma runes_valid: "r \<in> set (runes s) \<Longrightarrow> valid_rune (fst r)"
proof (induction s rule: runes.induct)
  case (2 c cs)
  then show ?case using DecodeRune_valid [of "c # cs"] by (auto simp: runes_unfold [of "c # cs"])
qed simp

text \<open>Re-reading a string from a rune boundary gives the same remaining runes.\<close>

lemma runes_suffix: "runes (bytes_of (drop n (runes s))) = drop n (runes s)"
proof (induction s arbitrary: n rule: runes.induct)
  case (2 c cs)
  show ?case
  proof (cases n)
    case (Suc m)
    then show ?thesis using 2 [of _ _ m] by (simp add: runes_unfold [of "c # cs"])
  qed (simp add: bytes_of_runes)
qed simp

lemma runes_dropWhile: "runes (bytes_of (dropWhile P (runes s))) = dropWhile P (runes s)"
  by (metis dropWhile_eq_drop runes_suffix)

text \<open>A string may be cut before any byte that cannot continue a rune.\<close>

definition starts_rune :: "string \<Rightarrow> bool" where
  "starts_rune s \<longleftrightarrow> s = [] \<or> \<not> cont (byte (hd s))"

lemma DecodeRune_append:
  assumes "s \<noteq> []" and "starts_rune t"
  shows "DecodeRune (s @ t) = DecodeRune s"
  using assms decode_append [of "map of_char s" "map of_char t"]
  by (cases t) (auto simp: DecodeRune_decode starts_rune_def)

lemma runes_append: "starts_rune t \<Longrightarrow> runes (s @ t) = runes s @ runes t"
proof (induction s rule: runes.induct)
  case (2 c cs)
  let ?s = "c # cs" and ?w = "snd (DecodeRune (c # cs))"
  have d: "DecodeRune (?s @ t) = DecodeRune ?s" using DecodeRune_append 2 by blast
  have w: "?w \<le> length ?s" using DecodeRune_width [of ?s] by simp
  have "runes (?s @ t) = (fst (DecodeRune ?s), take ?w ?s) # runes (drop ?w ?s @ t)"
    using w runes_unfold [of "?s @ t"] by (simp add: d del: append_Cons)
  also have "\<dots> = (fst (DecodeRune ?s), take ?w ?s) # runes (drop ?w ?s) @ runes t"
    using 2 by simp
  also have "\<dots> = runes ?s @ runes t" by (simp add: runes_unfold [of ?s])
  finally show ?case .
qed simp

lemma runes_EncodeRune:
  assumes "valid_rune r"
  shows "runes (EncodeRune r @ s) = (r, EncodeRune r) # runes s"
proof -
  have "EncodeRune r \<noteq> []" using assms encode_cases [of r] by (auto simp: EncodeRune_def)
  then show ?thesis
    using DecodeRune_EncodeRune [OF assms, of s] runes_unfold [of "EncodeRune r @ s"] by simp
qed

lemma runes_encoded:
  "list_all valid_rune rs \<Longrightarrow> map fst (runes (concat (map EncodeRune rs))) = rs"
  by (induction rs) (simp_all add: runes_EncodeRune)

subsection \<open>White space (\<^verbatim>\<open>bufio\<close>)\<close>

definition isSpace :: "nat \<Rightarrow> bool" where
  "isSpace r \<longleftrightarrow>
     (if r \<le> 0xFF then r = 0x20 \<or> (0x09 \<le> r \<and> r \<le> 0x0D) \<or> r = 0x85 \<or> r = 0xA0
      else (0x2000 \<le> r \<and> r \<le> 0x200A) \<or> r = 0x1680 \<or> r = 0x2028 \<or> r = 0x2029 \<or>
           r = 0x202F \<or> r = 0x205F \<or> r = 0x3000)"

definition blank :: "string \<Rightarrow> bool" where
  "blank s \<longleftrightarrow> (\<forall>r \<in> set (runes s). isSpace (fst r))"

definition solid :: "string \<Rightarrow> bool" where
  "solid s \<longleftrightarrow> s \<noteq> [] \<and> (\<forall>r \<in> set (runes s). \<not> isSpace (fst r))"

text \<open>White space starts with a byte that cannot continue a rune, so words and white space
  never fuse.\<close>

lemma isSpace_not_cont:
  assumes "s \<noteq> []" and "isSpace (fst (DecodeRune s))"
  shows "\<not> cont (byte (hd s))"
proof
  assume c: "cont (byte (hd s))"
  from assms(1) obtain x xs where "s = x # xs" by (cases s) auto
  with c have "fst (DecodeRune s) = RuneError" by (simp add: DecodeRune_decode cont_def)
  with assms(2) show False by (simp add: RuneError_def isSpace_def)
qed

lemma blank_starts_rune: "blank s \<Longrightarrow> starts_rune s"
  using isSpace_not_cont [of s] by (cases s) (auto simp: blank_def starts_rune_def runes_unfold)

lemma blank_append: "blank s \<Longrightarrow> starts_rune t \<Longrightarrow> blank t \<Longrightarrow> blank (s @ t)"
  by (auto simp: blank_def runes_append)

subsection \<open>Decimal numbers (\<^verbatim>\<open>%d\<close>)\<close>

fun utoa :: "nat \<Rightarrow> string" where
  "utoa n = (if n < 10 then [char_of (48 + n)] else utoa (n div 10) @ [char_of (48 + n mod 10)])"

declare utoa.simps [simp del]

definition itoa :: "int \<Rightarrow> string" where
  "itoa i = (if i < 0 then CHR ''-'' # utoa (nat (- i)) else utoa (nat i))"

definition dec_digit :: "char \<Rightarrow> bool" where
  "dec_digit c \<longleftrightarrow> 48 \<le> (of_char c :: nat) \<and> of_char c \<le> (57 :: nat)"

definition digits_value :: "string \<Rightarrow> nat" where
  "digits_value ds = foldl (\<lambda>n c. n * 10 + (of_char c - 48)) 0 ds"

text \<open>An optional minus sign and as many digits as there are: the value and what follows.\<close>

definition read_digits :: "string \<Rightarrow> (nat \<times> string) option" where
  "read_digits s = (if takeWhile dec_digit s = [] then None
     else Some (digits_value (takeWhile dec_digit s), dropWhile dec_digit s))"

definition read_int :: "string \<Rightarrow> (int \<times> string) option" where
  "read_int s = (case s of
       [] \<Rightarrow> None
     | c # t \<Rightarrow> if c = CHR ''-'' then map_option (map_prod (\<lambda>n. - int n) id) (read_digits t)
                else map_option (map_prod int id) (read_digits s))"

lemma dec_digit_char_of [simp]: "n < 10 \<Longrightarrow> dec_digit (char_of (48 + n :: nat))"
  by (simp add: dec_digit_def)

lemma utoa_digits: "list_all dec_digit (utoa n) \<and> utoa n \<noteq> [] \<and> digits_value (utoa n) = n"
proof (induction n rule: utoa.induct)
  case (1 n)
  show ?case
  proof (cases "n < 10")
    case False
    then show ?thesis using 1 by (simp add: utoa.simps [of n] digits_value_def)
  qed (simp add: utoa.simps [of n] digits_value_def)
qed

lemma read_digits_utoa:
  assumes "t = [] \<or> \<not> dec_digit (hd t)"
  shows "read_digits (utoa n @ t) = Some (n, t)"
proof -
  have "takeWhile dec_digit (utoa n @ t) = utoa n @ takeWhile dec_digit t"
    and "dropWhile dec_digit (utoa n @ t) = dropWhile dec_digit t"
    using utoa_digits [of n] by (auto simp: list_all_iff)
  moreover have "takeWhile dec_digit t = []" and "dropWhile dec_digit t = t" using assms by (cases t; auto)+
  ultimately show ?thesis using utoa_digits [of n] by (simp add: read_digits_def)
qed

lemma utoa_head: "\<exists>c s. utoa n = c # s \<and> dec_digit c"
  using utoa_digits [of n] by (cases "utoa n") auto

lemma read_int_itoa:
  assumes "t = [] \<or> \<not> dec_digit (hd t)"
  shows "read_int (itoa i @ t) = Some (i, t)"
proof (cases "i < 0")
  case True
  then show ?thesis using read_digits_utoa [OF assms, of "nat (- i)"] by (simp add: itoa_def read_int_def)
next
  case False
  obtain c s where u: "utoa (nat i) = c # s" and c: "dec_digit c" using utoa_head by metis
  have "c \<noteq> CHR ''-''" using c by (auto simp: dec_digit_def)
  then show ?thesis using False read_digits_utoa [OF assms, of "nat i"] by (simp add: itoa_def read_int_def u)
qed

end
