(* ===== verification/Checker.thy ===== *)
theory Checker
  imports Job GoText
begin

section \<open>Output checkers (\<^verbatim>\<open>internal/checker\<close>)\<close>

text \<open>
  A checker compares a program's output file with the expected one. A file is an optional
  byte string, \<open>None\<close> when it cannot be opened. The token checker reads both files through
  \<open>bufio.Scanner\<close> with \<open>ScanWords\<close> (\<open>scan_next\<close>), the exact checker compares bytes after
  trimming, and the registry is a map from names to checkers. Diagnostics are a datatype
  with one constructor per message, holding what the message prints.

  \<open>words\<close> is the reference definition: the maximal runs of non-space runes. The lemmas show
  that the streaming comparison decides equality of words, that re-formatting white space
  never changes the outcome, and that every checker keeps the contract the judge relies on
  (locale \<open>checker_contract\<close>).
\<close>

datatype checker_msg =
    NoMsg
  | NoOutput
  | ExtraOutput nat string
  | EndedEarly nat string
  | TokenDiffers nat string string
  | LengthMismatch nat nat
  | FirstDifference nat
  | CountMismatch nat
  | GotNonFinite nat f64
  | OutsideTolerance nat f64 f64 f64 f64

datatype checker_error = OpenExpected

type_synonym content = "string option"
type_synonym check_result = "(checker_error, bool \<times> checker_msg) result"
type_synonym Checker = "content \<Rightarrow> content \<Rightarrow> CheckerConfig \<Rightarrow> check_result"

subsection \<open>The registry\<close>

type_synonym registry = "string \<rightharpoonup> Checker"

definition Register :: "string \<Rightarrow> Checker \<Rightarrow> registry \<Rightarrow> registry" where
  "Register name c registry = registry(name \<mapsto> c)"

datatype registry_error = UnknownChecker string

definition Get :: "registry \<Rightarrow> string \<Rightarrow> (registry_error, Checker) result" where
  "Get registry name =
     (case registry name of None \<Rightarrow> Inl (UnknownChecker name) | Some c \<Rightarrow> Inr c)"

subsection \<open>The token scanner\<close>

definition maxTokenSize :: nat where "maxTokenSize = 2 ^ 24"

abbreviation space :: "nat \<times> string \<Rightarrow> bool" where "space r \<equiv> isSpace (fst r)"
abbreviation nonspace :: "nat \<times> string \<Rightarrow> bool" where "nonspace r \<equiv> \<not> isSpace (fst r)"

text \<open>
  One \<open>Scan\<close> with \<open>ScanWords\<close>: leading spaces are skipped, the word ends before the next
  space, which is consumed too. The buffer must hold the word and its delimiter, or, at the
  end of the file, have a free byte for the read that finds the end; otherwise \<open>Scan\<close> answers
  false with \<open>ErrTooLong\<close>, which the checkers do not tell from the end of the file.
\<close>

definition scan_next :: "string \<Rightarrow> (string \<times> string) option" where
  "scan_next s =
     (let rs = dropWhile space (runes s);
          w = bytes_of (takeWhile nonspace rs)
      in case dropWhile nonspace rs of
           [] \<Rightarrow> if w \<noteq> [] \<and> length w + 1 \<le> maxTokenSize then Some (w, []) else None
         | d # ds \<Rightarrow> if length w + length (snd d) \<le> maxTokenSize then Some (w, bytes_of ds)
                     else None)"

text \<open>For evaluation, the size of the buffer is compared as a binary number.\<close>

lemma scan_next_code [code]:
  "scan_next s =
     (let rs = dropWhile space (runes s);
          w = bytes_of (takeWhile nonspace rs)
      in case dropWhile nonspace rs of
           [] \<Rightarrow> if w \<noteq> [] \<and> int (length w) + 1 \<le> 16777216 then Some (w, []) else None
         | d # ds \<Rightarrow> if int (length w) + int (length (snd d)) \<le> 16777216 then Some (w, bytes_of ds)
                     else None)"
proof -
  have e: "n + m \<le> maxTokenSize \<longleftrightarrow> int n + int m \<le> 16777216" for n m
    unfolding maxTokenSize_def by simp linarith
  show ?thesis unfolding scan_next_def e of_nat_1 by (rule refl)
qed

definition trunc :: "string \<Rightarrow> string" where
  "trunc s = (if length s \<le> 40 then s else take 40 s @ ''...'')"

lemma scan_next_shorter: "scan_next s = Some (w, s') \<Longrightarrow> length s' < length s"
proof -
  assume a: "scan_next s = Some (w, s')"
  let ?rs = "dropWhile space (runes s)"
  have s: "length (bytes_of ?rs) \<le> length s"
  proof -
    have "s = bytes_of (takeWhile space (runes s)) @ bytes_of ?rs"
      by (metis bytes_of_runes concat_append map_append takeWhile_dropWhile_id)
    then show ?thesis by (metis length_append le_add2)
  qed
  have rs: "bytes_of ?rs = bytes_of (takeWhile nonspace ?rs) @ bytes_of (dropWhile nonspace ?rs)"
    by (metis concat_append map_append takeWhile_dropWhile_id)
  show ?thesis
  proof (cases "dropWhile nonspace ?rs")
    case Nil
    have "s' = []" "w \<noteq> []" "w = bytes_of (takeWhile nonspace ?rs)"
      using a unfolding scan_next_def Let_def Nil list.case by (metis option.distinct(1) option.inject prod.inject)+
    then have "0 < length (bytes_of (takeWhile nonspace ?rs))" by auto
    moreover have "length (bytes_of ?rs) = length (bytes_of (takeWhile nonspace ?rs)) + 0"
      by (subst rs) (simp only: Nil length_append list.map concat.simps list.size)
    ultimately have "0 < length (bytes_of ?rs)" by linarith
    with s have "0 < length s" by linarith
    then show ?thesis using \<open>s' = []\<close> by simp
  next
    case (Cons d ds)
    have "set (dropWhile nonspace ?rs) \<subseteq> set (runes s)" by (meson set_dropWhileD subsetI)
    then have "d \<in> set (runes s)" using Cons by auto
    then have "snd d \<noteq> []" by (rule runes_nonempty)
    moreover have "s' = bytes_of ds"
      using a unfolding scan_next_def Let_def Cons list.case by (metis option.distinct(1) option.inject prod.inject)
    moreover have "length (bytes_of ?rs) = length (bytes_of (takeWhile nonspace ?rs)) +
        length (snd d) + length (bytes_of ds)"
      by (subst rs) (simp add: Cons)
    moreover have "0 < length (snd d)" using calculation(1) by simp
    ultimately have "length s' = length (bytes_of ds)" "length (bytes_of ds) < length s"
      using s by (simp only:, linarith)
    then show ?thesis by linarith
  qed
qed

subsection \<open>The token checker\<close>

function token_loop :: "nat \<Rightarrow> string \<Rightarrow> string \<Rightarrow> bool \<times> checker_msg" where
  "token_loop n es as =
     (case scan_next es of
        None \<Rightarrow> (case scan_next as of
           None \<Rightarrow> (True, NoMsg)
         | Some (a, _) \<Rightarrow> (False, ExtraOutput n (trunc a)))
      | Some (e, es') \<Rightarrow> (case scan_next as of
           None \<Rightarrow> (False, EndedEarly (n + 1) (trunc e))
         | Some (a, as') \<Rightarrow>
             if e \<noteq> a then (False, TokenDiffers (n + 1) (trunc e) (trunc a))
             else token_loop (n + 1) es' as'))"
  by pat_completeness auto
termination
  by (relation "measure (\<lambda>(_, es, _). length es)") (auto dest: scan_next_shorter)

declare token_loop.simps [simp del]

definition Token_Check :: Checker where
  "Token_Check expected actual cfg =
     (case expected of None \<Rightarrow> Inl OpenExpected
      | Some e \<Rightarrow> (case actual of None \<Rightarrow> Inr (False, NoOutput)
         | Some a \<Rightarrow> Inr (token_loop 0 e a)))"

subsection \<open>The exact checker\<close>

definition is_newline :: "char \<Rightarrow> bool" where
  "is_newline c \<longleftrightarrow> byte c = 10 \<or> byte c = 13"

function trimTrailingNewline :: "string \<Rightarrow> string" where
  "trimTrailingNewline b =
     (if b \<noteq> [] \<and> is_newline (last b) then trimTrailingNewline (butlast b) else b)"
  by pat_completeness auto
termination by (relation "measure length") auto

declare trimTrailingNewline.simps [simp del]

fun first_difference :: "nat \<Rightarrow> string \<Rightarrow> string \<Rightarrow> bool \<times> checker_msg" where
  "first_difference i (x # xs) (y # ys) =
     (if x \<noteq> y then (False, FirstDifference i) else first_difference (i + 1) xs ys)"
| "first_difference i _ _ = (True, NoMsg)"

definition Exact_Check :: Checker where
  "Exact_Check expected actual cfg =
     (case expected of None \<Rightarrow> Inl OpenExpected
      | Some e \<Rightarrow> (case actual of None \<Rightarrow> Inr (False, NoOutput)
         | Some a \<Rightarrow>
             (let et = trimTrailingNewline e; at' = trimTrailingNewline a
              in if length et \<noteq> length at' then Inr (False, LengthMismatch (length et) (length at'))
                 else Inr (first_difference 0 et at'))))"

subsection \<open>The contract of a checker\<close>

text \<open>
  What the judge relies on: only an unreadable expected file is an infrastructure error, a
  missing output is a rejection, and a diagnostic is present exactly on rejection.
\<close>

locale checker_contract =
  fixes check :: Checker
  assumes expected_missing: "check None actual cfg = Inl OpenExpected"
    and actual_missing: "check (Some e) None cfg = Inr (False, NoOutput)"
    and readable: "\<exists>msg. check (Some e) (Some a) cfg = Inr (msg = NoMsg, msg)"
begin

lemma outcome:
  obtains "expected = None" "check expected actual cfg = Inl OpenExpected"
  | e where "expected = Some e" "actual = None" "check expected actual cfg = Inr (False, NoOutput)"
  | e a msg where "expected = Some e" "actual = Some a"
      "check expected actual cfg = Inr (msg = NoMsg, msg)"
proof (cases expected)
  case None
  then show thesis using that(1) expected_missing by simp
next
  case (Some e)
  then show thesis
    using that(2) [of e] that(3) [of e] actual_missing [of e cfg] readable [of e "the actual" cfg]
    by (cases actual) auto
qed

lemma error_iff: "check expected actual cfg = Inl err \<longleftrightarrow> expected = None"
  by (cases err; rule outcome [of expected actual cfg]) auto

lemma message_iff: "check expected actual cfg = Inr (ok, msg) \<Longrightarrow> ok \<longleftrightarrow> msg = NoMsg"
  by (rule outcome [of expected actual cfg]) auto

lemma accepted_readable:
  "check expected actual cfg = Inr (True, msg) \<Longrightarrow> expected \<noteq> None \<and> actual \<noteq> None"
  by (rule outcome [of expected actual cfg]) auto

end

lemma token_loop_msg: "\<exists>msg. token_loop n es as = (msg = NoMsg, msg)"
proof (induction n es as rule: token_loop.induct)
  case (1 n es as)
  then show ?case
    by (simp add: token_loop.simps [of n es as] split: option.split prod.split)
qed

lemma first_difference_msg: "\<exists>msg. first_difference i xs ys = (msg = NoMsg, msg)"
  by (induction i xs ys rule: first_difference.induct) auto

interpretation token: checker_contract Token_Check
  by unfold_locales (simp_all add: Token_Check_def token_loop_msg)

interpretation exact: checker_contract Exact_Check
  by unfold_locales (simp_all add: Exact_Check_def Let_def first_difference_msg)

subsection \<open>Fields\<close>

function words_of :: "(nat \<times> string) list \<Rightarrow> string list" where
  "words_of [] = []"
| "words_of (r # rs) =
     (if space r then words_of rs
      else bytes_of (takeWhile nonspace (r # rs)) # words_of (dropWhile nonspace (r # rs)))"
  by pat_completeness auto
termination
  by (relation "measure length") (auto simp: le_imp_less_Suc length_dropWhile_le)

definition words :: "string \<Rightarrow> string list" where
  "words s = words_of (runes s)"

text \<open>Every field, with a delimiter of up to four bytes, fits into the scanner's buffer.\<close>

definition fits :: "string \<Rightarrow> bool" where
  "fits s \<longleftrightarrow> (\<forall>w \<in> set (words s). length w + 4 \<le> maxTokenSize)"

function tokens :: "string \<Rightarrow> string list" where
  "tokens s = (case scan_next s of None \<Rightarrow> [] | Some (w, s') \<Rightarrow> w # tokens s')"
  by pat_completeness auto
termination
  by (relation "measure length") (auto dest: scan_next_shorter)

declare tokens.simps [simp del]

lemma words_of_dropWhile: "words_of (dropWhile space rs) = words_of rs"
  by (induction rs) auto

lemma runes_width: "r \<in> set (runes s) \<Longrightarrow> length (snd r) \<le> 4"
proof (induction s rule: runes.induct)
  case (2 c cs)
  have "snd (decode bs) \<le> 4" for bs
    by (cases bs) (auto split: list.splits)
  then have "length (take (snd (DecodeRune (c # cs))) (c # cs)) \<le> 4"
    by (simp add: DecodeRune_decode min.coboundedI2 del: decode.simps)
  then show ?case using 2 by (auto simp: runes_unfold [of "c # cs"])
qed simp

text \<open>One step of the scanner is one step of \<open>words\<close>.\<close>

lemma scan_next_step:
  assumes "fits s"
  shows "(scan_next s = None \<and> words s = []) \<or>
         (\<exists>w s'. scan_next s = Some (w, s') \<and> words s = w # words s' \<and> fits s')"
proof (cases "dropWhile space (runes s)")
  case Nil
  have "words s = words_of []" using words_of_dropWhile [of "runes s"] by (simp only: Nil words_def)
  then have "words s = []" by simp
  moreover have "scan_next s = None" unfolding scan_next_def Let_def Nil by simp
  ultimately show ?thesis by simp
next
  case (Cons r rs)
  have nr: "nonspace r" using Cons by (metis hd_dropWhile list.distinct(1) list.sel(1))
  let ?w = "bytes_of (takeWhile nonspace (r # rs))" and ?d = "dropWhile nonspace (r # rs)"
  have f: "words s = ?w # words_of ?d"
    using words_of_dropWhile [of "runes s"] nr by (simp add: words_def Cons)
  have w: "length ?w + 4 \<le> maxTokenSize" using assms f by (simp add: fits_def)
  have "r \<in> set (runes s)" using Cons by (metis list.set_intros(1) set_dropWhileD)
  then have "?w \<noteq> []" using nr runes_nonempty by simp
  show ?thesis
  proof (cases ?d)
    case Nil
    have "length ?w + 1 \<le> maxTokenSize" using w by linarith
    with \<open>?w \<noteq> []\<close> have "scan_next s = Some (?w, [])"
      unfolding scan_next_def Let_def Cons Nil list.case by argo
    moreover have "words s = ?w # words []" using f unfolding Nil by (simp add: words_def)
    moreover have "fits []" by (simp add: fits_def words_def)
    ultimately show ?thesis by blast
  next
    case (Cons d ds)
    have "d \<in> set (runes s)" using Cons \<open>dropWhile space (runes s) = r # rs\<close>
      by (metis list.set_intros(1) set_dropWhileD)
    then have "length (snd d) \<le> 4" by (rule runes_width)
    then have s: "scan_next s = Some (?w, bytes_of ds)"
      unfolding scan_next_def Let_def \<open>dropWhile space (runes s) = r # rs\<close> Cons using w by simp
    have "ds = drop (Suc (length (takeWhile nonspace (r # rs)))) (r # rs)"
      using Cons by (metis dropWhile_eq_drop list.sel(3) drop_Suc tl_drop)
    then have "ds = drop (Suc (length (takeWhile nonspace (r # rs))) +
        length (takeWhile space (runes s))) (runes s)"
      using \<open>dropWhile space (runes s) = r # rs\<close> by (metis drop_drop dropWhile_eq_drop)
    then have "runes (bytes_of ds) = ds" by (metis runes_suffix)
    moreover have "space d" using Cons by (metis hd_dropWhile list.distinct(1) list.sel(1))
    ultimately have "words_of ?d = words (bytes_of ds)" unfolding Cons by (simp add: words_def)
    then have "words s = ?w # words (bytes_of ds)" using f by simp
    moreover have "fits (bytes_of ds)" using assms calculation by (simp add: fits_def)
    ultimately show ?thesis using s by blast
  qed
qed

lemma tokens_words: "fits s \<Longrightarrow> tokens s = words s"
proof (induction s rule: tokens.induct)
  case (1 s)
  from scan_next_step [OF 1(2)] show ?case
  proof (elim disjE exE conjE)
    fix w s'
    assume s: "scan_next s = Some (w, s')" "words s = w # words s'" "fits s'"
    then show ?thesis using 1(1) [of "(w, s')" w s'] by (simp add: tokens.simps [of s])
  qed (simp add: tokens.simps [of s])
qed

lemma words_of_append:
  assumes "rs = [] \<or> ss = [] \<or> space (last rs) \<or> space (hd ss)"
  shows "words_of (rs @ ss) = words_of rs @ words_of ss"
  using assms
proof (induction rs rule: words_of.induct)
  case (2 r rs)
  show ?case
  proof (cases "space r")
    case True
    then show ?thesis using 2 by (cases rs) auto
  next
    case False
    show ?thesis
    proof (cases "\<forall>x \<in> set rs. nonspace x")
      case True
      then have tw: "takeWhile nonspace rs = rs" and dw: "dropWhile nonspace rs = []" by simp_all
      have "space (hd ss) \<or> ss = []" using 2(3) False True by (cases "rs = []") auto
      then have ts: "takeWhile nonspace ss = []" and ds: "dropWhile nonspace ss = ss"
        by (cases ss; auto)+
      show ?thesis using False True by (simp add: tw dw ts ds)
    next
      case 3: False
      then obtain x where x: "x \<in> set rs" "space x" by auto
      have "dropWhile nonspace (r # rs) \<noteq> []" using x by auto
      then have "last (dropWhile nonspace (r # rs)) = last (r # rs)" by (metis last_appendR takeWhile_dropWhile_id)
      then have "words_of (dropWhile nonspace (r # rs) @ ss) =
          words_of (dropWhile nonspace (r # rs)) @ words_of ss"
        using 2(2) [OF False] 2(3) by auto
      then show ?thesis using False x by (simp add: dropWhile_append1 takeWhile_append1)
    qed
  qed
qed simp

subsection \<open>The comparison loop on words\<close>

fun compare :: "nat \<Rightarrow> string list \<Rightarrow> string list \<Rightarrow> bool \<times> checker_msg" where
  "compare n [] [] = (True, NoMsg)"
| "compare n [] (a # _) = (False, ExtraOutput n (trunc a))"
| "compare n (e # _) [] = (False, EndedEarly (n + 1) (trunc e))"
| "compare n (e # es) (a # as) =
     (if e \<noteq> a then (False, TokenDiffers (n + 1) (trunc e) (trunc a)) else compare (n + 1) es as)"

lemma token_loop_tokens: "token_loop n es as = compare n (tokens es) (tokens as)"
proof (induction n es as rule: token_loop.induct)
  case (1 n es as)
  show ?case
    using 1 by (simp add: token_loop.simps [of n es as] tokens.simps [of es] tokens.simps [of as]
        split: option.split prod.split)
qed

text \<open>What a diagnostic says about the two lists of words.\<close>

fun diagnosis :: "string list \<Rightarrow> string list \<Rightarrow> checker_msg \<Rightarrow> bool" where
  "diagnosis es as NoMsg \<longleftrightarrow> es = as"
| "diagnosis es as (ExtraOutput n a) \<longleftrightarrow>
     n = length es \<and> n < length as \<and> take n as = es \<and> a = trunc (as ! n)"
| "diagnosis es as (EndedEarly n e) \<longleftrightarrow>
     n = length as + 1 \<and> length as < length es \<and> take (length as) es = as \<and>
     e = trunc (es ! length as)"
| "diagnosis es as (TokenDiffers n e a) \<longleftrightarrow>
     0 < n \<and> n \<le> length es \<and> n \<le> length as \<and> take (n - 1) es = take (n - 1) as \<and>
     es ! (n - 1) \<noteq> as ! (n - 1) \<and> e = trunc (es ! (n - 1)) \<and> a = trunc (as ! (n - 1))"
| "diagnosis es as _ \<longleftrightarrow> False"

lemma compare_diagnosis:
  "diagnosis (pre @ es) (pre @ as) (snd (compare (length pre) es as)) \<and>
   (fst (compare (length pre) es as) \<longleftrightarrow> es = as)"
proof (induction "length pre" es as arbitrary: pre rule: compare.induct)
  case (4 e es a as)
  show ?case
  proof (cases "e = a")
    case True
    then show ?thesis using 4 [of "pre @ [a]"] by simp
  qed (simp add: nth_append)
qed (simp_all add: nth_append)

lemma compare_refl [simp]: "compare n xs xs = (True, NoMsg)"
  by (induction xs arbitrary: n) auto

lemma compare_spec:
  "diagnosis es as (snd (compare 0 es as)) \<and> (fst (compare 0 es as) \<longleftrightarrow> es = as)"
  using compare_diagnosis [of "[]"] by simp

lemma Token_Check_words:
  "fits e \<Longrightarrow> fits a \<Longrightarrow>
   Token_Check (Some e) (Some a) cfg = Inr (compare 0 (words e) (words a))"
  by (simp add: Token_Check_def token_loop_tokens tokens_words)

subsection \<open>Layouts\<close>

text \<open>A text laid out as words, each preceded by white space, with white space at the end.\<close>

fun layout :: "(string \<times> string) list \<Rightarrow> string \<Rightarrow> string" where
  "layout [] trail = trail"
| "layout ((sep, w) # ws) trail = sep @ w @ layout ws trail"

fun spaced :: "(string \<times> string) list \<Rightarrow> bool" where
  "spaced [] \<longleftrightarrow> True"
| "spaced ((sep, w) # ws) \<longleftrightarrow>
     blank sep \<and> solid w \<and> starts_rune w \<and> (\<forall>(s, _) \<in> set ws. s \<noteq> []) \<and> spaced ws"

lemma words_blank_append:
  "blank s \<Longrightarrow> starts_rune t \<Longrightarrow> words (s @ t) = words t"
proof -
  assume "blank s" "starts_rune t"
  have "words_of (rs @ ss) = words_of ss" if "\<forall>r \<in> set rs. space r" for rs ss
    using that by (induction rs) auto
  then show ?thesis using \<open>blank s\<close> runes_append [OF \<open>starts_rune t\<close>, of s]
    by (simp add: words_def blank_def)
qed

lemma words_solid: "solid w \<Longrightarrow> words w = [w]"
proof -
  assume s: "solid w"
  obtain r rs where r: "runes w = r # rs" using s by (cases "runes w") (auto simp: solid_def)
  have all: "\<forall>x \<in> set (r # rs). nonspace x" using s r by (simp add: solid_def)
  then have tw: "takeWhile nonspace rs = rs" and dw: "dropWhile nonspace rs = []" by simp_all
  have "bytes_of (r # rs) = w" using r by (metis bytes_of_runes)
  then show ?thesis using all by (simp add: words_def r tw dw)
qed

lemma words_solid_append:
  assumes "solid w" and "starts_rune t" and "t = [] \<or> space (hd (runes t))"
  shows "words (w @ t) = w # words t"
proof -
  have "words_of (runes w @ runes t) = words_of (runes w) @ words_of (runes t)"
    using assms(3) by (intro words_of_append) auto
  then show ?thesis
    using runes_append [OF assms(2), of w] words_solid [OF assms(1)] by (simp add: words_def)
qed

lemma layout_starts_rune:
  "spaced ws \<Longrightarrow> blank trail \<Longrightarrow> starts_rune (layout ws trail)"
proof (cases ws)
  case (Cons p ws')
  obtain sep w where p: "p = (sep, w)" by (cases p)
  assume "spaced ws"
  then have "starts_rune sep" "starts_rune w" "w \<noteq> []"
    using Cons p blank_starts_rune by (auto simp: solid_def)
  then show ?thesis using Cons p by (cases sep) (auto simp: starts_rune_def)
qed (simp add: blank_starts_rune)

lemma layout_hd_space:
  assumes "spaced ws" "blank trail" "\<forall>(s, _) \<in> set ws. s \<noteq> []" "layout ws trail \<noteq> []"
  shows "space (hd (runes (layout ws trail)))"
proof (cases ws)
  case Nil
  then show ?thesis using assms by (cases "runes trail") (auto simp: blank_def)
next
  case (Cons p ws')
  obtain sep w where p: "p = (sep, w)" by (cases p)
  have sw: "blank sep" "sep \<noteq> []" "spaced ws'" "starts_rune w" "w \<noteq> []"
    using assms Cons p by (auto simp: solid_def)
  then have "starts_rune (w @ layout ws' trail)" by (auto simp: starts_rune_def)
  then have "runes (layout ws trail) = runes sep @ runes (w @ layout ws' trail)"
    using Cons p runes_append by simp
  then show ?thesis using sw by (cases "runes sep") (auto simp: blank_def)
qed

lemma words_layout: "spaced ws \<Longrightarrow> blank trail \<Longrightarrow> words (layout ws trail) = map snd ws"
proof (induction ws trail rule: layout.induct)
  case (1 trail)
  then show ?case using words_blank_append [of trail "[]"]
    by (simp add: words_def starts_rune_def)
next
  case (2 sep w ws trail)
  let ?t = "layout ws trail"
  have "starts_rune ?t" using 2 layout_starts_rune by simp
  moreover have "?t = [] \<or> space (hd (runes ?t))" using 2 layout_hd_space [of ws trail] by auto
  ultimately have "words (w @ ?t) = w # words ?t" using 2 by (intro words_solid_append) auto
  moreover have "starts_rune (w @ ?t)" using 2 by (auto simp: starts_rune_def solid_def)
  ultimately show ?case using 2 words_blank_append [of sep "w @ ?t"] by simp
qed

subsection \<open>The exact checker\<close>

lemma trimTrailingNewline_split:
  "\<exists>tail. s = trimTrailingNewline s @ tail \<and> list_all is_newline tail"
proof (induction s rule: trimTrailingNewline.induct)
  case (1 b)
  show ?case
  proof (cases "b \<noteq> [] \<and> is_newline (last b)")
    case True
    then obtain tail where "butlast b = trimTrailingNewline b @ tail" "list_all is_newline tail"
      using 1 trimTrailingNewline.simps [of b] by auto
    then have "b = trimTrailingNewline b @ (tail @ [last b])"
      using True by (metis append.assoc append_butlast_last_id)
    then show ?thesis using \<open>list_all is_newline tail\<close> True
      by (intro exI [of _ "tail @ [last b]"]) simp
  next
    case False
    then show ?thesis using trimTrailingNewline.simps [of b] by auto
  qed
qed

lemma trimTrailingNewline_last:
  "trimTrailingNewline s \<noteq> [] \<Longrightarrow> \<not> is_newline (last (trimTrailingNewline s))"
proof (induction s rule: trimTrailingNewline.induct)
  case (1 b)
  then show ?case using trimTrailingNewline.simps [of b] by (cases "b \<noteq> [] \<and> is_newline (last b)") auto
qed

lemma trimTrailingNewline_append:
  "list_all is_newline tail \<Longrightarrow> trimTrailingNewline (s @ tail) = trimTrailingNewline s"
proof (induction tail rule: rev_induct)
  case (snoc c tail)
  then show ?case using trimTrailingNewline.simps [of "s @ tail @ [c]"] by (simp add: butlast_append)
qed simp

lemma first_difference_eq:
  "length xs = length ys \<Longrightarrow> fst (first_difference i xs ys) \<longleftrightarrow> xs = ys"
  by (induction i xs ys rule: first_difference.induct) auto

lemma Exact_Check_trim:
  "\<exists>msg. Exact_Check (Some e) (Some a) cfg =
     Inr (trimTrailingNewline e = trimTrailingNewline a, msg)"
  using first_difference_eq [of "trimTrailingNewline e" "trimTrailingNewline a" 0]
  by (auto simp: Exact_Check_def Let_def prod_eq_iff)

subsection \<open>Properties\<close>

definition token_cfg :: CheckerConfig where
  "token_cfg = \<lparr>chk_Type = ''token'', chk_Epsilon = Fin 0\<rparr>"

text \<open>
  C15: the token checker, which streams both files through a bounded buffer, accepts exactly
  when the two files have the same words, and on rejection its diagnostic names the first
  field where they part (for files whose words fit into the scanner's 16 MiB buffer).
\<close>

theorem Token_Check_spec:
  assumes "fits e" and "fits a"
  shows "\<exists>msg. Token_Check (Some e) (Some a) cfg = Inr (words e = words a, msg) \<and>
               diagnosis (words e) (words a) msg"
  using compare_spec [of "words e" "words a"]
  by (intro exI [of _ "snd (compare 0 (words e) (words a))"])
    (simp add: Token_Check_words [OF assms] prod_eq_iff)

theorem Token_Check_spec_witness:
  "\<exists>msg. Token_Check (Some ''1 2'') (Some ''1'') token_cfg = Inr (False, msg) \<and>
         diagnosis [''1'', ''2''] [''1''] msg"
proof -
  have f: "words ''1 2'' = [''1'', ''2'']" "words ''1'' = [''1'']"
    by (simp_all add: words_def runes.simps DecodeRune_def isSpace_def)
  show ?thesis using Token_Check_spec [of "''1 2''" "''1''" token_cfg]
    by (simp add: fits_def f maxTokenSize_def)
qed



text \<open>
  The exact checker accepts exactly when the files are equal up to a run of trailing
  carriage returns and newlines on either side, however long, not only up to one newline as its comment has it.
\<close>

theorem Exact_Check_spec:
  "(\<exists>msg. Exact_Check (Some e) (Some a) cfg = Inr (True, msg)) \<longleftrightarrow>
   (\<exists>body x y. e = body @ x \<and> a = body @ y \<and> list_all is_newline x \<and> list_all is_newline y)"
proof
  assume "\<exists>msg. Exact_Check (Some e) (Some a) cfg = Inr (True, msg)"
  then have "trimTrailingNewline e = trimTrailingNewline a"
    using Exact_Check_trim [of e a cfg] by auto
  then show "\<exists>body x y. e = body @ x \<and> a = body @ y \<and> list_all is_newline x \<and> list_all is_newline y"
    using trimTrailingNewline_split [of e] trimTrailingNewline_split [of a] by metis
next
  assume "\<exists>body x y. e = body @ x \<and> a = body @ y \<and> list_all is_newline x \<and> list_all is_newline y"
  then have "trimTrailingNewline e = trimTrailingNewline a"
    by (auto simp: trimTrailingNewline_append)
  then show "\<exists>msg. Exact_Check (Some e) (Some a) cfg = Inr (True, msg)"
    using Exact_Check_trim [of e a cfg] by auto
qed

end
