(* ===== verification/ParseFloat.thy ===== *)
theory ParseFloat
  imports Float64 GoText
begin

section \<open>\<open>strconv.ParseFloat\<close>\<close>

text \<open>
  The reading of a token as a binary64 number: an optional sign, a decimal or hexadecimal
  mantissa with at most one point, an optional (for hexadecimal numbers mandatory) exponent
  whose value saturates after five digits, underscores between digits, and the spellings of
  infinity and NaN. The number read is the exact rational, rounded once. \<open>None\<close> stands for
  \<open>ErrSyntax\<close> and for \<open>ErrRange\<close>, which the callers do not distinguish.
\<close>

definition lower :: "char \<Rightarrow> char" where
  "lower c = (if 65 \<le> (of_char c :: nat) \<and> of_char c \<le> (90 :: nat)
              then char_of (of_char c + 32 :: nat) else c)"

definition hex_letter :: "char \<Rightarrow> bool" where
  "hex_letter c \<longleftrightarrow> (let b = of_char (lower c) :: nat in 97 \<le> b \<and> b \<le> 102)"

definition digit_value :: "bool \<Rightarrow> char \<Rightarrow> nat option" where
  "digit_value hex c =
     (if dec_digit c then Some (of_char c - 48)
      else if hex \<and> hex_letter c then Some (of_char (lower c) - 87)
      else None)"

record mantissa =
  sawdot :: bool
  sawdigits :: bool
  underscores :: bool
  mant_value :: nat
  mant_frac :: nat

definition mantissa0 :: mantissa where
  "mantissa0 = \<lparr>sawdot = False, sawdigits = False, underscores = False, mant_value = 0, mant_frac = 0\<rparr>"

fun read_mantissa :: "bool \<Rightarrow> string \<Rightarrow> mantissa \<Rightarrow> mantissa \<times> string" where
  "read_mantissa hex [] m = (m, [])"
| "read_mantissa hex (c # cs) m =
     (if c = CHR ''_'' then read_mantissa hex cs (m\<lparr>underscores := True\<rparr>)
      else if c = CHR ''.''
      then (if sawdot m then (m, c # cs) else read_mantissa hex cs (m\<lparr>sawdot := True\<rparr>))
      else case digit_value hex c of
             None \<Rightarrow> (m, c # cs)
           | Some d \<Rightarrow> read_mantissa hex cs
               (m\<lparr>sawdigits := True,
                  mant_value := mant_value m * (if hex then 16 else 10) + d,
                  mant_frac := mant_frac m + (if sawdot m then 1 else 0)\<rparr>))"

fun read_exp_digits :: "string \<Rightarrow> bool \<Rightarrow> nat \<Rightarrow> (bool \<times> nat) \<times> string" where
  "read_exp_digits [] us e = ((us, e), [])"
| "read_exp_digits (c # cs) us e =
     (if c = CHR ''_'' then read_exp_digits cs True e
      else if dec_digit c
      then read_exp_digits cs us (if e < 10000 then e * 10 + (of_char c - 48) else e)
      else ((us, e), c # cs))"

text \<open>The exponent after its letter: its sign, then at least one digit.\<close>

definition read_exponent :: "string \<Rightarrow> ((bool \<times> int) \<times> string) option" where
  "read_exponent s =
     (let (neg, s) = (case s of c # cs \<Rightarrow> if c = CHR ''+'' then (False, cs)
                                          else if c = CHR ''-'' then (True, cs) else (False, s)
                      | [] \<Rightarrow> (False, s))
      in case s of
           c # _ \<Rightarrow> if dec_digit c
                    then (case read_exp_digits s False 0 of
                            ((u, e), rest) \<Rightarrow> Some ((u, if neg then - int e else int e), rest))
                    else None
         | [] \<Rightarrow> None)"

fun underscore_scan :: "bool \<Rightarrow> char \<Rightarrow> string \<Rightarrow> bool" where
  "underscore_scan hex i [] \<longleftrightarrow> i \<noteq> CHR ''_''"
| "underscore_scan hex i (c # cs) \<longleftrightarrow>
     (if dec_digit c \<or> hex \<and> hex_letter c then underscore_scan hex (CHR ''0'') cs
      else if c = CHR ''_'' then i = CHR ''0'' \<and> underscore_scan hex (CHR ''_'') cs
      else i \<noteq> CHR ''_'' \<and> underscore_scan hex (CHR ''!'') cs)"

definition strip_sign :: "string \<Rightarrow> bool \<times> string" where
  "strip_sign s = (case s of c # cs \<Rightarrow> if c = CHR ''+'' then (False, cs)
                                       else if c = CHR ''-'' then (True, cs) else (False, s)
                   | [] \<Rightarrow> (False, s))"

definition underscoreOK :: "string \<Rightarrow> bool" where
  "underscoreOK s0 =
     (let s = snd (strip_sign s0)
      in case s of
           c # d # cs \<Rightarrow>
             if c = CHR ''0'' \<and> lower d \<in> {CHR ''b'', CHR ''o'', CHR ''x''}
             then underscore_scan (lower d = CHR ''x'') (CHR ''0'') cs
             else underscore_scan False (CHR ''^'') s
         | _ \<Rightarrow> underscore_scan False (CHR ''^'') s)"

definition scale10 :: "rat \<Rightarrow> rat \<Rightarrow> int \<Rightarrow> rat" where
  "scale10 b x e = (if 0 \<le> e then x * b ^ nat e else x / b ^ nat (- e))"

text \<open>The unsigned number, exact, if the whole string is one.\<close>

definition read_number :: "string \<Rightarrow> (bool \<times> rat) option" where
  "read_number s =
     (let hex = (case s of c # d # _ # _ \<Rightarrow> c = CHR ''0'' \<and> lower d = CHR ''x'' | _ \<Rightarrow> False);
          (m, rest) = read_mantissa hex (if hex then drop 2 s else s) mantissa0;
          base = (if hex then 2 else 10);
          x = of_nat (mant_value m) / (if hex then 16 else 10) ^ mant_frac m
      in if \<not> sawdigits m then None
         else case rest of
           c # cs \<Rightarrow>
             if lower c = (if hex then CHR ''p'' else CHR ''e'')
             then (case read_exponent cs of
                     Some ((u, e), []) \<Rightarrow> Some (underscores m \<or> u, scale10 base x e)
                   | _ \<Rightarrow> None)
             else None
         | [] \<Rightarrow> if hex then None else Some (underscores m, x))"

definition ParseFloat :: "string \<Rightarrow> f64 option" where
  "ParseFloat s =
     (let l = map lower s
      in if l \<in> {''inf'', ''+inf'', ''infinity'', ''+infinity''} then Some PInf
         else if l \<in> {''-inf'', ''-infinity''} then Some NInf
         else if l = ''nan'' then Some NaN
         else case strip_sign s of
           (neg, t) \<Rightarrow> (case read_number t of
              None \<Rightarrow> None
            | Some (us, x) \<Rightarrow>
                if us \<and> \<not> underscoreOK s then None
                else case f64_round (if neg then - x else x) of
                       Fin y \<Rightarrow> Some (Fin y)
                     | _ \<Rightarrow> None))"

lemma f64_round_numeral:
  "(numeral n :: int) < 2 ^ 53 \<Longrightarrow> f64_round (numeral n) = Fin (numeral n)"
  "(numeral n :: int) < 2 ^ 53 \<Longrightarrow> f64_round (- numeral n) = Fin (- numeral n)"
  using f64_round_int [of "numeral n"] f64_round_int [of "- numeral n"] by simp_all

lemmas ParseFloat_eval =
  ParseFloat_def read_number_def read_exponent_def underscoreOK_def strip_sign_def mantissa0_def
  digit_value_def dec_digit_def hex_letter_def lower_def scale10_def

text \<open>Spellings the parser accepts and refuses.\<close>

lemma ParseFloat_samples:
  "ParseFloat ''12'' = Some (Fin 12)"
  "ParseFloat ''-2.5e1'' = Some (Fin (- 25))"
  "ParseFloat ''0x1p+2'' = Some (Fin 4)"
  "ParseFloat ''1_0'' = Some (Fin 10)"
  "ParseFloat ''1__0'' = None"
  "ParseFloat ''YES'' = None"
  "ParseFloat ''NaN'' = Some NaN"
  by (simp_all add: ParseFloat_eval f64_round_numeral char_of_def bit_numeral_rec bit_0)

end
