(* ===== verification/FloatChecker.thy ===== *)
theory FloatChecker
  imports Checker ParseFloat
begin

section \<open>The floating-point checker (\<^verbatim>\<open>internal/checker/float.go\<close>)\<close>

text \<open>
  Token by token, numbers are compared with an absolute or relative tolerance and everything
  else as text. \<open>float_token\<close> is the body of the loop after both tokens are read. The lemmas
  relate the rounded computation to exact arithmetic: the checker accepts every answer within
  the absolute tolerance, and refuses every answer beyond both tolerances by more than the
  rounding of the comparison itself.
\<close>

definition default_eps :: f64 where "default_eps = f64_round (1 / 1000000)"

definition effective_eps :: "CheckerConfig \<Rightarrow> f64" where
  "effective_eps cfg = (if f64_le (chk_Epsilon cfg) (Fin 0) then default_eps else chk_Epsilon cfg)"

definition absErr :: "f64 \<Rightarrow> f64 \<Rightarrow> f64" where
  "absErr ev av = f64_abs (f64_sub ev av)"

definition relErr :: "f64 \<Rightarrow> f64 \<Rightarrow> f64" where
  "relErr ev av = f64_div (absErr ev av) (f64_max (f64_round (1 / 10 ^ 18)) (f64_abs ev))"

definition float_token :: "f64 \<Rightarrow> nat \<Rightarrow> string \<Rightarrow> string \<Rightarrow> checker_msg" where
  "float_token eps n e a =
     (case (ParseFloat e, ParseFloat a) of
        (Some ev, Some av) \<Rightarrow>
          if av = NaN \<or> av = PInf \<or> av = NInf then GotNonFinite n av
          else if f64_lt eps (absErr ev av) \<and> f64_lt eps (relErr ev av)
          then OutsideTolerance n ev av (absErr ev av) eps
          else NoMsg
      | _ \<Rightarrow> if e \<noteq> a then TokenDiffers n (trunc e) (trunc a) else NoMsg)"

function float_loop :: "f64 \<Rightarrow> nat \<Rightarrow> string \<Rightarrow> string \<Rightarrow> bool \<times> checker_msg" where
  "float_loop eps n es as =
     (case (scan_next es, scan_next as) of
        (None, None) \<Rightarrow> (True, NoMsg)
      | (Some (e, es'), Some (a, as')) \<Rightarrow>
          (case float_token eps (n + 1) e a of
             NoMsg \<Rightarrow> float_loop eps (n + 1) es' as'
           | msg \<Rightarrow> (False, msg))
      | _ \<Rightarrow> (False, CountMismatch (n + 1)))"
  by pat_completeness auto
termination
  by (relation "measure (\<lambda>(_, _, es, _). length es)") (auto dest: scan_next_shorter [OF sym])

declare float_loop.simps [simp del]

definition Float_Check :: Checker where
  "Float_Check expected actual cfg =
     (let eps = effective_eps cfg
      in case expected of None \<Rightarrow> Inl OpenExpected
         | Some e \<Rightarrow> (case actual of None \<Rightarrow> Inr (False, NoOutput)
            | Some a \<Rightarrow> Inr (float_loop eps 0 e a)))"

text \<open>The registry after the package's \<open>init\<close> functions.\<close>

definition checkers :: registry where
  "checkers = Register ''exact'' Exact_Check (Register ''token'' Token_Check
                (Register ''float'' Float_Check Map.empty))"

lemma float_loop_msg: "\<exists>msg. float_loop eps n es as = (msg = NoMsg, msg)"
proof (induction eps n es as rule: float_loop.induct)
  case (1 eps n es as)
  then show ?case
    by (simp add: float_loop.simps [of eps n es as]
        split: option.split prod.split checker_msg.split)
qed

interpretation float: checker_contract Float_Check
  by unfold_locales (simp_all add: Float_Check_def float_loop_msg)

lemma checkers_contract: "checkers name = Some c \<Longrightarrow> checker_contract c"
  using token.checker_contract_axioms exact.checker_contract_axioms float.checker_contract_axioms
  by (auto simp: checkers_def Register_def split: if_splits)

definition float_match :: "f64 \<Rightarrow> string \<Rightarrow> string \<Rightarrow> bool" where
  "float_match eps e a \<longleftrightarrow> float_token eps 1 e a = NoMsg"

lemma float_token_match: "float_token eps n e a = NoMsg \<longleftrightarrow> float_match eps e a"
  by (auto simp: float_match_def float_token_def split: option.splits)

lemma float_loop_tokens:
  "fst (float_loop eps n es as) \<longleftrightarrow> list_all2 (float_match eps) (tokens es) (tokens as)"
proof (induction eps n es as rule: float_loop.induct)
  case (1 eps n es as)
  show ?case
  proof (cases "scan_next es"; cases "scan_next as")
    fix p q assume p: "scan_next es = Some p" and q: "scan_next as = Some q"
    obtain e es' a as' where pq: "p = (e, es')" "q = (a, as')" by (cases p; cases q)
    have t: "tokens es = e # tokens es'" "tokens as = a # tokens as'"
      using p q pq by (simp_all add: tokens.simps [of es] tokens.simps [of as])
    show ?thesis
    proof (cases "float_match eps e a")
      case True
      then have "float_token eps (n + 1) e a = NoMsg" by (simp add: float_token_match)
      then show ?thesis using 1 True p q pq t by (simp add: float_loop.simps [of eps n es as])
    next
      case False
      then have "float_token eps (n + 1) e a \<noteq> NoMsg" by (simp add: float_token_match)
      then show ?thesis using False p q pq t
        by (simp add: float_loop.simps [of eps n es as] split: checker_msg.split)
    qed
  qed (auto simp: float_loop.simps [of eps n es as] tokens.simps [of es] tokens.simps [of as])
qed

subsection \<open>The tolerance in exact arithmetic\<close>

lemma f64_round_cases:
  "f64_round x = Fin (round_rat x) \<or> (f64_round x = PInf \<and> 2 ^ 1024 \<le> round_rat x) \<or>
   (f64_round x = NInf \<and> round_rat x \<le> - (2 ^ 1024))"
  by (auto simp: f64_round_def Let_def abs_if split: if_splits)

lemma round_rat_abs: "\<bar>round_rat x\<bar> = round_rat \<bar>x\<bar>"
proof -
  have "representable 0" using representable_int [of 0] by simp
  then have "0 \<le> round_rat \<bar>x\<bar>" by (rule round_rat_ge) simp
  then show ?thesis by (cases "0 \<le> x") (auto simp: abs_if round_rat_neg)
qed

lemma absErr_Fin:
  "absErr (Fin x) (Fin y) = Fin (round_rat \<bar>x - y\<bar>) \<or>
   (absErr (Fin x) (Fin y) = PInf \<and> 2 ^ 1024 \<le> round_rat \<bar>x - y\<bar>)"
proof -
  have "absErr (Fin x) (Fin y) = Fin \<bar>round_rat (x - y)\<bar> \<or>
    (absErr (Fin x) (Fin y) = PInf \<and> 2 ^ 1024 \<le> \<bar>round_rat (x - y)\<bar>)"
    using f64_round_cases [of "x - y"] by (auto simp: absErr_def f64_sub_def)
  then show ?thesis by (simp only: round_rat_abs)
qed

definition f64_value :: "f64 \<Rightarrow> rat \<Rightarrow> bool" where
  "f64_value a x \<longleftrightarrow> a = Fin x \<and> representable x \<and> \<bar>x\<bar> < 2 ^ 1024"

lemma within_tolerance:
  assumes "f64_value eps d" and "\<bar>x - y\<bar> \<le> d"
  shows "\<not> f64_lt eps (absErr (Fin x) (Fin y))"
proof -
  have "round_rat \<bar>x - y\<bar> \<le> d" using assms by (intro round_rat_le) (auto simp: f64_value_def)
  then show ?thesis using absErr_Fin [of x y] assms(1) by (auto simp: f64_value_def)
qed

lemma denominator_bounds:
  obtains m where "f64_max (f64_round (1 / 10 ^ 18)) (f64_abs (Fin x)) = Fin m" "0 < m" "m \<le> max 1 \<bar>x\<bar>"
proof -
  let ?c = "round_rat (1 / 10 ^ 18)"
  have c: "f64_round (1 / 10 ^ 18) = Fin ?c" by (rule f64_round_Fin) simp
  have "(2 :: rat) powi (- 60) \<le> 1 / 10 ^ 18" by (simp add: power_int_minus)
  then have "2 powi (- 60) \<le> ?c" by (intro round_rat_ge representable_powi2) simp_all
  then have pos: "0 < ?c" using powi2_pos [of "- 60"] by linarith
  have "?c \<le> of_int 1" by (rule round_rat_le_int) simp_all
  then have "max ?c \<bar>x\<bar> \<le> max 1 \<bar>x\<bar>" by (auto simp: max_def)
  moreover have "f64_max (f64_round (1 / 10 ^ 18)) (f64_abs (Fin x)) = Fin (max ?c \<bar>x\<bar>)"
    unfolding c by (simp add: f64_max_def max_def)
  ultimately show thesis using that [of "max ?c \<bar>x\<bar>"] pos by (simp add: less_max_iff_disj)
qed

lemma round_rat_grow:
  assumes "2 powi (- 1000) \<le> d" and "d * s < x" and "1 \<le> s"
  shows "d * (s * (1 - 1 / 2 ^ 53)) < round_rat x"
proof -
  have d: "0 < d" using assms(1) powi2_pos [of "- 1000"] by linarith
  have "d \<le> d * s" using d assms(3) by simp
  moreover have "(2 :: rat) powi (- 1022) \<le> 2 powi (- 1000)" by (rule powi2_mono) simp
  ultimately have "2 powi (- 1022) \<le> x" using assms by linarith
  then have "x * (1 - 1 / 2 ^ 53) \<le> round_rat x" by (rule round_rat_lower)
  moreover have "d * s * (1 - 1 / 2 ^ 53) < x * (1 - 1 / 2 ^ 53)"
    using assms(2) by (intro mult_strict_right_mono) simp_all
  ultimately show ?thesis by (simp only: mult.assoc)
qed

lemma beyond_tolerance:
  assumes d: "f64_value eps d" and lb: "2 powi (- 1000) \<le> d"
    and far: "d * (1 + 1 / 2 ^ 50) * max 1 \<bar>x\<bar> < \<bar>x - y\<bar>"
  shows "f64_lt eps (absErr (Fin x) (Fin y))" and "f64_lt eps (relErr (Fin x) (Fin y))"
proof -
  let ?s = "(1 + 1 / 2 ^ 50) :: rat" and ?t = "(1 - 1 / 2 ^ 53) :: rat"
  let ?M = "max 1 \<bar>x\<bar>" and ?A = "round_rat \<bar>x - y\<bar>"
  have pos: "0 < d" using lb powi2_pos [of "- 1000"] by linarith
  have eps: "eps = Fin d" using d by (simp add: f64_value_def)
  have "d * (?s * ?M) < \<bar>x - y\<bar>" using far by (simp add: mult.assoc)
  then have A: "d * (?s * ?M * ?t) < ?A" by (intro round_rat_grow lb) (auto simp: max_def)
  have "1 * 1 \<le> (?s * ?t) * ?M" by (intro mult_mono) (auto simp: max_def)
  then have "1 \<le> ?s * ?M * ?t" by (simp add: mult_ac)
  then have "d * 1 \<le> d * (?s * ?M * ?t)" using pos by (intro mult_left_mono) auto
  then have dA: "d < ?A" using A by linarith
  then show "f64_lt eps (absErr (Fin x) (Fin y))" using absErr_Fin [of x y] eps by auto
  obtain m where m: "f64_max (f64_round (1 / 10 ^ 18)) (f64_abs (Fin x)) = Fin m" "0 < m" "m \<le> ?M"
    by (rule denominator_bounds)
  have "d * (?s * ?t) < ?A / m"
  proof -
    have "d * (?s * ?t) * m \<le> d * (?s * ?t) * ?M"
      using m(3) pos by (intro mult_left_mono) auto
    also have "\<dots> = d * (?s * ?M * ?t)" by (simp add: mult_ac)
    also have "\<dots> < ?A" by (rule A)
    finally show ?thesis using m(2) by (simp add: less_divide_eq)
  qed
  then have "d * (?s * ?t * ?t) < round_rat (?A / m)" by (intro round_rat_grow lb) simp_all
  moreover have "d * 1 \<le> d * (?s * ?t * ?t)" using pos by (intro mult_left_mono) simp_all
  ultimately have q: "d < round_rat (?A / m)" by linarith
  have "0 < round_rat (?A / m)" using q pos by linarith
  then have "f64_lt (Fin d) (f64_round (?A / m))"
    using f64_round_cases [of "?A / m"] q by auto
  then show "f64_lt eps (relErr (Fin x) (Fin y))"
    using absErr_Fin [of x y] m(1,2) eps by (auto simp: relErr_def f64_inf_def)
qed

subsection \<open>Properties\<close>



end
