(* ===== verification/Langs.thy ===== *)
theory Langs
  imports CoreLimits "HOL-Library.Multiset" "HOL-Library.List_Lexorder" "HOL-Library.Char_ord"
begin

section \<open>Language manifests (\<^verbatim>\<open>internal/langs\<close>)\<close>

text \<open>
  A \<open>Manifest\<close> is a language; the registry loads every YAML file of a directory. The YAML
  decoder is third-party code: it is the argument \<open>unmarshal\<close>, which is given the bytes of a
  file and the manifest to fill in. A directory is the list of its entries in the order
  \<open>fs.ReadDir\<close> returns them, a file that cannot be read being \<open>None\<close>. The registry's map
  is an association list in insertion order.
\<close>

record Manifest =
  m_ID :: string
  m_Display :: string
  m_Image :: string
  m_SourceFile :: string
  m_Compile :: "string list"
  m_Run :: "string list"
  m_TimeMultiplier :: f64
  m_MemoryOverheadMB :: int
  m_CompileLimits :: "Limits option"
  m_Env :: "string list"
  m_Enabled :: bool

datatype manifest_error =
    IdRequired
  | ImageRequired string
  | SourceFileRequired string
  | RunRequired string

definition Validate :: "Manifest \<Rightarrow> (manifest_error, Manifest) result" where
  "Validate m =
     (if m_ID m = [] then Inl IdRequired
      else if m_Image m = [] then Inl (ImageRequired (m_ID m))
      else if m_SourceFile m = [] then Inl (SourceFileRequired (m_ID m))
      else if m_Run m = [] then Inl (RunRequired (m_ID m))
      else Inr (if f64_le (m_TimeMultiplier m) (Fin 0) then m\<lparr>m_TimeMultiplier := Fin 1\<rparr> else m))"

definition NeedsCompile :: "Manifest \<Rightarrow> bool" where
  "NeedsCompile m \<longleftrightarrow> m_Compile m \<noteq> []"

definition EffectiveCompileLimits :: "Manifest \<Rightarrow> Limits" where
  "EffectiveCompileLimits m =
     (case m_CompileLimits m of Some l \<Rightarrow> Normalize l | None \<Rightarrow> DefaultCompileLimits)"

definition ScaleRunLimits :: "Manifest \<Rightarrow> Limits \<Rightarrow> Limits" where
  "ScaleRunLimits m problem = Scale (Normalize problem) (m_TimeMultiplier m) (m_MemoryOverheadMB m)"

subsection \<open>The registry\<close>

type_synonym Registry = "(string \<times> Manifest) list"

definition NewRegistry :: Registry where "NewRegistry = []"

record dir_entry =
  e_Name :: string
  e_IsDir :: bool
  e_Data :: "string option"

datatype langs_error =
    ReadDirFailed
  | ReadFailed string
  | ParseFailed string
  | InvalidManifest string manifest_error
  | DuplicateID string string
  | NoManifests

text \<open>\<open>path.Ext\<close>: the suffix from the last dot of the final path element, if any.\<close>

definition Ext :: "string \<Rightarrow> string" where
  "Ext name =
     (let tail = takeWhile (\<lambda>c. c \<noteq> CHR ''.'' \<and> c \<noteq> CHR ''/'') (rev name);
          rest = drop (length tail) (rev name)
      in if rest \<noteq> [] \<and> hd rest = CHR ''.'' then CHR ''.'' # rev tail else [])"

definition is_manifest :: "dir_entry \<Rightarrow> bool" where
  "is_manifest e \<longleftrightarrow> \<not> e_IsDir e \<and> (Ext (e_Name e) = ''.yaml'' \<or> Ext (e_Name e) = ''.yml'')"

definition fresh_manifest :: Manifest where
  "fresh_manifest = \<lparr>m_ID = [], m_Display = [], m_Image = [], m_SourceFile = [], m_Compile = [],
     m_Run = [], m_TimeMultiplier = Fin 0, m_MemoryOverheadMB = 0, m_CompileLimits = None,
     m_Env = [], m_Enabled = True\<rparr>"

type_synonym yaml = "string \<Rightarrow> Manifest \<Rightarrow> Manifest option"

text \<open>One entry of the directory: the body of the loop.\<close>

definition load_entry :: "yaml \<Rightarrow> dir_entry \<Rightarrow> Registry \<Rightarrow> (langs_error, Registry) result" where
  "load_entry unmarshal e r =
     (if \<not> is_manifest e then Inr r
      else case e_Data e of
        None \<Rightarrow> Inl (ReadFailed (e_Name e))
      | Some b \<Rightarrow> (case unmarshal b fresh_manifest of
          None \<Rightarrow> Inl (ParseFailed (e_Name e))
        | Some m \<Rightarrow> (case Validate m of
            Inl err \<Rightarrow> Inl (InvalidManifest (e_Name e) err)
          | Inr m \<Rightarrow>
              if \<not> m_Enabled m then Inr r
              else if map_of r (m_ID m) \<noteq> None then Inl (DuplicateID (m_ID m) (e_Name e))
              else Inr (r @ [(m_ID m, m)]))))"

fun load_entries :: "yaml \<Rightarrow> dir_entry list \<Rightarrow> Registry \<Rightarrow> (langs_error, Registry) result" where
  "load_entries unmarshal [] r = Inr r"
| "load_entries unmarshal (e # es) r = rbind (load_entry unmarshal e r) (load_entries unmarshal es)"

definition LoadFS :: "yaml \<Rightarrow> dir_entry list option \<Rightarrow> Registry \<Rightarrow> (langs_error, Registry) result" where
  "LoadFS unmarshal dir r =
     (case dir of None \<Rightarrow> Inl ReadDirFailed
      | Some entries \<Rightarrow>
          rbind (load_entries unmarshal entries r)
                (\<lambda>r. if r = [] then Inl NoManifests else Inr r))"

definition LoadBuiltin :: "yaml \<Rightarrow> dir_entry list option \<Rightarrow> (langs_error, Registry) result" where
  "LoadBuiltin unmarshal builtinFS = LoadFS unmarshal builtinFS NewRegistry"

definition Get :: "Registry \<Rightarrow> string \<Rightarrow> Manifest option" where
  "Get r i = map_of r i"

definition List :: "Registry \<Rightarrow> Manifest list" where
  "List r = sort_key m_ID (map snd r)"

definition IDs :: "Registry \<Rightarrow> string list" where
  "IDs r = map m_ID (List r)"

subsection \<open>The invariant of a loaded registry\<close>

definition runnable :: "Manifest \<Rightarrow> bool" where
  "runnable m \<longleftrightarrow> m_ID m \<noteq> [] \<and> m_Image m \<noteq> [] \<and> m_SourceFile m \<noteq> [] \<and> m_Run m \<noteq> [] \<and>
     \<not> f64_le (m_TimeMultiplier m) (Fin 0) \<and> m_Enabled m"

definition registry_ok :: "Registry \<Rightarrow> bool" where
  "registry_ok r \<longleftrightarrow> distinct (map fst r) \<and> (\<forall>(i, m) \<in> set r. i = m_ID m \<and> runnable m)"

lemma Validate_runnable: "Validate m = Inr m' \<Longrightarrow> m_Enabled m' \<Longrightarrow> runnable m'"
  by (auto simp: Validate_def runnable_def f64_le_def f64_eq_def split: if_splits)

lemma load_entry_ok:
  assumes "load_entry unmarshal e r = Inr r'" and "registry_ok r"
  shows "registry_ok r'"
proof -
  have "r' = r \<or> (\<exists>m. runnable m \<and> map_of r (m_ID m) = None \<and> r' = r @ [(m_ID m, m)])"
    using assms(1)
    by (auto simp: load_entry_def split: if_splits option.splits sum.splits dest: Validate_runnable)
  then show ?thesis using assms(2) by (auto simp: registry_ok_def map_of_eq_None_iff)
qed

lemma load_entries_ok:
  "load_entries unmarshal es r = Inr r' \<Longrightarrow> registry_ok r \<Longrightarrow> registry_ok r'"
proof (induction es arbitrary: r)
  case (Cons e es)
  then show ?case by (auto simp: rbind_Inr_iff dest: load_entry_ok)
qed simp

lemma LoadFS_ok: "LoadFS unmarshal dir r = Inr r' \<Longrightarrow> registry_ok r \<Longrightarrow> registry_ok r' \<and> r' \<noteq> []"
  by (auto simp: LoadFS_def rbind_Inr_iff split: option.splits if_splits dest: load_entries_ok)

lemma registry_ok_IDs: "registry_ok r \<Longrightarrow> map m_ID (map snd r) = map fst r"
  by (auto simp: registry_ok_def)

subsection \<open>Properties\<close>

text \<open>
  What a successful load guarantees to every caller: the registry is not empty, each
  language is enabled, complete and has a positive time factor, is found under its own
  identifier and under no other, and the listing is strictly sorted by identifier (so it does
  not depend on the map's iteration order) and shows exactly the languages \<open>Get\<close> finds.
\<close>

theorem LoadBuiltin_registry:
  assumes "LoadBuiltin unmarshal dir = Inr r"
  shows "List r \<noteq> [] \<and> sorted_wrt (<) (IDs r) \<and> (\<forall>m \<in> set (List r). runnable m) \<and>
         (\<forall>i m. Get r i = Some m \<longleftrightarrow> m \<in> set (List r) \<and> m_ID m = i)"
proof -
  have ok: "registry_ok r" and ne: "r \<noteq> []"
    using assms LoadFS_ok [of unmarshal dir NewRegistry r]
    by (auto simp: LoadBuiltin_def NewRegistry_def registry_ok_def)
  have d: "distinct (map fst r)" using ok by (simp add: registry_ok_def)
  have "distinct (IDs r)"
  proof -
    have "mset (IDs r) = mset (map fst r)"
      unfolding registry_ok_IDs [OF ok, symmetric] by (simp add: IDs_def List_def multiset.map_comp)
    then show ?thesis using d by (metis mset_eq_imp_distinct_iff)
  qed
  moreover have "sorted (IDs r)" by (simp add: IDs_def List_def)
  ultimately have "sorted_wrt (<) (IDs r)" by (simp add: strict_sorted_iff)
  moreover have "List r \<noteq> []"
  proof -
    have "set (List r) \<noteq> {}" using ne by (simp add: List_def)
    then show ?thesis by auto
  qed
  moreover have "\<forall>m \<in> set (List r). runnable m" using ok by (auto simp: List_def registry_ok_def)
  moreover have "Get r i = Some m \<longleftrightarrow> m \<in> set (List r) \<and> m_ID m = i" for i m
  proof -
    have "Get r i = Some m \<longleftrightarrow> (i, m) \<in> set r" using d by (simp add: Get_def map_of_eq_Some_iff)
    also have "\<dots> \<longleftrightarrow> m \<in> set (List r) \<and> m_ID m = i"
      using ok by (force simp: List_def registry_ok_def)
    finally show ?thesis .
  qed
  ultimately show ?thesis by blast
qed

text \<open>A decoder that reads the file as the identifier of a language.\<close>

definition sample_yaml :: yaml where
  "sample_yaml b m = Some (m\<lparr>m_ID := b, m_Image := ''img'', m_SourceFile := ''main'', m_Run := [''/box/prog'']\<rparr>)"

theorem LoadBuiltin_registry_witness:
  "\<exists>r. LoadBuiltin sample_yaml (Some [\<lparr>e_Name = ''b.yaml'', e_IsDir = False, e_Data = Some ''b''\<rparr>,
     \<lparr>e_Name = ''a.yml'', e_IsDir = False, e_Data = Some ''a''\<rparr>]) = Inr r \<and>
     sorted_wrt (<) (IDs r) \<and> (\<exists>m. Get r ''a'' = Some m \<and> runnable m)"
proof -
  let ?dir = "Some [\<lparr>e_Name = ''b.yaml'', e_IsDir = False, e_Data = Some ''b''\<rparr>,
     \<lparr>e_Name = ''a.yml'', e_IsDir = False, e_Data = Some ''a''\<rparr>]"
  obtain r m where r: "LoadBuiltin sample_yaml ?dir = Inr r" "Get r ''a'' = Some m"
    by (simp add: LoadBuiltin_def LoadFS_def NewRegistry_def load_entry_def is_manifest_def Ext_def
        sample_yaml_def Validate_def fresh_manifest_def f64_le_def f64_eq_def Get_def)
  then show ?thesis using LoadBuiltin_registry [OF r(1)] by blast
qed

end
