(* ===== verification/FileSys.thy ===== *)
theory FileSys
  imports Prelude "HOL-Library.AList" "HOL-Library.Sublist" "HOL-Library.List_Lexorder" "HOL-Library.Char_ord"
begin

section \<open>The local file system, as package \<^verbatim>\<open>os\<close> sees it\<close>

text \<open>
  The judge and the blob store work on one node's file system. A path is the list of its
  components; a directory entry is a directory with its mode or a file, which is the number
  of an inode, so that hard links are two entries with one number. An action takes the file
  system to a result and a new file system. Every system call first consults \<open>faults\<close>: given
  the kind of call and its position in the run, it says whether the call fails, and for
  writes after how many bytes; nothing is assumed about it. Calls fail for ordinary reasons
  too (no such entry, an entry in the way). Symbolic links are not modelled.
\<close>

unbundle bit_operations_syntax

type_synonym path = "string list"

abbreviation (input) mode_755 :: nat where "mode_755 \<equiv> 493"
abbreviation (input) mode_777 :: nat where "mode_777 \<equiv> 511"
abbreviation (input) mode_644 :: nat where "mode_644 \<equiv> 420"
abbreviation (input) mode_600 :: nat where "mode_600 \<equiv> 384"

datatype node = Dir nat | File nat

record inode =
  ino_data :: string
  ino_mode :: nat

datatype syscall = SysMkdir | SysRemove | SysRemoveAll | SysLink | SysOpen | SysCreate | SysWrite
  | SysStat | SysReadDir | SysRename | SysChmod

datatype os_error = ENOENT | EEXIST | ENOTDIR | EISDIR | ENOTEMPTY | EIO

record fs =
  tree :: "(path \<times> node) list"
  inode_table :: "(nat \<times> inode) list"
  next_ino :: nat
  umask :: nat
  clock :: nat
  faults :: "syscall \<Rightarrow> nat \<Rightarrow> nat option"

type_synonym ('e, 'a) io = "fs \<Rightarrow> ('e + 'a) \<times> fs"

definition ret :: "'a \<Rightarrow> ('e, 'a) io" where
  "ret x s = (Inr x, s)"

definition throw :: "'e \<Rightarrow> ('e, 'a) io" where
  "throw e s = (Inl e, s)"

definition bind :: "('e, 'a) io \<Rightarrow> ('a \<Rightarrow> ('e, 'b) io) \<Rightarrow> ('e, 'b) io" where
  "bind m f s = (case m s of (Inl e, s') \<Rightarrow> (Inl e, s') | (Inr x, s') \<Rightarrow> f x s')"

text \<open>The result as a value: what an \<open>if err != nil\<close> looks at.\<close>

definition attempt :: "('e, 'a) io \<Rightarrow> ('f, 'e + 'a) io" where
  "attempt m s = (case m s of (r, s') \<Rightarrow> (Inr r, s'))"

text \<open>\<open>_ = f()\<close>: the error is dropped.\<close>

definition ignore :: "('e, 'a) io \<Rightarrow> ('f, unit) io" where
  "ignore m s = (Inr (), snd (m s))"

text \<open>\<open>return fmt.Errorf("...: %w", err)\<close>.\<close>

definition wrap :: "('e \<Rightarrow> 'f) \<Rightarrow> ('e, 'a) io \<Rightarrow> ('f, 'a) io" where
  "wrap g m s = (case m s of (Inl e, s') \<Rightarrow> (Inl (g e), s') | (Inr x, s') \<Rightarrow> (Inr x, s'))"

text \<open>\<open>defer\<close>: the action runs on every way out, its own error dropped.\<close>

definition finally_do :: "('e, 'a) io \<Rightarrow> ('f, 'b) io \<Rightarrow> ('e, 'a) io" where
  "finally_do m d s = (case m s of (r, s') \<Rightarrow> (r, snd (d s')))"

fun each :: "('a \<Rightarrow> ('e, unit) io) \<Rightarrow> 'a list \<Rightarrow> ('e, unit) io" where
  "each f [] = ret ()"
| "each f (x # xs) = bind (f x) (\<lambda>_. each f xs)"

definition syscall :: "syscall \<Rightarrow> (os_error, 'a) io \<Rightarrow> (os_error, 'a) io" where
  "syscall k m s =
     (let s' = s\<lparr>clock := clock s + 1\<rparr>
      in case faults s k (clock s) of Some _ \<Rightarrow> (Inl EIO, s') | None \<Rightarrow> m s')"

subsection \<open>Inodes and entries\<close>

definition inodes :: "fs \<Rightarrow> nat \<Rightarrow> inode" where
  "inodes s i = (case map_of (inode_table s) i of
     None \<Rightarrow> \<lparr>ino_data = [], ino_mode = 0\<rparr> | Some n \<Rightarrow> n)"

definition set_inode :: "nat \<Rightarrow> inode \<Rightarrow> fs \<Rightarrow> fs" where
  "set_inode i n s = s\<lparr>inode_table := AList.update i n (inode_table s)\<rparr>"

definition entry :: "fs \<Rightarrow> path \<Rightarrow> node option" where
  "entry s p = (if p = [] then Some (Dir mode_755) else map_of (tree s) p)"

definition set_entry :: "path \<Rightarrow> node \<Rightarrow> fs \<Rightarrow> fs" where
  "set_entry p n s = s\<lparr>tree := AList.update p n (tree s)\<rparr>"

definition drop_entries :: "(path \<Rightarrow> bool) \<Rightarrow> fs \<Rightarrow> fs" where
  "drop_entries P s = s\<lparr>tree := filter (\<lambda>(p, _). \<not> P p) (tree s)\<rparr>"

definition is_dir :: "fs \<Rightarrow> path \<Rightarrow> bool" where
  "is_dir s p \<longleftrightarrow> (case entry s p of Some (Dir _) \<Rightarrow> True | _ \<Rightarrow> False)"

definition children :: "fs \<Rightarrow> path \<Rightarrow> string list" where
  "children s p =
     sort (remdups (map last (filter (\<lambda>q. q \<noteq> [] \<and> butlast q = p) (map fst (tree s)))))"

subsection \<open>System calls\<close>

definition Stat :: "path \<Rightarrow> (os_error, node) io" where
  "Stat p = syscall SysStat (\<lambda>s. case entry s p of None \<Rightarrow> (Inl ENOENT, s) | Some n \<Rightarrow> (Inr n, s))"

fun mkdir_from :: "path \<Rightarrow> path \<Rightarrow> nat \<Rightarrow> (os_error, unit) io" where
  "mkdir_from done [] mode s = (Inr (), s)"
| "mkdir_from done (c # cs) mode s =
     (let p = done @ [c]
      in case entry s p of
           Some (Dir _) \<Rightarrow> mkdir_from p cs mode s
         | Some (File _) \<Rightarrow> (Inl ENOTDIR, s)
         | None \<Rightarrow> mkdir_from p cs mode (set_entry p (Dir (mode - (mode AND umask s))) s))"

definition MkdirAll :: "path \<Rightarrow> nat \<Rightarrow> (os_error, unit) io" where
  "MkdirAll p mode = syscall SysMkdir (mkdir_from [] p mode)"

definition RemoveAll :: "path \<Rightarrow> (os_error, unit) io" where
  "RemoveAll p = syscall SysRemoveAll (\<lambda>s. (Inr (), drop_entries (prefix p) s))"

definition Remove :: "path \<Rightarrow> (os_error, unit) io" where
  "Remove p = syscall SysRemove (\<lambda>s.
     case entry s p of
       None \<Rightarrow> (Inl ENOENT, s)
     | Some (Dir _) \<Rightarrow> if p = [] \<or> children s p \<noteq> [] then (Inl ENOTEMPTY, s)
                       else (Inr (), drop_entries ((=) p) s)
     | Some (File _) \<Rightarrow> (Inr (), drop_entries ((=) p) s))"

definition Link :: "path \<Rightarrow> path \<Rightarrow> (os_error, unit) io" where
  "Link old new = syscall SysLink (\<lambda>s.
     case entry s old of
       Some (File i) \<Rightarrow>
         if entry s new \<noteq> None then (Inl EEXIST, s)
         else if \<not> is_dir s (butlast new) then (Inl ENOENT, s)
         else (Inr (), set_entry new (File i) s)
     | Some (Dir _) \<Rightarrow> (Inl EISDIR, s)
     | None \<Rightarrow> (Inl ENOENT, s))"

definition Chmod :: "path \<Rightarrow> nat \<Rightarrow> (os_error, unit) io" where
  "Chmod p mode = syscall SysChmod (\<lambda>s.
     case entry s p of
       None \<Rightarrow> (Inl ENOENT, s)
     | Some (Dir _) \<Rightarrow> (Inr (), if p = [] then s else set_entry p (Dir mode) s)
     | Some (File i) \<Rightarrow> (Inr (), set_inode i ((inodes s i)\<lparr>ino_mode := mode\<rparr>) s))"

definition ReadDir :: "path \<Rightarrow> (os_error, (string \<times> node) list) io" where
  "ReadDir p = syscall SysReadDir (\<lambda>s.
     case entry s p of
       Some (Dir _) \<Rightarrow> (Inr (map (\<lambda>n. (n, the (entry s (p @ [n])))) (children s p)), s)
     | Some (File _) \<Rightarrow> (Inl ENOTDIR, s)
     | None \<Rightarrow> (Inl ENOENT, s))"

text \<open>Opening for reading yields the inode, which stays readable whatever happens to the entry.\<close>

definition Open :: "path \<Rightarrow> (os_error, nat) io" where
  "Open p = syscall SysOpen (\<lambda>s.
     case entry s p of
       Some (File i) \<Rightarrow> (Inr i, s)
     | Some (Dir _) \<Rightarrow> (Inl EISDIR, s)
     | None \<Rightarrow> (Inl ENOENT, s))"

definition read_inode :: "nat \<Rightarrow> ('e, string) io" where
  "read_inode i s = (Inr (ino_data (inodes s i)), s)"

definition mode_of :: "nat \<Rightarrow> ('e, nat) io" where
  "mode_of i s = (Inr (ino_mode (inodes s i)), s)"

text \<open>\<open>O_CREATE|O_WRONLY|O_TRUNC\<close>: an existing file is emptied, through whatever links it has.\<close>

definition Create :: "path \<Rightarrow> nat \<Rightarrow> (os_error, nat) io" where
  "Create p mode = syscall SysCreate (\<lambda>s.
     case entry s p of
       Some (File i) \<Rightarrow>
         (Inr i, set_inode i ((inodes s i)\<lparr>ino_data := []\<rparr>) s)
     | Some (Dir _) \<Rightarrow> (Inl EISDIR, s)
     | None \<Rightarrow>
         if \<not> is_dir s (butlast p) then (Inl ENOENT, s)
         else (let i = next_ino s
               in (Inr i, (set_inode i \<lparr>ino_data = [], ino_mode = mode - (mode AND umask s)\<rparr>
                            (set_entry p (File i) s))\<lparr>next_ino := i + 1\<rparr>)))"

text \<open>\<open>io.Copy\<close> into an open file: on a fault a prefix has been written.\<close>

definition write_inode :: "nat \<Rightarrow> string \<Rightarrow> (os_error, unit) io" where
  "write_inode i d s =
     (let put = (\<lambda>x s. set_inode i ((inodes s i)\<lparr>ino_data := ino_data (inodes s i) @ x\<rparr>) s);
          s' = s\<lparr>clock := clock s + 1\<rparr>
      in case faults s SysWrite (clock s) of
           Some k \<Rightarrow> (Inl EIO, put (take k d) s')
         | None \<Rightarrow> (Inr (), put d s'))"

definition ReadFile :: "path \<Rightarrow> (os_error, string) io" where
  "ReadFile p = bind (Open p) read_inode"

definition Rename :: "path \<Rightarrow> path \<Rightarrow> (os_error, unit) io" where
  "Rename old new = syscall SysRename (\<lambda>s.
     case entry s old of
       Some (File i) \<Rightarrow>
         if is_dir s new then (Inl EEXIST, s)
         else if \<not> is_dir s (butlast new) then (Inl ENOENT, s)
         else (Inr (), set_entry new (File i) (drop_entries ((=) old) s))
     | _ \<Rightarrow> (Inl ENOENT, s))"

subsection \<open>Reading the state back\<close>

lemma entry_set_entry: "p \<noteq> [] \<Longrightarrow> entry (set_entry p n s) q = (if q = p then Some n else entry s q)"
  by (simp add: entry_def set_entry_def update_conv')

lemma map_of_filter_keys: "map_of (filter (\<lambda>(p, _). \<not> P p) xs) q = (if P q then None else map_of xs q)"
  by (induction xs) auto

lemma entry_drop_entries:
  "q \<noteq> [] \<Longrightarrow> entry (drop_entries P s) q = (if P q then None else entry s q)"
  by (simp add: entry_def drop_entries_def map_of_filter_keys)

lemma inodes_set_inode [simp]: "inodes (set_inode i n s) = (inodes s)(i := n)"
  by (auto simp: inodes_def set_inode_def update_conv' fun_eq_iff)

lemma inodes_other [simp]:
  "inodes (s\<lparr>clock := c\<rparr>) = inodes s" "inodes (s\<lparr>next_ino := k\<rparr>) = inodes s"
  "inodes (set_entry p n s) = inodes s" "inodes (drop_entries P s) = inodes s"
  by (simp_all add: inodes_def set_entry_def drop_entries_def fun_eq_iff)

lemma set_inode_sel [simp]:
  "entry (set_inode i n s) p = entry s p" "next_ino (set_inode i n s) = next_ino s"
  "clock (set_inode i n s) = clock s" "faults (set_inode i n s) = faults s"
  "umask (set_inode i n s) = umask s"
  by (simp_all add: entry_def set_inode_def)

lemma set_entry_sel [simp]:
  "next_ino (set_entry p n s) = next_ino s"
  "clock (set_entry p n s) = clock s" "faults (set_entry p n s) = faults s"
  "umask (set_entry p n s) = umask s"
  by (simp_all add: set_entry_def)

lemma drop_entries_sel [simp]:
  "next_ino (drop_entries P s) = next_ino s"
  "clock (drop_entries P s) = clock s" "faults (drop_entries P s) = faults s"
  "umask (drop_entries P s) = umask s"
  by (simp_all add: drop_entries_def)

lemma entry_update [simp]:
  "entry (s\<lparr>clock := c\<rparr>) p = entry s p"
  "entry (s\<lparr>next_ino := k\<rparr>) p = entry s p"
  by (simp_all add: entry_def)

lemma entry_root [simp]: "entry s [] = Some (Dir mode_755)"
  by (simp add: entry_def)

subsection \<open>Actions that succeed\<close>

lemma bind_Inr:
  "bind m f s = (Inr y, s') \<longleftrightarrow> (\<exists>x s1. m s = (Inr x, s1) \<and> f x s1 = (Inr y, s'))"
  by (auto simp: bind_def split: prod.splits sum.splits)

lemma wrap_Inr: "wrap g m s = (Inr y, s') \<longleftrightarrow> m s = (Inr y, s')"
  by (auto simp: wrap_def split: prod.splits sum.splits)

lemma attempt_Inr: "attempt m s = (r, s') \<longleftrightarrow> (\<exists>x. m s = (x, s') \<and> r = Inr x)"
  by (auto simp: attempt_def split: prod.splits)

lemma ret_Inr: "ret x s = (r, s') \<longleftrightarrow> r = Inr x \<and> s' = s"
  by (auto simp: ret_def)

lemma throw_Inr: "throw e s = (r, s') \<longleftrightarrow> r = Inl e \<and> s' = s"
  by (auto simp: throw_def)

lemma finally_do_eq: "finally_do m d s = (r, s') \<longleftrightarrow> (\<exists>s1. m s = (r, s1) \<and> s' = snd (d s1))"
  by (auto simp: finally_do_def split: prod.splits)

lemmas io_succeeds = bind_Inr wrap_Inr attempt_Inr ret_Inr throw_Inr finally_do_eq

subsection \<open>Properties that actions keep\<close>

definition keeps :: "(fs \<Rightarrow> bool) \<Rightarrow> ('e, 'a) io \<Rightarrow> bool" where
  "keeps P m \<longleftrightarrow> (\<forall>s. P s \<longrightarrow> P (snd (m s)))"

named_theorems keeps_rules \<open>which actions keep a property of the file system\<close>

lemma keepsI: "(\<And>s. P s \<Longrightarrow> P (snd (m s))) \<Longrightarrow> keeps P m"
  by (simp add: keeps_def)

lemma keepsD: "keeps P m \<Longrightarrow> P s \<Longrightarrow> m s = (r, s') \<Longrightarrow> P s'"
  by (auto simp: keeps_def dest: spec [of _ s])

lemma keeps_ret [keeps_rules]: "keeps P (ret x)"
  by (simp add: keeps_def ret_def)

lemma keeps_throw [keeps_rules]: "keeps P (throw e)"
  by (simp add: keeps_def throw_def)

lemma keeps_read_inode [keeps_rules]: "keeps P (read_inode i)"
  by (simp add: keeps_def read_inode_def)

lemma keeps_mode_of [keeps_rules]: "keeps P (mode_of i)"
  by (simp add: keeps_def mode_of_def)

lemma keeps_bind [keeps_rules]: "keeps P m \<Longrightarrow> (\<And>x. keeps P (f x)) \<Longrightarrow> keeps P (bind m f)"
  by (auto simp: keeps_def bind_def split: prod.splits sum.splits)

lemma keeps_attempt [keeps_rules]: "keeps P m \<Longrightarrow> keeps P (attempt m)"
  by (auto simp: keeps_def attempt_def split: prod.splits)

lemma keeps_ignore [keeps_rules]: "keeps P m \<Longrightarrow> keeps P (ignore m)"
  by (auto simp: keeps_def ignore_def)

lemma keeps_wrap [keeps_rules]: "keeps P m \<Longrightarrow> keeps P (wrap g m)"
  by (auto simp: keeps_def wrap_def split: prod.splits sum.splits)

lemma keeps_finally_do [keeps_rules]: "keeps P m \<Longrightarrow> keeps P d \<Longrightarrow> keeps P (finally_do m d)"
  by (auto simp: keeps_def finally_do_def split: prod.splits)

lemma keeps_each [keeps_rules]: "(\<And>x. x \<in> set xs \<Longrightarrow> keeps P (f x)) \<Longrightarrow> keeps P (each f xs)"
  by (induction xs) (auto intro!: keeps_rules)

subsection \<open>A file that nothing writes to\<close>

text \<open>
  \<open>guarded K A p i d\<close>: the entry \<open>p\<close> is inode \<open>i\<close> with content \<open>d\<close>, every entry that names
  this inode is among \<open>A\<close>, and the system calls in \<open>K\<close> do not fail.
\<close>

definition guarded ::
  "syscall set \<Rightarrow> path set \<Rightarrow> path \<Rightarrow> nat \<Rightarrow> string \<Rightarrow> fs \<Rightarrow> bool" where
  "guarded K A p i d s \<longleftrightarrow>
     entry s p = Some (File i) \<and> ino_data (inodes s i) = d \<and> i < next_ino s \<and>
     (\<forall>q. entry s q = Some (File i) \<longrightarrow> q \<in> A) \<and> (\<forall>k \<in> K. \<forall>n. faults s k n = None)"

lemma guarded_mono: "guarded K A p i d s \<Longrightarrow> A \<subseteq> B \<Longrightarrow> guarded K B p i d s"
  by (auto simp: guarded_def)

lemma guarded_clock [simp]: "guarded K A p i d (s\<lparr>clock := c\<rparr>) \<longleftrightarrow> guarded K A p i d s"
  by (simp add: guarded_def)

lemma keeps_syscall:
  "(\<And>s c. P s \<Longrightarrow> P (s\<lparr>clock := c\<rparr>)) \<Longrightarrow> keeps P m \<Longrightarrow> keeps P (syscall k m)"
  by (auto simp: keeps_def syscall_def Let_def split: option.splits)

lemma guarded_syscall: "keeps (guarded K A p i d) m \<Longrightarrow> keeps (guarded K A p i d) (syscall k m)"
  by (rule keeps_syscall) simp

lemma guarded_set_dir:
  "guarded K A p i d s \<Longrightarrow> entry s q = None \<or> is_dir s q \<Longrightarrow> q \<noteq> [] \<Longrightarrow>
   guarded K A p i d (set_entry q (Dir m) s)"
  by (auto simp: guarded_def entry_set_entry is_dir_def split: node.splits)

lemma guarded_drop:
  "guarded K A p i d s \<Longrightarrow> \<not> P p \<Longrightarrow> guarded K A p i d (drop_entries P s)"
proof -
  assume g: "guarded K A p i d s" and np: "\<not> P p"
  have p: "p \<noteq> []" using g by (auto simp: guarded_def)
  have "entry (drop_entries P s) q = Some (File i) \<Longrightarrow> entry s q = Some (File i)" for q
    by (cases "q = []") (auto simp: entry_drop_entries split: if_splits)
  then show ?thesis using g np p by (auto simp: guarded_def entry_drop_entries)
qed

lemma guarded_Stat [keeps_rules]: "keeps (guarded K A p i d) (Stat q)"
  unfolding Stat_def by (rule guarded_syscall) (auto simp: keeps_def split: option.split)

lemma guarded_Open [keeps_rules]: "keeps (guarded K A p i d) (Open q)"
  unfolding Open_def by (rule guarded_syscall) (auto simp: keeps_def split: option.split node.split)

lemma guarded_ReadDir [keeps_rules]: "keeps (guarded K A p i d) (ReadDir q)"
  unfolding ReadDir_def by (rule guarded_syscall) (auto simp: keeps_def split: option.split node.split)

lemma guarded_mkdir_from: "guarded K A p i d s \<Longrightarrow> guarded K A p i d (snd (mkdir_from q r m s))"
proof (induction q r m s rule: mkdir_from.induct)
  case (2 q c cs mode s)
  have "guarded K A p i d (set_entry (q @ [c]) (Dir m) s)" if "entry s (q @ [c]) = None" for m
    using 2(3) that by (intro guarded_set_dir) auto
  then show ?case using 2 by (auto simp: Let_def split: option.split node.split)
qed simp

lemma guarded_MkdirAll [keeps_rules]: "keeps (guarded K A p i d) (MkdirAll q m)"
  unfolding MkdirAll_def by (rule guarded_syscall) (simp add: keeps_def guarded_mkdir_from)

lemma guarded_RemoveAll: "\<not> prefix q p \<Longrightarrow> keeps (guarded K A p i d) (RemoveAll q)"
  unfolding RemoveAll_def by (rule guarded_syscall) (simp add: keeps_def guarded_drop)

lemma guarded_Remove: "q \<noteq> p \<Longrightarrow> keeps (guarded K A p i d) (Remove q)"
  unfolding Remove_def by (rule guarded_syscall)
    (auto simp: keeps_def guarded_drop split: option.split node.split)

lemma guarded_Chmod [keeps_rules]: "keeps (guarded K A p i d) (Chmod q m)"
proof -
  have "guarded K A p i d (set_entry q (Dir m) s)"
    if "guarded K A p i d s" "entry s q = Some (Dir x)" "q \<noteq> []" for s x
    using that by (intro guarded_set_dir) (auto simp: is_dir_def)
  moreover have "guarded K A p i d (set_inode j ((inodes s j)\<lparr>ino_mode := m\<rparr>) s)"
    if "guarded K A p i d s" for s j using that by (auto simp: guarded_def)
  ultimately show ?thesis unfolding Chmod_def
    by (intro guarded_syscall) (auto simp: keeps_def split: option.split node.split)
qed

text \<open>Removing the other link leaves the guarded file with one name less.\<close>

lemma Remove_unlinks:
  assumes "guarded K A p i d s" and "SysRemove \<in> K" and "q \<noteq> p"
  shows "guarded K (A - {q}) p i d (snd (Remove q s))"
proof -
  have f: "faults s SysRemove (clock s) = None" using assms by (auto simp: guarded_def)
  have p: "p \<noteq> []" using assms(1) by (auto simp: guarded_def)
  let ?s = "s\<lparr>clock := Suc (clock s)\<rparr>"
  show ?thesis
  proof (cases "entry s q")
    case (Some n)
    have r: "entry (drop_entries ((=) q) ?s) x = (if x = q then None else entry s x)" if "q \<noteq> []" for x
      using that by (cases "x = []") (auto simp: entry_drop_entries)
    have "guarded K (A - {q}) p i d (drop_entries ((=) q) ?s)" if "q \<noteq> []"
      using assms(1,3) by (auto simp: guarded_def r [OF that])
    moreover have "guarded K (A - {q}) p i d ?s" if "entry s q = Some (Dir x)" for x
      using assms(1) that by (auto simp: guarded_def)
    ultimately show ?thesis using f Some
      by (cases "q = []") (auto simp: Remove_def syscall_def Let_def split: node.split)
  next
    case None
    then show ?thesis using f assms(1) by (auto simp: Remove_def syscall_def Let_def guarded_def)
  qed
qed

lemma Create_result:
  assumes "guarded K A p i d s" and "q \<notin> A"
  shows "guarded K A p i d (snd (Create q m s)) \<and> (\<forall>j. fst (Create q m s) = Inr j \<longrightarrow> j \<noteq> i)"
proof -
  let ?s = "s\<lparr>clock := Suc (clock s)\<rparr>"
  have g: "guarded K A p i d ?s" using assms(1) by simp
  have "guarded K A p i d (set_inode j ((inodes s j)\<lparr>ino_data := []\<rparr>) ?s)"
    if "j \<noteq> i" for j using assms(1) that by (auto simp: guarded_def)
  moreover have "j \<noteq> i" if "entry s q = Some (File j)" for j
    using assms that by (auto simp: guarded_def)
  moreover have "guarded K A p i d ((set_inode (next_ino s) x (set_entry q (File (next_ino s)) ?s))
      \<lparr>next_ino := Suc (next_ino s)\<rparr>)"
    if "entry s q = None" for x
  proof -
    have "q \<noteq> []" using that by auto
    then show ?thesis using assms(1) that by (auto simp: guarded_def entry_set_entry split: if_splits)
  qed
  moreover have "next_ino s \<noteq> i" using assms(1) by (auto simp: guarded_def)
  ultimately show ?thesis using g
    by (auto simp: Create_def syscall_def Let_def split: option.split node.split)
qed

lemma Link_guarded:
  assumes "guarded K {p} p i d s" and "q \<noteq> p" and "q \<noteq> []" and "Link old q s = (r, s')"
  shows "guarded K {p, q} p i d s'" and "r = Inl e \<Longrightarrow> guarded K {p} p i d s'"
proof -
  let ?s = "s\<lparr>clock := Suc (clock s)\<rparr>"
  have g: "guarded K {p} p i d ?s" "guarded K {p, q} p i d ?s"
    using assms(1) guarded_mono [OF assms(1), of "{p, q}"] by auto
  have new: "guarded K {p, q} p i d (set_entry q (File k) ?s)" for k
    using g(2) assms(2,3) by (auto simp: guarded_def entry_set_entry split: if_splits)
  show "guarded K {p, q} p i d s'" "r = Inl e \<Longrightarrow> guarded K {p} p i d s'"
    using assms(4) g new
    by (auto simp: Link_def syscall_def Let_def split: option.splits node.splits if_splits)
qed

lemma guarded_write: "j \<noteq> i \<Longrightarrow> keeps (guarded K A p i d) (write_inode j x)"
  by (auto simp: keeps_def write_inode_def Let_def guarded_def split: option.split)

text \<open>Creating a file elsewhere and filling it.\<close>

lemma guarded_create_write:
  assumes "q \<notin> A" and "\<And>j. j \<noteq> i \<Longrightarrow> keeps (guarded K A p i d) (f j)"
  shows "keeps (guarded K A p i d) (bind (Create q m) f)"
proof (rule keepsI)
  fix s assume g: "guarded K A p i d s"
  obtain r s' where c: "Create q m s = (r, s')" by fastforce
  then have "guarded K A p i d s'" "\<forall>j. r = Inr j \<longrightarrow> j \<noteq> i"
    using Create_result [OF g assms(1), of m] by auto
  then show "guarded K A p i d (snd (bind (Create q m) f s))"
    using c assms(2) by (cases r) (auto simp: bind_def keeps_def)
qed

subsection \<open>Contents\<close>

definition content :: "fs \<Rightarrow> path \<Rightarrow> string option" where
  "content s p = (case entry s p of Some (File i) \<Rightarrow> Some (ino_data (inodes s i)) | _ \<Rightarrow> None)"

definition inodes_ok :: "fs \<Rightarrow> bool" where
  "inodes_ok s \<longleftrightarrow> (\<forall>p i. entry s p = Some (File i) \<longrightarrow> i < next_ino s)"

lemma mkdir_from_files:
  "(entry (snd (mkdir_from q r m s)) p = Some (File i) \<longleftrightarrow> entry s p = Some (File i)) \<and>
   inodes (snd (mkdir_from q r m s)) = inodes s \<and> next_ino (snd (mkdir_from q r m s)) = next_ino s"
proof (induction q r m s rule: mkdir_from.induct)
  case (2 q c cs mode s)
  show ?case
  proof (cases "entry s (q @ [c])")
    case None
    then show ?thesis using 2 by (auto simp: Let_def entry_set_entry)
  next
    case (Some n)
    then show ?thesis using 2 by (cases n) (simp_all add: Let_def)
  qed
qed simp

lemma MkdirAll_files:
  "(entry (snd (MkdirAll q m s)) p = Some (File i) \<longleftrightarrow> entry s p = Some (File i)) \<and>
   inodes (snd (MkdirAll q m s)) = inodes s \<and> next_ino (snd (MkdirAll q m s)) = next_ino s"
  using mkdir_from_files [of "[]" q m "s\<lparr>clock := Suc (clock s)\<rparr>" p i]
  by (auto simp: MkdirAll_def syscall_def Let_def split: option.split)

lemma content_File: "content s p = Some x \<longleftrightarrow> (\<exists>i. entry s p = Some (File i) \<and> ino_data (inodes s i) = x)"
  by (auto simp: content_def split: option.splits node.splits)

lemma content_guarded:
  assumes "inodes_ok s" and "content s p = Some x"
  obtains i where "guarded {} {q. entry s q = Some (File i)} p i x s"
  using assms by (auto simp: content_File inodes_ok_def guarded_def)

lemma guarded_content: "guarded K A p i x s \<Longrightarrow> content s p = Some x"
  by (simp add: guarded_def content_def)

end
