(* ===== verification/Blob.thy ===== *)
theory Blob
  imports FileSys
begin

section \<open>The blob store (\<^verbatim>\<open>internal/adapters/blob/local.go\<close>)\<close>

text \<open>
  Blobs are files under a root directory. \<open>blob_path\<close> turns a key into a path, with
  \<open>filepath.Clean\<close> modelled on path components; \<open>Put\<close> writes a temporary file and renames
  it. The random part of the temporary file's name is the argument \<open>pick\<close>. The lemmas show
  that no key leaves the root, that distinct cleaned keys have distinct paths, and that \<open>Put\<close>
  is atomic whatever system calls fail. The locale \<open>blob_store\<close> states what the judge relies
  on.
\<close>

datatype blob_error = InvalidKey string | OS os_error

fun split_slash :: "string \<Rightarrow> string list" where
  "split_slash [] = [[]]"
| "split_slash (c # cs) =
     (if c = CHR ''/'' then [] # split_slash cs
      else case split_slash cs of [] \<Rightarrow> [[c]] | w # ws \<Rightarrow> (c # w) # ws)"

text \<open>\<open>filepath.Clean\<close> of a rooted path, on components, with the components so far reversed.\<close>

fun clean_comps :: "string list \<Rightarrow> string list \<Rightarrow> string list" where
  "clean_comps acc [] = rev acc"
| "clean_comps acc (c # cs) =
     (if c = [] \<or> c = ''.'' then clean_comps acc cs
      else if c = ''..'' then clean_comps (tl acc) cs
      else clean_comps (c # acc) cs)"

definition TrimPrefix :: "string \<Rightarrow> string" where
  "TrimPrefix key = (case key of c # cs \<Rightarrow> if c = CHR ''/'' then cs else key | [] \<Rightarrow> [])"

definition clean_key :: "string \<Rightarrow> string list" where
  "clean_key key = clean_comps [] (split_slash (TrimPrefix key))"

definition render :: "string list \<Rightarrow> string" where
  "render cs = (if cs = [] then ''/'' else concat (map (\<lambda>c. CHR ''/'' # c) cs))"

definition isHex :: "string \<Rightarrow> bool" where
  "isHex s \<longleftrightarrow> (\<forall>c \<in> set s. let b = of_char c :: nat in (48 \<le> b \<and> b \<le> 57) \<or> (97 \<le> b \<and> b \<le> 102))"

definition shard :: "string \<Rightarrow> string list" where
  "shard base = (if 16 \<le> length base \<and> isHex (take 4 base)
                 then [take 2 base, take 2 (drop 2 base)] else [])"

definition blob_path :: "path \<Rightarrow> string \<Rightarrow> (blob_error, path) result" where
  "blob_path Root key =
     (let clean = clean_key key
      in if sublist ''..'' (render clean) then Inl (InvalidKey key)
         else if clean = [] then Inr Root
         else Inr (Root @ butlast clean @ shard (last clean) @ [last clean]))"

definition with_path :: "path \<Rightarrow> string \<Rightarrow> (path \<Rightarrow> (blob_error, 'a) io) \<Rightarrow> (blob_error, 'a) io" where
  "with_path Root key f = (case blob_path Root key of Inl e \<Rightarrow> throw e | Inr p \<Rightarrow> f p)"

definition CreateTemp :: "(fs \<Rightarrow> string) \<Rightarrow> path \<Rightarrow> (os_error, path \<times> nat) io" where
  "CreateTemp pick dir s =
     (let tmp = dir @ [''.tmp-'' @ pick s]
      in case entry s tmp of
           Some _ \<Rightarrow> (Inl EEXIST, s)
         | None \<Rightarrow> bind (Create tmp mode_600) (\<lambda>i. ret (tmp, i)) s)"

text \<open>
  A reader yields bytes and then the end of the stream, or an error. The deferred \<open>Remove\<close>
  of the temporary file runs on every path.
\<close>

definition Put :: "(fs \<Rightarrow> string) \<Rightarrow> path \<Rightarrow> string \<Rightarrow> string \<times> bool \<Rightarrow> (blob_error, unit) io" where
  "Put pick Root key r = with_path Root key (\<lambda>p.
     bind (wrap OS (MkdirAll (butlast p) mode_755)) (\<lambda>_.
     bind (wrap OS (CreateTemp pick (butlast p))) (\<lambda>(tmp, i).
     bind (attempt (wrap OS
       (bind (write_inode i (fst r)) (\<lambda>_.
        if snd r then throw EIO else Rename tmp p)))) (\<lambda>result.
     bind (ignore (Remove tmp)) (\<lambda>_.
     case result of Inl e \<Rightarrow> throw e | Inr _ \<Rightarrow> ret ())))))"

definition Get :: "path \<Rightarrow> string \<Rightarrow> (blob_error, nat) io" where
  "Get Root key = with_path Root key (\<lambda>p. wrap OS (Open p))"

definition GetToFile :: "path \<Rightarrow> string \<Rightarrow> path \<Rightarrow> (blob_error, unit) io" where
  "GetToFile Root key dst =
     bind (Get Root key) (\<lambda>src.
     bind (wrap OS (MkdirAll (butlast dst) mode_755)) (\<lambda>_.
     bind (wrap OS (Create dst 438)) (\<lambda>f.
     bind (read_inode src) (\<lambda>d.
     wrap OS (write_inode f d)))))"

definition Exists :: "path \<Rightarrow> string \<Rightarrow> (blob_error, bool) io" where
  "Exists Root key = with_path Root key (\<lambda>p.
     bind (attempt (Stat p)) (\<lambda>r. case r of
       Inl ENOENT \<Rightarrow> ret False
     | Inl e \<Rightarrow> throw (OS e)
     | Inr _ \<Rightarrow> ret True))"

definition NewLocal :: "path \<Rightarrow> (blob_error, path) io" where
  "NewLocal root = bind (wrap OS (MkdirAll root mode_755)) (\<lambda>_. ret root)"

subsection \<open>Keys\<close>

definition plain :: "string \<Rightarrow> bool" where
  "plain c \<longleftrightarrow> c \<noteq> [] \<and> c \<noteq> ''.'' \<and> c \<noteq> ''..'' \<and> CHR ''/'' \<notin> set c"

lemma split_slash_no_slash: "c \<in> set (split_slash s) \<Longrightarrow> CHR ''/'' \<notin> set c"
proof (induction s arbitrary: c)
  case (Cons a s)
  then show ?case by (auto split: if_splits list.splits)
qed simp

lemma clean_comps_plain:
  "\<forall>c \<in> set cs. CHR ''/'' \<notin> set c \<Longrightarrow> \<forall>c \<in> set acc. plain c \<Longrightarrow>
   \<forall>c \<in> set (clean_comps acc cs). plain c"
proof (induction acc cs rule: clean_comps.induct)
  case (2 acc c cs)
  have tl: "\<forall>c \<in> set (tl acc). plain c" using 2(5) by (cases acc) simp_all
  consider "c = [] \<or> c = ''.''" | "\<not> (c = [] \<or> c = ''.'')" "c = ''..''"
    | "\<not> (c = [] \<or> c = ''.'')" "c \<noteq> ''..''" by argo
  then show ?case
  proof cases
    case 1
    then show ?thesis using 2(1) 2(4,5) by simp
  next
    case b: 2
    then show ?thesis using 2(2) [OF b] 2(4) tl by simp
  next
    case 3
    then have "plain c" using 2(4) by (simp add: plain_def)
    then have "\<forall>x \<in> set (c # acc). plain x" using 2(5) by simp
    moreover have "\<forall>x \<in> set cs. CHR ''/'' \<notin> set x" using 2(4) by simp
    moreover have "clean_comps acc (c # cs) = clean_comps (c # acc) cs" using 3 by simp
    ultimately show ?thesis using 2(3) [OF 3] by presburger
  qed
qed simp

lemma clean_key_plain: "c \<in> set (clean_key key) \<Longrightarrow> plain c"
  using clean_comps_plain [of "split_slash (TrimPrefix key)" "[]"] split_slash_no_slash
  by (auto simp: clean_key_def)

lemma shard_plain: "plain c \<Longrightarrow> x \<in> set (shard c) \<Longrightarrow> plain x"
proof -
  assume c: "plain c" and x: "x \<in> set (shard c)"
  have h: "isHex (take 4 c)" "16 \<le> length c" and xs: "x = take 2 c \<or> x = take 2 (drop 2 c)"
    using x by (auto simp: shard_def split: if_splits)
  have "length x = 2" using xs h(2) by auto
  moreover have sub: "set x \<subseteq> set (take 4 c)"
  proof -
    have "take 4 c = take 2 c @ take 2 (drop 2 c)" by (simp add: take_add [symmetric])
    then show ?thesis using xs by auto
  qed
  then have "isHex x" using h(1) by (auto simp: isHex_def)
  ultimately have "x \<noteq> []" "x \<noteq> ''.''" "x \<noteq> ''..''" by (auto simp: isHex_def)
  moreover have "CHR ''/'' \<notin> set x" using \<open>isHex x\<close> by (auto simp: isHex_def)
  ultimately show ?thesis by (simp add: plain_def)
qed

text \<open>No key escapes the root.\<close>

lemma blob_path_confined:
  assumes "blob_path Root key = Inr p"
  shows "\<exists>rel. p = Root @ rel \<and> (\<forall>c \<in> set rel. plain c)"
proof (cases "clean_key key = []")
  case True
  then show ?thesis using assms by (auto simp: blob_path_def Let_def split: if_splits)
next
  case False
  let ?k = "clean_key key"
  have p: "p = Root @ (butlast ?k @ shard (last ?k) @ [last ?k])"
    using assms False by (auto simp: blob_path_def Let_def split: if_splits)
  have l: "plain (last ?k)" by (rule clean_key_plain [OF last_in_set [OF False]])
  have "plain c" if "c \<in> set (butlast ?k @ shard (last ?k) @ [last ?k])" for c
    using that l shard_plain [OF l] clean_key_plain by (auto dest: in_set_butlastD)
  then show ?thesis using p by blast
qed

text \<open>Different blobs have different paths.\<close>

lemma blob_path_inj:
  assumes "blob_path Root k = Inr p" and "blob_path Root k' = Inr p"
  shows "clean_key k = clean_key k'"
proof -
  have form: "p = (if clean_key k = [] then Root
      else Root @ butlast (clean_key k) @ shard (last (clean_key k)) @ [last (clean_key k)])"
    if "blob_path Root k = Inr p" for k
    using that by (auto simp: blob_path_def Let_def split: if_splits)
  note f = form [OF assms(1)] form [OF assms(2)]
  show ?thesis
  proof (cases "clean_key k = [] \<or> clean_key k' = []")
    case True
    then show ?thesis using f by (auto split: if_splits)
  next
    case False
    then have e: "butlast (clean_key k) @ shard (last (clean_key k)) @ [last (clean_key k)] =
        butlast (clean_key k') @ shard (last (clean_key k')) @ [last (clean_key k')]"
      using f by (metis same_append_eq)
    then have l: "last (clean_key k) = last (clean_key k')"
      by (metis append.assoc last_snoc)
    define t where "t = shard (last (clean_key k)) @ [last (clean_key k)]"
    have "butlast (clean_key k) @ t = butlast (clean_key k') @ t" using e by (simp add: t_def l)
    then have "butlast (clean_key k) = butlast (clean_key k')" by simp
    then show ?thesis using l False by (metis append_butlast_last_id)
  qed
qed

subsection \<open>Put\<close>

lemma CreateTemp_fresh:
  assumes "CreateTemp pick dir s = (Inr (tmp, j), s')"
  shows "tmp = dir @ [''.tmp-'' @ pick s]" and "entry s tmp = None" and "j = next_ino s"
    and "entry s' q = (if q = tmp then Some (File j) else entry s q)"
    and "ino_data (inodes s' j) = []" and "k \<noteq> j \<Longrightarrow> inodes s' k = inodes s k"
    and "next_ino s' = Suc j"
  using assms
  by (auto simp: CreateTemp_def Create_def bind_def ret_def syscall_def Let_def entry_set_entry
      split: option.splits if_splits node.splits)

lemma CreateTemp_guarded: "keeps (guarded K A p i x) (CreateTemp pick dir)"
proof (rule keepsI)
  fix s assume g: "guarded K A p i x s"
  let ?t = "dir @ [''.tmp-'' @ pick s]"
  show "guarded K A p i x (snd (CreateTemp pick dir s))"
  proof (cases "entry s ?t")
    case None
    have g': "guarded K (A - {?t}) p i x s" using g None by (auto simp: guarded_def)
    have "keeps (guarded K (A - {?t}) p i x) (bind (Create ?t mode_600) (\<lambda>i. ret (?t, i)))"
      by (rule guarded_create_write) (auto intro: keeps_rules)
    then have "guarded K (A - {?t}) p i x (snd (CreateTemp pick dir s))"
      using g' None by (simp add: CreateTemp_def Let_def keeps_def)
    then show ?thesis by (rule guarded_mono) auto
  qed (simp add: CreateTemp_def Let_def g)
qed

lemma Rename_guarded:
  assumes "guarded K A p i x s" and "entry s old = Some (File j)" and "j \<noteq> i" and "new \<noteq> p" and "new \<noteq> []"
  shows "guarded K A p i x (snd (Rename old new s))"
proof -
  let ?s = "s\<lparr>clock := Suc (clock s)\<rparr>"
  have g: "guarded K A p i x ?s" using assms(1) by simp
  have "old \<noteq> p" using assms(1-3) by (auto simp: guarded_def)
  then have "guarded K A p i x (drop_entries ((=) old) ?s)" using g by (intro guarded_drop) auto
  then have "guarded K A p i x (set_entry new (File j) (drop_entries ((=) old) ?s))"
    using assms(3-5) by (auto simp: guarded_def entry_set_entry split: if_splits)
  then show ?thesis using g assms(2)
    by (auto simp: Rename_def syscall_def Let_def split: option.split node.split)
qed

text \<open>What happens between the creation of the temporary file and the return.\<close>

definition commit :: "path \<Rightarrow> path \<Rightarrow> nat \<Rightarrow> string \<times> bool \<Rightarrow> (blob_error, unit) io" where
  "commit p tmp i r =
     bind (attempt (wrap OS
       (bind (write_inode i (fst r)) (\<lambda>_.
        if snd r then throw EIO else Rename tmp p)))) (\<lambda>result.
     bind (ignore (Remove tmp)) (\<lambda>_.
     case result of Inl e \<Rightarrow> throw e | Inr _ \<Rightarrow> ret ()))"

lemma commit_state:
  "commit p tmp i r s =
     (let (w, s1) = bind (write_inode i (fst r)) (\<lambda>_. if snd r then throw EIO else Rename tmp p) s
      in (case w of Inl e \<Rightarrow> Inl (OS e) | Inr _ \<Rightarrow> Inr (), snd (Remove tmp s1)))"
  by (auto simp: commit_def bind_def attempt_def wrap_def ignore_def throw_def ret_def Let_def
      split: prod.splits sum.splits)

lemma write_inode_entry: "entry (snd (write_inode i x s)) q = entry s q"
  by (auto simp: write_inode_def Let_def split: option.split)

lemma commit_guarded:
  assumes "guarded K A q i x s" and "entry s tmp = Some (File j)" and "j \<noteq> i" and "q \<noteq> p" and "p \<noteq> []"
  shows "guarded K A q i x (snd (commit p tmp j r s))"
proof -
  have tq: "tmp \<noteq> q" using assms(1-3) by (auto simp: guarded_def)
  let ?m = "bind (write_inode j (fst r)) (\<lambda>_. if snd r then throw EIO else Rename tmp p)"
  obtain w s1 where w: "write_inode j (fst r) s = (w, s1)" by fastforce
  have g1: "guarded K A q i x s1" by (rule keepsD [OF guarded_write [OF assms(3)] assms(1) w])
  have "entry s1 tmp = Some (File j)" using write_inode_entry [of j "fst r" s tmp] w assms(2) by simp
  then have "guarded K A q i x (snd (?m s))"
    using w g1 Rename_guarded [OF g1 _ assms(3), of tmp p] assms(4,5)
    by (auto simp: bind_def throw_def split: sum.split)
  then show ?thesis
    using guarded_Remove [OF tq, of K A i x] by (auto simp: commit_state keeps_def split: prod.splits)
qed

lemma commit_failed:
  assumes "fst (commit p tmp j r s) = Inl e" and "guarded K A q i x s"
    and "entry s tmp = Some (File j)" and "j \<noteq> i"
  shows "guarded K A q i x (snd (commit p tmp j r s))"
proof -
  have tq: "tmp \<noteq> q" using assms(2-4) by (auto simp: guarded_def)
  let ?m = "bind (write_inode j (fst r)) (\<lambda>_. if snd r then throw EIO else Rename tmp p)"
  obtain w s1 where w: "write_inode j (fst r) s = (w, s1)" by fastforce
  have g1: "guarded K A q i x s1" by (rule keepsD [OF guarded_write [OF assms(4)] assms(2) w])
  have fail: "\<exists>e. fst (?m s) = Inl e" using assms(1) by (auto simp: commit_state split: prod.splits sum.splits)
  have "fst (Rename tmp p s1) = Inl e' \<Longrightarrow> guarded K A q i x (snd (Rename tmp p s1))" for e'
    using g1 by (auto simp: Rename_def syscall_def Let_def split: option.splits node.splits if_splits)
  then have "guarded K A q i x (snd (?m s))"
    using fail w g1 by (auto simp: bind_def throw_def split: sum.splits if_splits)
  then show ?thesis
    using guarded_Remove [OF tq, of K A i x] by (auto simp: commit_state keeps_def split: prod.splits)
qed

lemma commit_succeeded:
  assumes "fst (commit p tmp j r s) = Inr ()" and "entry s tmp = Some (File j)"
    and "ino_data (inodes s j) = []" and "tmp \<noteq> p" and "p \<noteq> []" and "tmp \<noteq> []"
  shows "\<not> snd r \<and> content (snd (commit p tmp j r s)) p = Some (fst r)"
proof -
  let ?m = "bind (write_inode j (fst r)) (\<lambda>_. if snd r then throw EIO else Rename tmp p)"
  obtain w s1 where w: "write_inode j (fst r) s = (w, s1)" by fastforce
  have ok: "fst (?m s) = Inr ()" using assms(1) by (auto simp: commit_state split: prod.splits sum.splits)
  then have wr: "w = Inr ()" "\<not> snd r" "fst (Rename tmp p s1) = Inr ()"
    using w by (auto simp: bind_def throw_def split: sum.splits if_splits)
  have s1: "ino_data (inodes s1 j) = fst r" "entry s1 tmp = Some (File j)"
    using w wr(1) assms(2,3) by (auto simp: write_inode_def Let_def split: option.splits)
  let ?s2 = "snd (Rename tmp p s1)"
  have s2: "entry ?s2 p = Some (File j)" "inodes ?s2 = inodes s1"
    using wr(3) s1(2) assms(5)
    by (auto simp: Rename_def syscall_def Let_def entry_set_entry split: option.splits node.splits if_splits)
  have "entry (snd (Remove tmp ?s2)) p = entry ?s2 p" "inodes (snd (Remove tmp ?s2)) = inodes ?s2"
    using assms(4-6)
    by (auto simp: Remove_def syscall_def Let_def entry_drop_entries split: option.splits node.splits)
  then show ?thesis using wr w s1 s2
    by (auto simp: commit_state bind_def content_def split: prod.splits)
qed

lemma Put_cases:
  assumes "blob_path Root key = Inr p" and "Put pick Root key r s = (res, s')"
  obtains (early) e where "res = Inl e"
      "\<And>q x. inodes_ok s \<Longrightarrow> content s q = Some x \<Longrightarrow> content s' q = Some x"
  | (late) tmp j s2 where "commit p tmp j r s2 = (res, s')" "entry s2 tmp = Some (File j)"
      "ino_data (inodes s2 j) = []" "prefix ''.tmp-'' (last tmp)" "tmp \<noteq> []"
      "\<And>K A q i x. guarded K A q i x s \<Longrightarrow> guarded K A q i x s2 \<and> i \<noteq> j"
proof -
  obtain r1 s1 where m: "MkdirAll (butlast p) mode_755 s = (r1, s1)" by fastforce
  have g1: "guarded K A q i x s1" if "guarded K A q i x s" for K A q i x
    using that m keepsD [OF guarded_MkdirAll] by blast
  obtain r2 s2 where c: "CreateTemp pick (butlast p) s1 = (r2, s2)" by fastforce
  have g2: "guarded K A q i x s2" if "guarded K A q i x s" for K A q i x
    using g1 [OF that] c keepsD [OF CreateTemp_guarded] by blast
  have keep: "content s1 q = Some x \<and> content s2 q = Some x" if "inodes_ok s" "content s q = Some x" for q x
    using that g1 g2 guarded_content by (metis content_guarded)
  show thesis
  proof (cases r1)
    case (Inl e)
    then show thesis using assms m keep by (intro early [of "OS e"])
      (auto simp: Put_def with_path_def bind_def wrap_def)
  next
    case r1: (Inr u)
    show thesis
    proof (cases r2)
      case (Inl e)
      then show thesis using assms m c r1 keep by (intro early [of "OS e"])
        (auto simp: Put_def with_path_def bind_def wrap_def)
    next
      case (Inr tj)
      obtain tmp j where tj: "tj = (tmp, j)" by (cases tj)
      note fresh = CreateTemp_fresh [OF c [unfolded Inr tj]]
      have "commit p tmp j r s2 = (res, s')"
        using assms m c r1 Inr tj by (simp add: Put_def with_path_def bind_def wrap_def commit_def)
      moreover have "i \<noteq> j" if "guarded K A q i x s" for K A q i x
        using g1 [OF that] fresh(3) by (auto simp: guarded_def)
      moreover have "entry s2 tmp = Some (File j)" using fresh(4) [of tmp] by simp
      ultimately show thesis using fresh(1,5) g2 by (intro late [of tmp j s2]) auto
    qed
  qed
qed

lemma read_back:
  assumes "blob_path Root key = Inr p" and "content s p = Some x"
    and "faults s SysOpen (clock s) = None"
  shows "fst (bind (Get Root key) read_inode s) = Inr x"
  using assms by (auto simp: Get_def with_path_def wrap_def Open_def syscall_def Let_def bind_def
      read_inode_def content_File)

subsection \<open>What a client may rely on\<close>

text \<open>
  Fetching a blob into a file writes to that file only: every file that has no name in
  common with the destination keeps its content, whatever system calls fail.
\<close>

locale blob_store =
  fixes get_to_file :: "string \<Rightarrow> path \<Rightarrow> (blob_error, unit) io"
  assumes fetch_elsewhere: "dst \<notin> A \<Longrightarrow> keeps (guarded K A p i x) (get_to_file key dst)"
begin

lemma fetch_content:
  assumes "guarded K A p i x s" and "dst \<notin> A" and "get_to_file key dst s = (r, s')"
  shows "content s' p = Some x"
  using keepsD [OF fetch_elsewhere [OF assms(2)] assms(1) assms(3)] by (rule guarded_content)

end

lemma GetToFile_elsewhere:
  assumes "dst \<notin> A"
  shows "keeps (guarded K A p i x) (GetToFile Root key dst)"
proof -
  have "keeps (guarded K A p i x) (Get Root key)"
    by (auto simp: Get_def with_path_def intro: keeps_rules split: sum.split)
  moreover have "keeps (guarded K A p i x)
      (bind (wrap OS (Create dst 438)) (\<lambda>f. bind (read_inode src) (\<lambda>d. wrap OS (write_inode f d))))"
    for src
  proof (rule keepsI)
    fix s assume g: "guarded K A p i x s"
    obtain r s1 where c: "Create dst 438 s = (r, s1)" by fastforce
    have "guarded K A p i x s1" "\<forall>j. r = Inr j \<longrightarrow> j \<noteq> i"
      using Create_result [OF g assms, of 438] c by auto
    moreover have "keeps (guarded K A p i x) (bind (read_inode src) (\<lambda>d. wrap OS (write_inode j d)))"
      if "j \<noteq> i" for j
      using that by (auto intro!: keeps_rules guarded_write)
    ultimately show "guarded K A p i x (snd (bind (wrap OS (Create dst 438))
        (\<lambda>f. bind (read_inode src) (\<lambda>d. wrap OS (write_inode f d))) s))"
      using c by (cases r) (auto simp: bind_def [of "wrap OS (Create dst 438)"] wrap_def [of OS "Create dst 438"] keeps_def)
  qed
  ultimately show ?thesis unfolding GetToFile_def
    by (blast intro: keeps_bind keeps_wrap [OF guarded_MkdirAll])
qed

interpretation local: blob_store "GetToFile Root"
  by unfold_locales (rule GetToFile_elsewhere)

subsection \<open>Properties\<close>

text \<open>
  C32: a key never names a file outside the store's root directory, whatever \<open>..\<close>, empty or
  absolute components it has, and two keys share a file only when they are the same key after
  cleaning.
\<close>

theorem blob_path_safe:
  assumes "blob_path Root key = Inr p"
  shows "(\<exists>rel. p = Root @ rel \<and> (\<forall>c \<in> set rel. plain c)) \<and>
         (\<forall>key'. blob_path Root key' = Inr p \<longrightarrow> clean_key key' = clean_key key)"
  using blob_path_confined [OF assms] blob_path_inj [OF _ assms] by blast

theorem blob_path_safe_witness:
  "\<exists>p rel. blob_path [''data''] ''/a/../../b/0.in'' = Inr p \<and> p = [''data''] @ rel \<and>
     (\<forall>c \<in> set rel. plain c)"
proof -
  have "blob_path [''data''] ''/a/../../b/0.in'' = Inr [''data'', ''b'', ''0.in'']" by code_simp
  from blob_path_safe [OF this] this show ?thesis by blast
qed

text \<open>
  C31: \<open>Put\<close> is atomic and durable: after it returns without error the key reads back as
  exactly the bytes written; if it fails, at any system call, every blob reads as before; and
  in no case does it change another blob.
\<close>

theorem Put_atomic:
  assumes "inodes_ok s" and "blob_path Root key = Inr p" and "p \<noteq> []"
    and "\<not> prefix ''.tmp-'' (last p)" and "Put pick Root key r s = (res, s')"
  shows "(res = Inr () \<longrightarrow> content s' p = Some (fst r) \<and>
            (faults s' SysOpen (clock s') = None \<longrightarrow>
               fst (bind (Get Root key) read_inode s') = Inr (fst r))) \<and>
         (\<forall>q x. content s q = Some x \<and> (q \<noteq> p \<or> res \<noteq> Inr ()) \<longrightarrow> content s' q = Some x)"
  using assms(2,5)
proof (cases rule: Put_cases)
  case (early e)
  then show ?thesis using assms(1) by simp
next
  case (late tmp j s2)
  have tp: "tmp \<noteq> p" using late(4) assms(4) by auto
  have c: "content s' p = Some (fst r)" if "res = Inr ()"
    using commit_succeeded [OF _ late(2,3) tp assms(3) late(5), of r] late(1) that by simp
  have "content s' q = Some x" if old: "content s q = Some x" "q \<noteq> p \<or> res \<noteq> Inr ()" for q x
  proof -
    obtain i where g: "guarded {} {q'. entry s q' = Some (File i)} q i x s"
      by (rule content_guarded [OF assms(1) old(1)])
    note g2 = late(6) [OF g]
    have ji: "j \<noteq> i" using g2 by auto
    have "guarded {} {q'. entry s q' = Some (File i)} q i x s'"
      using old(2) commit_guarded [OF conjunct1 [OF g2] late(2) ji _ assms(3), of r]
        commit_failed [OF _ conjunct1 [OF g2] late(2) ji, of p r] late(1)
      by (cases res) auto
    then show ?thesis by (rule guarded_content)
  qed
  then show ?thesis using c read_back [OF assms(2)] by blast
qed

text \<open>An empty disk whose system calls succeed.\<close>

definition blank_fs :: fs where
  "blank_fs = \<lparr>tree = [], inode_table = [], next_ino = 0, umask = 0,
     clock = 0, faults = (\<lambda>_ _. None)\<rparr>"

theorem Put_atomic_witness:
  "\<exists>s'. Put (\<lambda>_. ''7'') [''data''] ''0.in'' (''42'', False) blank_fs = (Inr (), s') \<and>
        content s' [''data'', ''0.in''] = Some ''42''"
proof -
  have p: "blob_path [''data''] ''0.in'' = Inr [''data'', ''0.in'']" by code_simp
  have ok: "inodes_ok blank_fs" by (simp add: inodes_ok_def blank_fs_def entry_def)
  have "fst (Put (\<lambda>_. ''7'') [''data''] ''0.in'' (''42'', False) blank_fs) = Inr ()"
    by code_simp
  then obtain s' where s': "Put (\<lambda>_. ''7'') [''data''] ''0.in'' (''42'', False) blank_fs = (Inr (), s')"
    by (cases "Put (\<lambda>_. ''7'') [''data''] ''0.in'' (''42'', False) blank_fs") auto
  then show ?thesis using Put_atomic [OF ok p _ _ s'] by simp
qed

end
