(* ===== verification/Judge.thy ===== *)
theory Judge
  imports Blob Langs FloatChecker Scoring
begin

section \<open>The judge (\<^verbatim>\<open>internal/judge/judge.go\<close>)\<close>

text \<open>
  \<open>Run\<close> turns a job into a result: prepare the workspace, fetch the source, compile once,
  stash the artefacts, run the tests one by one. It works on the file system of
  \<open>FileSys\<close>, as actions that may fail at every system call. The sandbox and the blob store
  are the interfaces of \<^verbatim>\<open>internal/ports\<close>, fields of the record \<open>Judge\<close>: an execution is an
  arbitrary action on the file system. So are the clock, the cancellation of the context and
  the printing of a checker's diagnostic. Paths are joined with \<open>filepath.Clean\<close>'s rules.
\<close>

record RunSpec =
  rs_Image :: string
  rs_Cmd :: "string list"
  rs_BoxDir :: path
  rs_StdinPath :: string
  rs_Limits :: Limits
  rs_Env :: "string list"
  rs_CPUSet :: string
  rs_Network :: bool
  rs_DisableASLR :: bool
  rs_Name :: string

record Judge =
  j_Sandbox :: "RunSpec \<Rightarrow> (string, ExecOutcome) io"
  j_Blobs :: "string \<Rightarrow> path \<Rightarrow> (blob_error, unit) io"
  j_Langs :: Registry
  j_BoxRoot :: path
  j_CacheRoot :: path
  j_RunnerID :: string
  j_CPUModel :: string
  j_now :: gotime
  j_done :: "nat \<Rightarrow> bool"
  j_print :: "checker_msg \<Rightarrow> string"

datatype judge_error =
    UnknownLanguage string
  | CheckerLookup registry_error
  | PrepareWorkspace os_error
  | FetchSource blob_error
  | CompileSandbox string
  | StashArtefacts os_error
  | Cancelled
  | ResetFailed os_error
  | FetchTestdata "os_error + blob_error"
  | CopyInput os_error
  | RunSandbox string
  | CheckFailed checker_error

definition Join :: "path \<Rightarrow> string list \<Rightarrow> path" where
  "Join p names = clean_comps (rev p) (concat (map split_slash names))"

subsection \<open>Helpers\<close>

definition copyFile :: "path \<Rightarrow> path \<Rightarrow> (os_error, unit) io" where
  "copyFile src dst =
     bind (Open src) (\<lambda>i.
     bind (mode_of i) (\<lambda>mode.
     bind (Create dst mode) (\<lambda>f.
     bind (read_inode i) (\<lambda>d.
     bind (write_inode f d) (\<lambda>_.
     Chmod dst mode)))))"

definition artefact_of_run :: "string \<Rightarrow> bool" where
  "artefact_of_run name \<longleftrightarrow> name \<in> {''stdout'', ''stderr'', ''meta.json'', ''input''}"

text \<open>
  \<open>copyTree\<close> descends into directories. A path holds at most 4096 bytes, hence 2048 nested
  components; deeper down every call fails, which bounds the recursion.
\<close>

fun copy_tree :: "nat \<Rightarrow> path \<Rightarrow> path \<Rightarrow> (os_error, unit) io" where
  "copy_tree 0 src dst = throw EIO"
| "copy_tree (Suc n) src dst =
     bind (ReadDir src) (each (\<lambda>(name, e).
       let s = src @ [name]; d = dst @ [name]
       in case e of
            Dir _ \<Rightarrow> bind (MkdirAll d mode_777) (\<lambda>_. copy_tree n s d)
          | File _ \<Rightarrow> if artefact_of_run name then ret () else copyFile s d))"

definition copyTree :: "path \<Rightarrow> path \<Rightarrow> (os_error, unit) io" where
  "copyTree = copy_tree 2048"

definition resetBox :: "path \<Rightarrow> path \<Rightarrow> (os_error, unit) io" where
  "resetBox boxDir stashDir =
     bind (ReadDir boxDir) (\<lambda>entries.
     bind (each (\<lambda>(name, _). ignore (RemoveAll (boxDir @ [name]))) entries) (\<lambda>_.
     copyTree stashDir boxDir))"

definition truncated_mark :: string where
  "truncated_mark = CHR 0x0A # ''... [truncated]''"

definition readCapped :: "path \<Rightarrow> nat \<Rightarrow> ('e, string) io" where
  "readCapped p cap =
     bind (attempt (ReadFile p)) (\<lambda>r. case r of
       Inl _ \<Rightarrow> ret []
     | Inr d \<Rightarrow> ret (take cap d @ (if length d > cap then truncated_mark else [])))"

definition printable :: "nat \<Rightarrow> bool" where
  "printable r \<longleftrightarrow>
     (if r = 0x0A \<or> r = 0x09 then True
      else if r = 0x1B then False
      else if r < 0x20 \<or> r = 0x7F then False
      else True)"

definition sanitize :: "string \<Rightarrow> string" where
  "sanitize s = concat (map (\<lambda>r. if printable (fst r) then EncodeRune (fst r) else []) (runes s))"

definition short :: "string \<Rightarrow> string" where
  "short i = (if length i > 8 then take 8 i else i)"

subsection \<open>One test\<close>

definition fetch_if_missing ::
  "Judge \<Rightarrow> string \<Rightarrow> path \<Rightarrow> (os_error + blob_error, unit) io" where
  "fetch_if_missing j ref p =
     bind (attempt (Stat p)) (\<lambda>r. case r of
       Inr _ \<Rightarrow> ret ()
     | Inl _ \<Rightarrow> wrap Inr (j_Blobs j ref p))"

definition testdata_dir :: "Judge \<Rightarrow> JobSpec \<Rightarrow> path" where
  "testdata_dir j job = Join (j_CacheRoot j) [job_TestdataVersion job, job_ProblemID job]"

definition in_path :: "Judge \<Rightarrow> JobSpec \<Rightarrow> TestRef \<Rightarrow> path" where
  "in_path j job tc = Join (testdata_dir j job) [itoa (ref_Index tc) @ ''.in'']"

definition exp_path :: "Judge \<Rightarrow> JobSpec \<Rightarrow> TestRef \<Rightarrow> path" where
  "exp_path j job tc = Join (testdata_dir j job) [itoa (ref_Index tc) @ ''.out'']"

definition testdata ::
  "Judge \<Rightarrow> JobSpec \<Rightarrow> TestRef \<Rightarrow> (os_error + blob_error, path \<times> path) io" where
  "testdata j job tc =
     bind (wrap Inl (MkdirAll (testdata_dir j job) mode_755)) (\<lambda>_.
     bind (fetch_if_missing j (ref_InputRef tc) (in_path j job tc)) (\<lambda>_.
     bind (fetch_if_missing j (ref_OutputRef tc) (exp_path j job tc)) (\<lambda>_.
     ret (in_path j job tc, exp_path j job tc))))"

definition run_spec ::
  "JobSpec \<Rightarrow> Manifest \<Rightarrow> TestRef \<Rightarrow> path \<Rightarrow> string \<Rightarrow> RunSpec" where
  "run_spec job m tc boxDir cpuset =
     \<lparr>rs_Image = m_Image m, rs_Cmd = m_Run m, rs_BoxDir = boxDir, rs_StdinPath = ''/box/input'',
      rs_Limits = Run (job_Limits job), rs_Env = m_Env m, rs_CPUSet = cpuset,
      rs_Network = Network (job_Policy job), rs_DisableASLR = DisableASLR (job_Policy job),
      rs_Name = ''arena-r-'' @ short (job_SubmissionID job) @ ''-'' @ itoa (ref_Index tc)\<rparr>"

definition terminated_cleanly :: "ExecOutcome \<Rightarrow> bool" where
  "terminated_cleanly out \<longleftrightarrow>
     out_ExitCode out = 0 \<and> out_Signal out = 0 \<and> \<not> out_WallKill out \<and> \<not> out_OOMKilled out"

definition read_opt :: "path \<Rightarrow> (judge_error, string option) io" where
  "read_opt p = bind (attempt (ReadFile p)) (\<lambda>r. ret (case r of Inl _ \<Rightarrow> None | Inr d \<Rightarrow> Some d))"

definition check_output ::
  "Judge \<Rightarrow> JobSpec \<Rightarrow> Checker \<Rightarrow> path \<Rightarrow> path \<Rightarrow> ExecOutcome \<Rightarrow> (judge_error, bool \<times> checker_msg) io" where
  "check_output j job chk expPath outPath out =
     (if terminated_cleanly out
      then bind (read_opt expPath) (\<lambda>e.
           bind (read_opt outPath) (\<lambda>a.
           case chk e a (job_Checker job) of Inl err \<Rightarrow> throw (CheckFailed err) | Inr r \<Rightarrow> ret r))
      else ret (False, NoMsg))"

definition test_result ::
  "Judge \<Rightarrow> TestRef \<Rightarrow> ExecOutcome \<Rightarrow> Verdict \<Rightarrow> checker_msg \<Rightarrow> string \<Rightarrow> TestResult" where
  "test_result j tc out verdict msg sample =
     zero_TestResult
       \<lparr>t_Index := ref_Index tc, t_Verdict := verdict,
        t_CPUms := out_CPUms out, t_WallMs := out_WallMs out, t_MemKB := out_MaxRSSKB out,
        t_ExitCode := out_ExitCode out, t_Signal := out_Signal out,
        t_Message := (if verdict = VerdictWA \<and> msg \<noteq> NoMsg then j_print j msg else []),
        t_SampleOut := sample\<rparr>"

definition link_input :: "path \<Rightarrow> path \<Rightarrow> (judge_error, unit) io" where
  "link_input inPath boxIn =
     bind (ignore (Remove boxIn)) (\<lambda>_.
     bind (attempt (Link inPath boxIn)) (\<lambda>r.
     bind (case r of Inr _ \<Rightarrow> ret () | Inl _ \<Rightarrow> wrap CopyInput (copyFile inPath boxIn)) (\<lambda>_.
     ignore (Chmod boxIn mode_644))))"

definition runOne ::
  "Judge \<Rightarrow> JobSpec \<Rightarrow> Manifest \<Rightarrow> Checker \<Rightarrow> TestRef \<Rightarrow> path \<Rightarrow> path \<Rightarrow> string \<Rightarrow>
   (judge_error, TestResult) io" where
  "runOne j job m chk tc boxDir stashDir cpuset =
     bind (wrap ResetFailed (resetBox boxDir stashDir)) (\<lambda>_.
     bind (wrap FetchTestdata (testdata j job tc)) (\<lambda>(inPath, expPath).
     bind (link_input inPath (boxDir @ [''input''])) (\<lambda>_.
     bind (wrap RunSandbox (j_Sandbox j (run_spec job m tc boxDir cpuset))) (\<lambda>out.
     bind (check_output j job chk expPath (boxDir @ [''stdout'']) out) (\<lambda>(correct, msg).
     let verdict = ClassifyRun out (Run (job_Limits job)) correct
     in bind (if ref_IsSample tc
              then bind (readCapped (boxDir @ [''stdout'']) 2000) (\<lambda>x. ret (sanitize x))
              else ret []) (\<lambda>sample.
        ret (test_result j tc out verdict msg sample)))))))"

subsection \<open>A submission\<close>

definition skipped_tests :: "TestRef list \<Rightarrow> TestRef \<Rightarrow> TestResult list" where
  "skipped_tests tests tc =
     map (\<lambda>r. zero_TestResult\<lparr>t_Index := ref_Index r, t_Verdict := VerdictAC, t_Skipped := True\<rparr>)
         (filter (\<lambda>r. ref_Index r > ref_Index tc) tests)"

definition check_ctx :: "Judge \<Rightarrow> (judge_error, unit) io" where
  "check_ctx j s = (if j_done j (clock s) then (Inl Cancelled, s) else (Inr (), s))"

fun run_tests ::
  "Judge \<Rightarrow> JobSpec \<Rightarrow> (TestRef \<Rightarrow> (judge_error, TestResult) io) \<Rightarrow> TestRef list \<Rightarrow> TestResult list \<Rightarrow>
   (judge_error, TestResult list) io" where
  "run_tests j job one [] results = ret results"
| "run_tests j job one (tc # tcs) results =
     bind (check_ctx j) (\<lambda>_.
     bind (one tc) (\<lambda>tr.
     if StopOnFirstFailure (job_Policy job) \<and> \<not> IsAccepted (t_Verdict tr)
     then ret (results @ [tr] @ skipped_tests (job_Tests job) tc)
     else run_tests j job one tcs (results @ [tr])))"

definition compile_spec ::
  "JobSpec \<Rightarrow> Manifest \<Rightarrow> path \<Rightarrow> string \<Rightarrow> RunSpec" where
  "compile_spec job m boxDir cpuset =
     \<lparr>rs_Image = m_Image m, rs_Cmd = m_Compile m, rs_BoxDir = boxDir, rs_StdinPath = [],
      rs_Limits = Compile (job_Limits job), rs_Env = m_Env m, rs_CPUSet = cpuset,
      rs_Network = False, rs_DisableASLR = False,
      rs_Name = ''arena-c-'' @ short (job_SubmissionID job)\<rparr>"

text \<open>The compile step: \<open>None\<close> to go on with the tests, or the log of a compile error.\<close>

definition compile ::
  "Judge \<Rightarrow> JobSpec \<Rightarrow> Manifest \<Rightarrow> path \<Rightarrow> string \<Rightarrow> (judge_error, string option) io" where
  "compile j job m boxDir cpuset =
     (if \<not> NeedsCompile m then ret None
      else bind (wrap CompileSandbox (j_Sandbox j (compile_spec job m boxDir cpuset))) (\<lambda>out.
        if out_ExitCode out \<noteq> 0 \<or> out_Signal out \<noteq> 0
        then bind (readCapped (boxDir @ [''stderr'']) 8000) (\<lambda>x.
             let clog = sanitize x
             in ret (Some (if clog = [] \<and> out_WallKill out then ''compilation timed out'' else clog)))
        else ret None))"

definition initial_result :: "Judge \<Rightarrow> JobSpec \<Rightarrow> SubmissionResult" where
  "initial_result j job = zero_SubmissionResult
     \<lparr>r_SubmissionID := job_SubmissionID job, r_Attempt := job_Attempt job,
      r_RunnerID := j_RunnerID j, r_Status := StatusDone, r_FailedTest := - 1,
      r_ImageDigest := job_ImageDigest job, r_CPUModel := j_CPUModel j, r_JudgedAt := j_now j\<rparr>"

definition summarise :: "SubmissionResult \<Rightarrow> JobSpec \<Rightarrow> TestResult list \<Rightarrow> SubmissionResult" where
  "summarise res job tests =
     (case Aggregate tests of (v, cpuMs, wallMs, memKB, failed) \<Rightarrow>
        res\<lparr>r_Tests := tests, r_Verdict := v, r_CPUms := cpuMs, r_WallMs := wallMs,
            r_MemKB := memKB, r_FailedTest := failed,
            r_Score := TestPoints tests (job_Tests job)\<rparr>)"

definition slot_dir :: "Judge \<Rightarrow> int \<Rightarrow> path" where
  "slot_dir j slot = Join (j_BoxRoot j) [j_RunnerID j, ''slot-'' @ itoa slot]"

definition prepare :: "path \<Rightarrow> (judge_error, unit) io" where
  "prepare d =
     bind (ignore (RemoveAll d)) (\<lambda>_.
     bind (wrap PrepareWorkspace (MkdirAll d mode_777)) (\<lambda>_.
     ignore (Chmod d mode_777)))"

definition judge_in ::
  "Judge \<Rightarrow> JobSpec \<Rightarrow> Manifest \<Rightarrow> Checker \<Rightarrow> path \<Rightarrow> path \<Rightarrow> string \<Rightarrow>
   (judge_error, SubmissionResult) io" where
  "judge_in j job m chk boxDir stashDir cpuset =
     bind (wrap FetchSource (j_Blobs j (job_SourceRef job) (Join boxDir [m_SourceFile m]))) (\<lambda>_.
     bind (compile j job m boxDir cpuset) (\<lambda>failure. case failure of
       Some clog \<Rightarrow> ret ((initial_result j job)\<lparr>r_Verdict := VerdictCE, r_CompileLog := clog\<rparr>)
     | None \<Rightarrow>
         bind (wrap StashArtefacts (copyTree boxDir stashDir)) (\<lambda>_.
         bind (run_tests j job (\<lambda>tc. runOne j job m chk tc boxDir stashDir cpuset) (job_Tests job) [])
           (\<lambda>tests. ret (summarise (initial_result j job) job tests)))))"

definition Judge_Run :: "Judge \<Rightarrow> registry \<Rightarrow> JobSpec \<Rightarrow> int \<Rightarrow> (judge_error, SubmissionResult) io" where
  "Judge_Run j registry job slot =
     (case Langs.Get (j_Langs j) (job_Language job) of
        None \<Rightarrow> throw (UnknownLanguage (job_Language job))
      | Some m \<Rightarrow> (case Checker.Get registry (chk_Type (job_Checker job)) of
          Inl e \<Rightarrow> throw (CheckerLookup e)
        | Inr chk \<Rightarrow>
            (let boxDir = slot_dir j slot @ [''box'']; stashDir = slot_dir j slot @ [''stash'']
             in bind (each prepare [boxDir, stashDir]) (\<lambda>_.
                finally_do (judge_in j job m chk boxDir stashDir (itoa (i64 (slot + 1))))
                           (RemoveAll boxDir)))))"

subsection \<open>Sanitised text\<close>

lemma sanitize_encoded:
  "sanitize s = concat (map EncodeRune (filter printable (map fst (runes s))))"
proof -
  have "concat (map (\<lambda>r. if printable (fst r) then EncodeRune (fst r) else []) rs) =
        concat (map EncodeRune (filter printable (map fst rs)))" for rs :: "(nat \<times> string) list"
    by (induction rs) simp_all
  then show ?thesis by (simp add: sanitize_def)
qed

lemma sanitize_runes: "map fst (runes (sanitize s)) = filter printable (map fst (runes s))"
proof -
  have "list_all valid_rune (filter printable (map fst (runes s)))"
    using runes_valid [of _ s] by (auto simp: list_all_iff)
  then show ?thesis unfolding sanitize_encoded by (rule runes_encoded)
qed

subsection \<open>The tests of a submission\<close>

lemma runOne_result:
  assumes "runOne j job m chk tc boxDir stashDir cpuset s = (Inr tr, s')"
  shows "t_Index tr = ref_Index tc" and "\<not> t_Skipped tr"
    and "\<not> ref_IsSample tc \<Longrightarrow> t_SampleOut tr = []"
    and "\<exists>out correct. t_Verdict tr = ClassifyRun out (Run (job_Limits job)) correct"
proof -
  obtain out verdict msg sample correct where
    tr: "tr = test_result j tc out verdict msg sample"
    and v: "verdict = ClassifyRun out (Run (job_Limits job)) correct"
    and smp: "\<not> ref_IsSample tc \<longrightarrow> sample = []"
    using assms unfolding runOne_def by (auto simp: io_succeeds Let_def split: prod.splits if_splits)
  show "t_Index tr = ref_Index tc" "\<not> t_Skipped tr" "\<not> ref_IsSample tc \<Longrightarrow> t_SampleOut tr = []"
    "\<exists>out correct. t_Verdict tr = ClassifyRun out (Run (job_Limits job)) correct"
    using tr v smp by (auto simp: test_result_def zero_TestResult_def)
qed

lemma read_opt_content:
  assumes "read_opt p s = (Inr x, s')"
  shows "content s' q = content s q" and "x = Some d \<Longrightarrow> content s p = Some d"
  using assms
  by (auto simp: read_opt_def ReadFile_def Open_def syscall_def Let_def bind_def attempt_def ret_def
      read_inode_def content_def split: option.splits node.splits sum.splits)

lemma check_output_reads:
  assumes "check_output j job chk p q out s = (Inr r, s')" and "terminated_cleanly out"
  obtains e a s2 where "read_opt p s = (Inr e, s2)" "read_opt q s2 = (Inr a, s')"
    "chk e a (job_Checker job) = Inr r"
proof -
  obtain e s2 a s3 where r: "read_opt p s = (Inr e, s2)" "read_opt q s2 = (Inr a, s3)"
    and k: "(case chk e a (job_Checker job) of Inl err \<Rightarrow> throw (CheckFailed err) | Inr r \<Rightarrow> ret r) s3 = (Inr r, s')"
    using assms by (auto simp: check_output_def bind_Inr)
  then show thesis
    using that by (cases "chk e a (job_Checker job)") (auto simp: ret_Inr throw_Inr)
qed

lemma ClassifyRun_WA:
  assumes "ClassifyRun out lims correct = VerdictWA"
  shows "terminated_cleanly out" and "\<not> correct"
  using assms by (auto simp: ClassifyRun_def terminated_cleanly_def go_simps split: if_splits)

text \<open>
  A complete or an early-stopped series of runs: every test that ran, in order, then, after
  an early stop, the tests with a larger index, marked as skipped.
\<close>

definition series :: "JobSpec \<Rightarrow> TestRef list \<Rightarrow> TestResult list \<Rightarrow> TestResult list \<Rightarrow> bool" where
  "series job tcs ex rest \<longleftrightarrow>
     map t_Index ex = map ref_Index (take (length ex) tcs) \<and> length ex \<le> length tcs \<and>
     (\<forall>t \<in> set ex. \<not> t_Skipped t) \<and>
     ((length ex = length tcs \<and> rest = [] \<and>
       (StopOnFirstFailure (job_Policy job) \<longrightarrow> (\<forall>t \<in> set ex. IsAccepted (t_Verdict t)))) \<or>
      (StopOnFirstFailure (job_Policy job) \<and> ex \<noteq> [] \<and> \<not> IsAccepted (t_Verdict (last ex)) \<and>
       (\<forall>t \<in> set (butlast ex). IsAccepted (t_Verdict t)) \<and>
       rest = skipped_tests (job_Tests job) (tcs ! (length ex - 1))))"

lemma series_Cons:
  assumes "series job tcs ex rest" and "t_Index tr = ref_Index tc" and "\<not> t_Skipped tr"
    and "StopOnFirstFailure (job_Policy job) \<longrightarrow> IsAccepted (t_Verdict tr)"
  shows "series job (tc # tcs) (tr # ex) rest"
  using assms by (cases ex) (auto simp: series_def)

lemma series_stop:
  assumes "t_Index tr = ref_Index tc" and "\<not> t_Skipped tr"
    and "StopOnFirstFailure (job_Policy job)" and "\<not> IsAccepted (t_Verdict tr)"
  shows "series job (tc # tcs) [tr] (skipped_tests (job_Tests job) tc)"
  using assms by (auto simp: series_def)

lemma run_tests_series:
  assumes "run_tests j job one tcs acc s = (Inr results, s')"
    and "\<And>tc s tr s'. one tc s = (Inr tr, s') \<Longrightarrow> t_Index tr = ref_Index tc \<and> \<not> t_Skipped tr"
  shows "\<exists>ex rest. results = acc @ ex @ rest \<and> series job tcs ex rest"
  using assms(1)
proof (induction tcs arbitrary: acc s)
  case Nil
  then show ?case
    by (intro exI [of _ "[]"]) (simp add: io_succeeds series_def)
next
  case (Cons tc tcs)
  then obtain tr s2 s3 where one: "one tc s2 = (Inr tr, s3)"
    and k: "(if StopOnFirstFailure (job_Policy job) \<and> \<not> IsAccepted (t_Verdict tr)
         then ret (acc @ [tr] @ skipped_tests (job_Tests job) tc)
         else run_tests j job one tcs (acc @ [tr])) s3 = (Inr results, s')"
    by (auto simp: bind_Inr)
  note tr = assms(2) [OF one]
  show ?case
  proof (cases "StopOnFirstFailure (job_Policy job) \<and> \<not> IsAccepted (t_Verdict tr)")
    case True
    then have "results = acc @ [tr] @ skipped_tests (job_Tests job) tc" using k by (simp add: ret_Inr)
    then show ?thesis using series_stop [of tr tc job tcs] tr True by blast
  next
    case False
    then have "run_tests j job one tcs (acc @ [tr]) s3 = (Inr results, s')" using k by (simp only: if_False)
    from Cons.IH [OF this] obtain ex rest where "results = (acc @ [tr]) @ ex @ rest" "series job tcs ex rest"
      by blast
    then show ?thesis using series_Cons [of job tcs ex rest tr tc] tr False
      by (intro exI [of _ "tr # ex"] exI [of _ rest]) auto
  qed
qed

text \<open>The ways a run of the judge can end without an infrastructure error.\<close>

lemma Judge_Run_cases:
  assumes "Judge_Run j registry job slot s = (Inr res, s')"
  obtains (compile_error) clog where
    "res = (initial_result j job)\<lparr>r_Verdict := VerdictCE, r_CompileLog := clog\<rparr>"
  | (tested) m chk cpuset s1 s2 tests where
    "run_tests j job (\<lambda>tc. runOne j job m chk tc (slot_dir j slot @ [''box'']) (slot_dir j slot @ [''stash'']) cpuset)
       (job_Tests job) [] s1 = (Inr tests, s2)"
    "res = summarise (initial_result j job) job tests"
  using assms unfolding Judge_Run_def judge_in_def Let_def
  by (auto simp: io_succeeds split: option.splits sum.splits)

lemma Aggregate_verdict:
  assumes "\<forall>t \<in> set tests. t_Index t \<noteq> - 1"
  shows "fst (Aggregate tests) = (case first_failure tests of None \<Rightarrow> VerdictAC | Some t \<Rightarrow> t_Verdict t)"
  unfolding Aggregate_def foldl_agg_open [OF assms] by simp

lemma Aggregate_failed:
  assumes "\<forall>t \<in> set tests. t_Index t \<noteq> - 1"
  shows "snd (snd (snd (snd (Aggregate tests)))) =
    (case first_failure tests of None \<Rightarrow> - 1 | Some t \<Rightarrow> t_Index t)"
  unfolding Aggregate_def foldl_agg_open [OF assms] by simp

lemma Aggregate_accepted:
  assumes "\<forall>t \<in> set tests. t_Index t \<noteq> - 1"
  shows "fst (Aggregate tests) = VerdictAC \<longleftrightarrow> (\<forall>t \<in> set (judged tests). t_Verdict t = VerdictAC)"
proof (cases "first_failure tests")
  case None
  then have "\<forall>t \<in> set (judged tests). t_Verdict t = VerdictAC"
    by (auto simp: first_failure_def find_None_iff IsAccepted_def)
  then show ?thesis using None by (simp add: Aggregate_verdict [OF assms])
next
  case (Some t)
  then have "t \<in> set (judged tests)" "t_Verdict t \<noteq> VerdictAC"
    unfolding first_failure_def by (auto simp: find_Some_iff IsAccepted_def)
  then show ?thesis using Some by (auto simp: Aggregate_verdict [OF assms])
qed

lemma series_indices:
  assumes "series job (job_Tests job) ex rest" and "t \<in> set (ex @ rest)"
  shows "t_Index t \<in> ref_Index ` set (job_Tests job)"
proof -
  have "t_Index t \<in> set (map ref_Index (take (length ex) (job_Tests job)))" if "t \<in> set ex"
    using assms(1) that unfolding series_def by (metis image_eqI set_map)
  then have "t_Index t \<in> ref_Index ` set (job_Tests job)" if "t \<in> set ex"
    using that by (auto dest: in_set_takeD)
  moreover have "t_Index t \<in> ref_Index ` set (job_Tests job)" if "t \<in> set rest"
    using assms(1) that by (auto simp: series_def skipped_tests_def zero_TestResult_def)
  ultimately show ?thesis using assms(2) by auto
qed

lemma series_judged: "series job tcs ex rest \<Longrightarrow> judged (ex @ rest) = ex"
proof -
  assume s: "series job tcs ex rest"
  have "judged rest = []" using s by (auto simp: series_def judged_def skipped_tests_def zero_TestResult_def)
  moreover have "judged ex = ex" using s by (simp add: series_def judged_def)
  ultimately show ?thesis by (simp add: judged_def)
qed

lemma Judge_Run_series:
  assumes "Judge_Run j registry job slot s = (Inr res, s')"
  obtains (compile_error) clog where
    "res = (initial_result j job)\<lparr>r_Verdict := VerdictCE, r_CompileLog := clog\<rparr>"
  | (tested) ex rest where "series job (job_Tests job) ex rest"
    "res = summarise (initial_result j job) job (ex @ rest)"
  using assms
proof (cases rule: Judge_Run_cases)
  case (compile_error clog)
  then show thesis by (rule that(1))
next
  case (tested m chk cpuset s1 s2 tests)
  have "\<exists>ex rest. tests = [] @ ex @ rest \<and> series job (job_Tests job) ex rest"
    by (rule run_tests_series [OF tested(1)]) (auto dest: runOne_result)
  then show thesis using tested(2) that(2) by auto
qed

lemma summarise_simps [simp]:
  "r_Tests (summarise res job tests) = tests"
  "r_Verdict (summarise res job tests) = fst (Aggregate tests)"
  "r_FailedTest (summarise res job tests) = snd (snd (snd (snd (Aggregate tests))))"
  "r_Score (summarise res job tests) = TestPoints tests (job_Tests job)"
  "r_Status (summarise res job tests) = r_Status res"
  "r_SubmissionID (summarise res job tests) = r_SubmissionID res"
  by (simp_all add: summarise_def split: prod.split)

subsection \<open>The cached test data\<close>

definition writes_clear :: "path set \<Rightarrow> path \<Rightarrow> bool" where
  "writes_clear A dst \<longleftrightarrow>
     (\<forall>q \<in> A. strict_prefix dst q \<longrightarrow> (\<exists>n. artefact_of_run n \<and> q = dst @ [n]))"

lemma guarded_copyFile: "dst \<notin> A \<Longrightarrow> keeps (guarded K A p i d) (copyFile src dst)"
proof -
  assume dst: "dst \<notin> A"
  have "keeps (guarded K A p i d) (bind (Create dst mode) (\<lambda>f. bind (read_inode x) (\<lambda>d.
      bind (write_inode f d) (\<lambda>_. Chmod dst mode))))" for mode x
    using dst by (intro guarded_create_write) (auto intro!: keeps_bind keeps_read_inode guarded_write guarded_Chmod)
  then show ?thesis unfolding copyFile_def by (blast intro: keeps_bind guarded_Open keeps_mode_of)
qed

lemma guarded_copy_tree: "writes_clear A dst \<Longrightarrow> keeps (guarded K A p i d) (copy_tree n src dst)"
proof (induction n arbitrary: src dst)
  case 0
  then show ?case by (auto intro: keeps_rules)
next
  case (Suc n)
  have rec: "writes_clear A (dst @ [name])" for name
    using Suc.prems by (auto simp: writes_clear_def strict_prefix_def prefix_def)
  have plainfile: "dst @ [name] \<notin> A" if "\<not> artefact_of_run name" for name
    using Suc.prems that by (force simp: writes_clear_def strict_prefix_def)
  have "keeps (guarded K A p i d) ((\<lambda>(name, e). let s = src @ [name]; d = dst @ [name]
       in case e of Dir _ \<Rightarrow> bind (MkdirAll d mode_777) (\<lambda>_. copy_tree n s d)
          | File _ \<Rightarrow> if artefact_of_run name then ret () else copyFile s d) x)" for x
    using Suc.IH [OF rec] plainfile
    by (auto simp: Let_def split: prod.split node.split
        intro!: keeps_bind guarded_MkdirAll keeps_ret guarded_copyFile)
  then show ?case by (auto intro!: keeps_bind guarded_ReadDir keeps_each)
qed

lemma guarded_resetBox:
  assumes "writes_clear A boxDir" and "\<not> prefix boxDir p"
  shows "keeps (guarded K A p i d) (resetBox boxDir stashDir)"
proof -
  have "\<not> prefix (boxDir @ [n]) p" for n using assms(2) by (auto simp: prefix_def)
  then show ?thesis unfolding resetBox_def copyTree_def
    using guarded_copy_tree [OF assms(1)]
    by (auto intro!: keeps_bind guarded_ReadDir keeps_each keeps_ignore guarded_RemoveAll split: prod.split)
qed

lemma guarded_link_input:
  assumes "SysRemove \<in> K" and "boxIn \<noteq> p" and "boxIn \<noteq> []"
  shows "keeps (guarded K {p, boxIn} p i d) (link_input inPath boxIn)"
proof (rule keepsI)
  fix s assume g: "guarded K {p, boxIn} p i d s"
  define s1 where "s1 = snd (Remove boxIn s)"
  have g1: "guarded K {p} p i d s1"
    using Remove_unlinks [OF g assms(1,2)] assms(2) by (simp add: s1_def insert_Diff_if)
  obtain r s2 where l: "Link inPath boxIn s1 = (r, s2)" by fastforce
  have ok: "guarded K {p, boxIn} p i d s2 \<and> (\<forall>e. r = Inl e \<longrightarrow> guarded K {p} p i d s2)"
    using Link_guarded [OF g1 assms(2,3) l] by blast
  let ?m = "case r of Inr _ \<Rightarrow> ret () | Inl _ \<Rightarrow> wrap CopyInput (copyFile inPath boxIn)"
  have "guarded K {p, boxIn} p i d (snd (?m s2))"
  proof (cases r)
    case (Inl e)
    have "keeps (guarded K {p} p i d) (wrap CopyInput (copyFile inPath boxIn))"
      using assms(2) by (intro keeps_wrap guarded_copyFile) auto
    then have "guarded K {p} p i d (snd (?m s2))" using ok Inl by (simp add: keeps_def)
    then show ?thesis by (rule guarded_mono) auto
  next
    case (Inr x)
    then show ?thesis using ok by (simp add: ret_def)
  qed
  moreover have "link_input inPath boxIn s = bind ?m (\<lambda>_. ignore (Chmod boxIn mode_644)) s2"
    using l by (simp add: link_input_def bind_def [of "ignore _"] bind_def [of "attempt _"] ignore_def [of "Remove _"]
        attempt_def s1_def)
  moreover have "keeps (guarded K {p, boxIn} p i d) (ignore (Chmod boxIn mode_644))"
    by (intro keeps_ignore guarded_Chmod)
  ultimately show "guarded K {p, boxIn} p i d (snd (link_input inPath boxIn s))"
    by (auto simp: bind_def keeps_def split: prod.split sum.split)
qed

lemma guarded_fetch:
  assumes "blob_store (j_Blobs j)" and "SysStat \<in> K" and "q \<notin> A - {p}"
  shows "keeps (guarded K A p i d) (fetch_if_missing j ref q)"
proof (rule keepsI)
  fix s assume g: "guarded K A p i d s"
  obtain r s1 where st: "Stat q s = (r, s1)" by fastforce
  have g1: "guarded K A p i d s1" by (rule keepsD [OF guarded_Stat g st])
  have f: "faults s SysStat (clock s) = None" using g assms(2) by (auto simp: guarded_def)
  show "guarded K A p i d (snd (fetch_if_missing j ref q s))"
  proof (cases "q \<in> A")
    case True
    then have "entry s q = Some (File i)" using assms(3) g by (auto simp: guarded_def)
    then have "\<exists>n. r = Inr n" using st f by (auto simp: Stat_def syscall_def Let_def)
    then show ?thesis using st g1 by (auto simp: fetch_if_missing_def bind_def attempt_def ret_def)
  next
    case False
    then have "keeps (guarded K A p i d) (wrap Inr (j_Blobs j ref q))"
      using blob_store.fetch_elsewhere [OF assms(1)] by (intro keeps_wrap) blast
    then show ?thesis using st g1
      by (auto simp: fetch_if_missing_def bind_def attempt_def ret_def keeps_def split: sum.split)
  qed
qed

text \<open>
  What is assumed of the surroundings for the integrity of one cached file \<open>p\<close>: it lies
  outside the slot's directory; the blob store keeps its contract; an execution in the box
  changes neither the cached file nor its set of names (it may remove the link in the box);
  the language's source file is not called \<open>input\<close>; and the two system calls whose errors the
  judge ignores or misreads, \<open>Remove\<close> and \<open>Stat\<close>, do not fail on an existing file.
\<close>

definition surroundings ::
  "Judge \<Rightarrow> JobSpec \<Rightarrow> int \<Rightarrow> syscall set \<Rightarrow> path \<Rightarrow> nat \<Rightarrow> string \<Rightarrow> bool" where
  "surroundings j job slot K p i d \<longleftrightarrow>
     (let box = slot_dir j slot @ [''box'']
      in \<not> prefix (slot_dir j slot) p \<and> blob_store (j_Blobs j) \<and>
         SysRemove \<in> K \<and> SysStat \<in> K \<and>
         (\<forall>spec. rs_BoxDir spec = box \<longrightarrow>
            keeps (guarded K {p, box @ [''input'']} p i d) (j_Sandbox j spec)) \<and>
         (\<forall>m. Langs.Get (j_Langs j) (job_Language job) = Some m \<longrightarrow>
            Join box [m_SourceFile m] \<notin> {p, box @ [''input'']}) \<and>
         (\<forall>tc. \<not> prefix (slot_dir j slot) (in_path j job tc) \<and>
               \<not> prefix (slot_dir j slot) (exp_path j job tc)))"

lemma guarded_run_tests:
  assumes "\<And>tc. keeps P (one tc)"
  shows "keeps P (run_tests j job one tcs acc)"
proof (induction tcs arbitrary: acc)
  case (Cons tc tcs)
  have "keeps P (check_ctx j)" by (simp add: keeps_def check_ctx_def)
  then show ?case using Cons assms by (auto intro!: keeps_bind keeps_ret)
qed (auto intro: keeps_ret)

lemma keeps_readCapped: "keeps (guarded K A p i d) (readCapped q n)"
  unfolding readCapped_def ReadFile_def
  by (auto intro!: keeps_rules split: sum.split)

lemma keeps_check_output: "keeps (guarded K A p i d) (check_output j job chk e a out)"
  unfolding check_output_def read_opt_def ReadFile_def
  by (auto intro!: keeps_rules split: sum.split)

lemma box_facts:
  assumes "\<not> prefix slotDir p"
  shows "\<not> prefix (slotDir @ [''box'']) p" and "\<not> prefix (slotDir @ [''stash'']) p"
    and "slotDir @ [''box'', ''input''] \<noteq> p"
    and "writes_clear {p, slotDir @ [''box'', ''input'']} (slotDir @ [''box''])"
    and "writes_clear {p, slotDir @ [''box'', ''input'']} (slotDir @ [''stash''])"
    and "\<not> prefix slotDir q \<Longrightarrow> q \<notin> {p, slotDir @ [''box'', ''input'']} - {p}"
proof -
  show np: "\<not> prefix (slotDir @ [''box'']) p" "\<not> prefix (slotDir @ [''stash'']) p"
    using assms by (auto simp: prefix_def)
  show "slotDir @ [''box'', ''input''] \<noteq> p" using assms by auto
  show "writes_clear {p, slotDir @ [''box'', ''input'']} (slotDir @ [''box''])"
    using np by (auto simp: writes_clear_def artefact_of_run_def strict_prefix_def)
  show "writes_clear {p, slotDir @ [''box'', ''input'']} (slotDir @ [''stash''])"
    using np by (auto simp: writes_clear_def strict_prefix_def prefix_def)
  show "\<not> prefix slotDir q \<Longrightarrow> q \<notin> {p, slotDir @ [''box'', ''input'']} - {p}" by auto
qed

lemma guarded_runOne:
  assumes sur: "surroundings j job slot K p i d"
  shows "keeps (guarded K {p, slot_dir j slot @ [''box'', ''input'']} p i d)
           (runOne j job m chk tc (slot_dir j slot @ [''box'']) (slot_dir j slot @ [''stash'']) cpuset)"
proof -
  let ?slot = "slot_dir j slot"
  let ?box = "?slot @ [''box'']" and ?stash = "?slot @ [''stash'']"
  let ?P = "guarded K {p, ?slot @ [''box'', ''input'']} p i d"
  have np: "\<not> prefix ?slot p" and K: "SysRemove \<in> K" "SysStat \<in> K" and bl: "blob_store (j_Blobs j)"
    using sur by (auto simp: surroundings_def Let_def)
  note b = box_facts [OF np]
  have sb: "keeps ?P (j_Sandbox j (run_spec job m tc ?box cpuset))"
    using sur by (auto simp: surroundings_def Let_def run_spec_def)
  have td: "keeps ?P (testdata j job tc)"
  proof -
    have "in_path j job tc \<notin> {p, ?slot @ [''box'', ''input'']} - {p}"
      "exp_path j job tc \<notin> {p, ?slot @ [''box'', ''input'']} - {p}"
      using sur b(6) by (auto simp: surroundings_def Let_def)
    then show ?thesis unfolding testdata_def
      by (intro keeps_bind keeps_wrap guarded_MkdirAll guarded_fetch bl K keeps_ret)
  qed
  have li: "keeps ?P (link_input q (?slot @ [''box'', ''input'']))" for q
    using guarded_link_input [OF K(1) b(3), of i d q] by simp
  have "keeps ?P (resetBox ?box ?stash)" by (rule guarded_resetBox [OF b(4,1)])
  then show ?thesis unfolding runOne_def Let_def
    by (auto intro!: keeps_bind keeps_wrap td li sb keeps_check_output keeps_readCapped keeps_ret
        split: prod.split)
qed

lemma guarded_Judge_Run:
  assumes sur: "surroundings j job slot K p i d"
  shows "keeps (guarded K {p, slot_dir j slot @ [''box'', ''input'']} p i d)
           (Judge_Run j registry job slot)"
proof -
  let ?slot = "slot_dir j slot"
  let ?box = "?slot @ [''box'']" and ?stash = "?slot @ [''stash'']"
  let ?A = "{p, ?slot @ [''box'', ''input'']}"
  let ?P = "guarded K ?A p i d"
  have np: "\<not> prefix ?slot p" and bl: "blob_store (j_Blobs j)"
    using sur by (auto simp: surroundings_def Let_def)
  note b = box_facts [OF np]
  have prep: "keeps ?P (each prepare [?box, ?stash])"
    unfolding prepare_def using b(1,2)
    by (auto intro!: keeps_each keeps_bind keeps_ignore keeps_wrap guarded_RemoveAll guarded_MkdirAll guarded_Chmod keeps_ret)
  have body: "keeps ?P (judge_in j job m chk ?box ?stash cpuset)"
    if m: "Langs.Get (j_Langs j) (job_Language job) = Some m" for m chk cpuset
  proof -
    have "Join ?box [m_SourceFile m] \<notin> ?A" using sur m by (simp add: surroundings_def Let_def)
    then have src: "keeps ?P (j_Blobs j k (Join ?box [m_SourceFile m]))" for k
      by (rule blob_store.fetch_elsewhere [OF bl])
    have sb: "keeps ?P (j_Sandbox j (compile_spec job m ?box cpuset))"
      using sur by (auto simp: surroundings_def Let_def compile_spec_def)
    have comp: "keeps ?P (compile j job m ?box cpuset)"
      unfolding compile_def Let_def
      by (auto intro!: keeps_bind keeps_wrap sb keeps_readCapped keeps_ret)
    have "keeps ?P (copyTree ?box ?stash)" unfolding copyTree_def by (rule guarded_copy_tree [OF b(5)])
    then show ?thesis unfolding judge_in_def
      by (auto intro!: keeps_bind keeps_wrap src comp keeps_ret guarded_run_tests guarded_runOne [OF sur]
          split: option.split)
  qed
  have "keeps ?P (RemoveAll ?box)" by (rule guarded_RemoveAll [OF b(1)])
  then show ?thesis unfolding Judge_Run_def Let_def using prep body
    by (auto intro!: keeps_throw keeps_bind keeps_finally_do split: option.split sum.split)
qed

subsection \<open>The score after an early stop\<close>

lemma filter_above:
  assumes "sorted_wrt (<) (map f xs)" and "k < length xs"
  shows "filter (\<lambda>x. f (xs ! k) < (f x :: int)) xs = drop (Suc k) xs"
proof -
  have xs: "xs = take k xs @ xs ! k # drop (Suc k) xs" by (rule id_take_nth_drop [OF assms(2)])
  have "sorted_wrt (<) (map f (take k xs) @ f (xs ! k) # map f (drop (Suc k) xs))"
    using assms(1) by (subst (asm) xs) simp
  then have "\<forall>x \<in> set (take k xs). f x < f (xs ! k)" "\<forall>x \<in> set (drop (Suc k) xs). f (xs ! k) < f x"
    by (auto simp: sorted_wrt_append)
  then have "filter (\<lambda>x. f (xs ! k) < f x) (take k xs) = []"
    "filter (\<lambda>x. f (xs ! k) < f x) (drop (Suc k) xs) = drop (Suc k) xs"
    by (auto simp: filter_empty_conv filter_id_conv)
  then have "filter (\<lambda>x. f (xs ! k) < f x) (take k xs @ xs ! k # drop (Suc k) xs) = drop (Suc k) xs"
    by simp
  then show ?thesis using xs by simp
qed

lemma accepted_points_append:
  "accepted_points (xs @ ys) perTest = accepted_points xs perTest + accepted_points ys perTest"
  by (simp add: accepted_points_def)

lemma accepted_points_all:
  assumes "\<forall>t \<in> set ts. IsAccepted (t_Verdict t)" and "map t_Index ts = map ref_Index rs"
    and "set rs \<subseteq> set tests" and "distinct (map ref_Index tests)"
  shows "accepted_points ts tests = sum_list (map ref_Points rs)"
proof -
  have "accepted_points ts tests = sum_list (map (points_at (byIdx tests)) (map t_Index ts))"
    using assms(1) by (simp add: accepted_points_def filter_id_conv o_def)
  also have "\<dots> = sum_list (map (points_at (byIdx tests)) (map ref_Index rs))"
    using assms(2) by simp
  also have "\<dots> = sum_list (map ref_Points rs)"
    using assms(3,4) by (auto simp: points_at_byIdx subset_eq intro!: arg_cong [where f = sum_list])
  finally show ?thesis .
qed

lemma early_stop_points:
  assumes ser: "series job (job_Tests job) (ex @ [t]) (skipped_tests (job_Tests job) (job_Tests job ! length ex))"
    and acc: "\<forall>x \<in> set ex. IsAccepted (t_Verdict x)" and rej: "\<not> IsAccepted (t_Verdict t)"
    and sorted: "sorted_wrt (<) (map ref_Index (job_Tests job))"
  shows "accepted_points ((ex @ [t]) @ skipped_tests (job_Tests job) (job_Tests job ! length ex)) (job_Tests job)
         = sum_list (map ref_Points (job_Tests job)) - ref_Points (job_Tests job ! length ex)"
proof -
  let ?T = "job_Tests job" and ?k = "length ex"
  have k: "?k < length ?T" and idx: "map t_Index (ex @ [t]) = map ref_Index (take (Suc ?k) ?T)"
    using ser by (auto simp: series_def)
  have dist: "distinct (map ref_Index ?T)" using sorted by (simp add: strict_sorted_iff)
  have "map t_Index ex = map ref_Index (take ?k ?T)"
    using idx k by (simp add: take_Suc_conv_app_nth)
  then have a: "accepted_points ex ?T = sum_list (map ref_Points (take ?k ?T))"
    using acc dist by (intro accepted_points_all) (auto dest: in_set_takeD)
  have "skipped_tests ?T (?T ! ?k) =
      map (\<lambda>r. zero_TestResult\<lparr>t_Index := ref_Index r, t_Verdict := VerdictAC, t_Skipped := True\<rparr>) (drop (Suc ?k) ?T)"
    unfolding skipped_tests_def filter_above [OF sorted k] ..
  then have b: "accepted_points (skipped_tests ?T (?T ! ?k)) ?T = sum_list (map ref_Points (drop (Suc ?k) ?T))"
    using dist by (intro accepted_points_all) (auto simp: IsAccepted_def zero_TestResult_def dest: in_set_dropD)
  have "sum_list (map ref_Points (take ?k ?T @ ?T ! ?k # drop (Suc ?k) ?T)) =
      sum_list (map ref_Points (take ?k ?T)) + ref_Points (?T ! ?k) + sum_list (map ref_Points (drop (Suc ?k) ?T))"
    by simp
  then have "sum_list (map ref_Points ?T) =
      sum_list (map ref_Points (take ?k ?T)) + ref_Points (?T ! ?k) + sum_list (map ref_Points (drop (Suc ?k) ?T))"
    by (simp only: id_take_nth_drop [OF k, symmetric])
  moreover have "accepted_points [t] ?T = 0" using rej by (simp add: accepted_points_def)
  ultimately show ?thesis unfolding accepted_points_append using a b by linarith
qed

subsection \<open>A small judge\<close>

text \<open>One interpreted language, a sandbox whose programs exit with status 1 and leave the box
  alone, and an empty blob store under \<open>/blobs\<close>.\<close>

definition sample_manifest :: Manifest where
  "sample_manifest = fresh_manifest\<lparr>m_ID := ''py'', m_Image := ''img'', m_SourceFile := ''main.py'',
     m_Run := [''python3'', ''/box/main.py'']\<rparr>"

definition sample_judge :: Judge where
  "sample_judge = \<lparr>j_Sandbox = (\<lambda>_. ret (zero_ExecOutcome\<lparr>out_ExitCode := 1\<rparr>)),
     j_Blobs = GetToFile [''blobs''], j_Langs = [(''py'', sample_manifest)],
     j_BoxRoot = [''boxes''], j_CacheRoot = [''cache''], j_RunnerID = ''r1'', j_CPUModel = ''cpu'',
     j_now = 1, j_done = (\<lambda>_. False), j_print = (\<lambda>_. [])\<rparr>"

definition sample_job :: JobSpec where
  "sample_job = \<lparr>job_SubmissionID = ''s1'', job_Attempt = 1, job_ContestID = ''c'', job_ProblemID = ''p1'',
     job_UserID = ''u'', job_Language = ''py'', job_SourceRef = ''src/s1'', job_SourceHash = ''h'',
     job_ImageDigest = [], job_TestdataVersion = ''v1'',
     job_Tests = [\<lparr>ref_Index = 0, ref_InputRef = ''t/0.in'', ref_OutputRef = ''t/0.out'',
                   ref_IsSample = False, ref_Points = 40\<rparr>,
                  \<lparr>ref_Index = 1, ref_InputRef = ''t/1.in'', ref_OutputRef = ''t/1.out'',
                   ref_IsSample = False, ref_Points = 60\<rparr>],
     job_Limits = \<lparr>Compile = DefaultCompileLimits, Run = DefaultRunLimits\<rparr>,
     job_Checker = \<lparr>chk_Type = ''token'', chk_Epsilon = Fin 0\<rparr>,
     job_Policy = DefaultPolicy, job_EnqueuedAt = 0\<rparr>"

text \<open>A disk with the source and the first test in the blob store.\<close>

definition sample_fs :: fs where
  "sample_fs = blank_fs
     \<lparr>tree := [([''blobs''], Dir 493), ([''blobs'', ''src''], Dir 493), ([''blobs'', ''t''], Dir 493),
               ([''blobs'', ''src'', ''s1''], File 0), ([''blobs'', ''t'', ''0.in''], File 1),
               ([''blobs'', ''t'', ''0.out''], File 2)],
      next_ino := 3\<rparr>"

lemma sample_run: "\<exists>res s'. Judge_Run sample_judge checkers sample_job 0 sample_fs = (Inr res, s') \<and>
   map t_Verdict (r_Tests res) = [VerdictRE, VerdictAC] \<and> r_FailedTest res = 0"
proof -
  have "(case fst (Judge_Run sample_judge checkers sample_job 0 sample_fs) of Inl _ \<Rightarrow> False
     | Inr res \<Rightarrow> map t_Verdict (r_Tests res) = [VerdictRE, VerdictAC] \<and> r_FailedTest res = 0)"
    by code_simp
  then show ?thesis
    by (cases "Judge_Run sample_judge checkers sample_job 0 sample_fs") (auto split: sum.splits)
qed

lemma itoa_no_slash: "CHR ''/'' \<notin> set (itoa i)"
proof -
  have d: "CHR ''/'' \<noteq> char_of (48 + n)" if "n < 10" for n :: nat
  proof
    assume "CHR ''/'' = char_of (48 + n)"
    then have "(of_char (CHR ''/'') :: nat) = of_char (char_of (48 + n) :: char)" by simp
    then show False using that by simp
  qed
  have u: "CHR ''/'' \<notin> set (utoa n)" for n
  proof (induction n rule: utoa.induct)
    case (1 n)
    then show ?case using d [of n] d [of "n mod 10"] by (simp add: utoa.simps [of n])
  qed
  show ?thesis using u by (auto simp: itoa_def)
qed

lemma split_slash_single: "CHR ''/'' \<notin> set c \<Longrightarrow> split_slash c = [c]"
  by (induction c) auto

lemma Join_plain: "plain c \<Longrightarrow> Join p [c] = p @ [c]"
  by (simp add: Join_def plain_def split_slash_single)

lemma plain_suffix: "CHR ''/'' \<notin> set a \<Longrightarrow> plain (a @ ''.in'') \<and> plain (a @ ''.out'')"
  by (cases a) (auto simp: plain_def)

lemma sample_surroundings:
  "surroundings sample_judge sample_job 0 {SysRemove, SysStat} [''cache'', ''v1'', ''p1'', ''0.in''] 3 ''7''"
proof -
  have sd: "slot_dir sample_judge 0 = [''boxes'', ''r1'', ''slot-0'']" by code_simp
  have td: "testdata_dir sample_judge sample_job = [''cache'', ''v1'', ''p1'']" by code_simp
  have io: "in_path sample_judge sample_job tc = [''cache'', ''v1'', ''p1'', itoa (ref_Index tc) @ ''.in'']"
    "exp_path sample_judge sample_job tc = [''cache'', ''v1'', ''p1'', itoa (ref_Index tc) @ ''.out'']" for tc
    using plain_suffix [OF itoa_no_slash, of "ref_Index tc"]
    by (simp_all add: in_path_def exp_path_def td Join_plain)
  have src: "Join [''boxes'', ''r1'', ''slot-0'', ''box''] [''main.py''] =
      [''boxes'', ''r1'', ''slot-0'', ''box'', ''main.py'']" by code_simp
  have "j_Blobs sample_judge = GetToFile [''blobs'']" by (simp add: sample_judge_def)
  then have bl: "blob_store (j_Blobs sample_judge)" using local.blob_store_axioms by metis
  have sb: "keeps P (j_Sandbox sample_judge spec)" for P spec
    by (simp add: sample_judge_def keeps_ret)
  have lang: "Langs.Get (j_Langs sample_judge) (job_Language sample_job) = Some sample_manifest"
    by (simp add: sample_judge_def sample_job_def Langs.Get_def)
  have mfile: "m_SourceFile sample_manifest = ''main.py''" by (simp add: sample_manifest_def)
  show ?thesis unfolding surroundings_def Let_def sd lang io using bl sb by (simp add: src mfile)
qed

subsection \<open>Properties\<close>

text \<open>
  C1: a run of the judge that returns a result either reports a compile error with no
  tests, or the tests it ran are the first tests of the job, in order, each run once: all of
  them, or up to the first failure when the policy says so, followed by the tests of larger
  index, marked as skipped. The submission is accepted exactly when all tests ran and all
  were accepted. This holds for every sandbox, blob store and pattern of system call failures.
\<close>

theorem Judge_Run_verdict:
  assumes "Judge_Run j registry job slot s = (Inr res, s')"
    and "\<forall>tc \<in> set (job_Tests job). ref_Index tc \<noteq> - 1"
  shows "r_SubmissionID res = job_SubmissionID job \<and> r_Status res = StatusDone \<and>
    ((r_Verdict res = VerdictCE \<and> r_Tests res = []) \<or>
     (\<exists>ex rest. r_Tests res = ex @ rest \<and> series job (job_Tests job) ex rest \<and>
        (r_Verdict res = VerdictAC \<longleftrightarrow>
           length ex = length (job_Tests job) \<and> (\<forall>t \<in> set ex. t_Verdict t = VerdictAC))))"
  using assms(1)
proof (cases rule: Judge_Run_series)
  case (compile_error clog)
  then show ?thesis by (simp add: initial_result_def zero_SubmissionResult_def)
next
  case (tested ex rest)
  have idx: "\<forall>t \<in> set (ex @ rest). t_Index t \<noteq> - 1"
    using series_indices [OF tested(1)] assms(2) by (metis imageE)
  have "r_Verdict res = VerdictAC \<longleftrightarrow> (\<forall>t \<in> set ex. t_Verdict t = VerdictAC)"
    using Aggregate_accepted [OF idx] series_judged [OF tested(1)] tested(2) by simp
  moreover have "length ex = length (job_Tests job)" if "\<forall>t \<in> set ex. t_Verdict t = VerdictAC"
    using tested(1) that by (auto simp: series_def IsAccepted_def)
  ultimately have "r_Verdict res = VerdictAC \<longleftrightarrow>
      length ex = length (job_Tests job) \<and> (\<forall>t \<in> set ex. t_Verdict t = VerdictAC)" by blast
  then show ?thesis using tested by (auto simp: initial_result_def zero_SubmissionResult_def)
qed

theorem Judge_Run_verdict_witness:
  "\<exists>res s'. Judge_Run sample_judge checkers sample_job 0 sample_fs = (Inr res, s') \<and>
     r_Status res = StatusDone \<and> r_Verdict res \<noteq> VerdictAC"
proof -
  obtain res s' where run: "Judge_Run sample_judge checkers sample_job 0 sample_fs = (Inr res, s')"
    and v: "map t_Verdict (r_Tests res) = [VerdictRE, VerdictAC]" using sample_run by metis
  note spec = Judge_Run_verdict [OF run]
  have "\<forall>tc \<in> set (job_Tests sample_job). ref_Index tc \<noteq> - 1" by (simp add: sample_job_def)
  note spec = spec [OF this]
  have "VerdictRE \<in> set (map t_Verdict (r_Tests res))" using v by simp
  then obtain t where t: "t \<in> set (r_Tests res)" "t_Verdict t = VerdictRE" by auto
  have len: "length (job_Tests sample_job) = 2" by (simp add: sample_job_def)
  have "r_Verdict res \<noteq> VerdictAC"
  proof
    assume ac: "r_Verdict res = VerdictAC"
    have "VerdictAC \<noteq> VerdictCE" by (simp add: go_simps)
    with spec ac obtain ex rest where e: "r_Tests res = ex @ rest" "length ex = 2"
      "\<forall>t \<in> set ex. t_Verdict t = VerdictAC" by (auto simp: len)
    have "length (r_Tests res) = 2" using v by (metis length_Cons length_map list.size(3) numeral_2_eq_2)
    then have "rest = []" using e by simp
    then have "t_Verdict t = VerdictAC" using e t by simp
    then show False using t(2) by (simp add: go_simps)
  qed
  then show ?thesis using run spec by blast
qed



text \<open>
  C39: the points of a submission that stops at its first failing test are the points of all
  the other tests, those that were skipped included: \<open>TestPoints\<close> counts the skipped tests as
  passed, because \<open>Run\<close> records them with the verdict \<^verbatim>\<open>AC\<close>.
\<close>

theorem early_stop_score:
  assumes "Judge_Run j registry job slot s = (Inr res, s')"
    and "sorted_wrt (<) (map ref_Index (job_Tests job))" and "\<forall>tc \<in> set (job_Tests job). 0 \<le> ref_Index tc"
    and "StopOnFirstFailure (job_Policy job)"
    and "k < length (job_Tests job)" and "r_FailedTest res = ref_Index (job_Tests job ! k)"
  shows "r_Score res = i64 (sum_list (map ref_Points (job_Tests job)) - ref_Points (job_Tests job ! k))"
  using assms(1)
proof (cases rule: Judge_Run_series)
  case (compile_error clog)
  then have "r_FailedTest res = - 1" by (simp add: initial_result_def)
  moreover have "0 \<le> ref_Index (job_Tests job ! k)" using assms(3,5) by (meson nth_mem)
  ultimately show ?thesis using assms(6) by linarith
next
  case (tested ex rest)
  let ?T = "job_Tests job"
  have pos: "0 \<le> ref_Index (?T ! i)" if "i < length ?T" for i using that assms(3) by (meson nth_mem)
  have idx: "\<forall>t \<in> set (ex @ rest). t_Index t \<noteq> - 1"
    using series_indices [OF tested(1)] assms(3) by (metis imageE neg_0_le_iff_le not_one_le_zero)
  have failed: "r_FailedTest res = (case first_failure (ex @ rest) of None \<Rightarrow> - 1 | Some t \<Rightarrow> t_Index t)"
    using tested(2) Aggregate_failed [OF idx] by simp
  obtain t where t: "first_failure (ex @ rest) = Some t"
    using failed assms(6) pos [OF assms(5)] by (cases "first_failure (ex @ rest)") auto
  then have tin: "t \<in> set ex" "\<not> IsAccepted (t_Verdict t)"
    using series_judged [OF tested(1)] unfolding first_failure_def by (auto simp: find_Some_iff)
  then have stop: "ex \<noteq> []" "\<forall>t \<in> set (butlast ex). IsAccepted (t_Verdict t)"
    "rest = skipped_tests ?T (?T ! (length ex - 1))"
    using tested(1) assms(4) by (auto simp: series_def)
  then have last: "t = last ex" using tin by (metis append_butlast_last_id in_set_conv_decomp_last rotate1.simps(2) set_ConsD set_rotate1)
  have len: "length ex - 1 < length ?T" using tested(1) stop(1) by (cases ex) (auto simp: series_def)
  have "t_Index (last ex) = ref_Index (?T ! (length ex - 1))"
  proof -
    have m: "map t_Index ex = map ref_Index (take (length ex) ?T)" using tested(1) by (simp add: series_def)
    have "t_Index (last ex) = map t_Index ex ! (length ex - 1)" using stop(1) by (simp add: last_conv_nth)
    also have "\<dots> = ref_Index (?T ! (length ex - 1))" unfolding m using stop(1) len by simp
    finally show ?thesis .
  qed
  then have "ref_Index (?T ! (length ex - 1)) = ref_Index (?T ! k)" using failed t last assms(6) by simp
  moreover have "distinct (map ref_Index ?T)" using assms(2) by (simp add: strict_sorted_iff)
  ultimately have k: "length ex - 1 = k" using len assms(5) by (simp add: nth_eq_iff_index_eq distinct_conv_nth) (metis)
  have ex: "ex = butlast ex @ [last ex]" using stop(1) by simp
  have lb: "length (butlast ex) = k" using k by simp
  have "accepted_points ((butlast ex @ [last ex]) @ skipped_tests ?T (?T ! length (butlast ex))) ?T =
      sum_list (map ref_Points ?T) - ref_Points (?T ! length (butlast ex))"
    using tested(1) stop tin(2) last assms(2) k ex
    by (intro early_stop_points) (simp_all add: lb)
  then have "accepted_points (ex @ rest) ?T = sum_list (map ref_Points ?T) - ref_Points (?T ! k)"
    using ex stop(3) k lb by simp
  then show ?thesis using tested(2) by (simp add: TestPoints_sum)
qed

theorem early_stop_score_witness:
  "\<exists>res s'. Judge_Run sample_judge checkers sample_job 0 sample_fs = (Inr res, s') \<and>
     r_FailedTest res = 0 \<and> r_Score res = 60"
proof -
  obtain res s' where run: "Judge_Run sample_judge checkers sample_job 0 sample_fs = (Inr res, s')"
    and f: "r_FailedTest res = 0" using sample_run by metis
  have "r_Score res = i64 (sum_list (map ref_Points (job_Tests sample_job)) -
      ref_Points (job_Tests sample_job ! 0))"
    by (rule early_stop_score [OF run]) (simp_all add: f sample_job_def DefaultPolicy_def)
  then show ?thesis using run f by (auto simp: sample_job_def i64_def)
qed

text \<open>
  Sanitised text carries no control character except newline and tab, so no terminal
  escape can be built from it; it is the text's runes with the control characters left out,
  and sanitising again changes nothing.
\<close>

theorem sanitize_safe:
  "list_all (\<lambda>r. r = 0x0A \<or> r = 0x09 \<or> (0x20 \<le> r \<and> r \<noteq> 0x7F)) (map fst (runes (sanitize s))) \<and>
   map fst (runes (sanitize s)) =
     filter (\<lambda>r. r = 0x0A \<or> r = 0x09 \<or> (0x20 \<le> r \<and> r \<noteq> 0x7F)) (map fst (runes s)) \<and>
   sanitize (sanitize s) = sanitize s"
proof -
  have p: "printable r \<longleftrightarrow> r = 0x0A \<or> r = 0x09 \<or> (0x20 \<le> r \<and> r \<noteq> 0x7F)" for r
    by (auto simp: printable_def)
  have eq: "map fst (runes (sanitize s)) = filter printable (map fst (runes s))" by (rule sanitize_runes)
  have all: "\<forall>r \<in> set (runes (sanitize s)). printable (fst r)"
  proof
    fix r assume "r \<in> set (runes (sanitize s))"
    then have "fst r \<in> set (map fst (runes (sanitize s)))" by simp
    then show "printable (fst r)" unfolding eq by simp
  qed
  have "sanitize (sanitize s) = sanitize s"
    using sanitize_encoded [of "sanitize s"] sanitize_encoded [of s] eq by simp
  moreover have "map fst (runes (sanitize s)) =
      filter (\<lambda>r. r = 0x0A \<or> r = 0x09 \<or> (0x20 \<le> r \<and> r \<noteq> 0x7F)) (map fst (runes s))"
    unfolding eq by (rule filter_cong) (simp_all add: p)
  ultimately show ?thesis using all by (simp add: p list_all_iff)
qed


text \<open>A program that prints 8 on a hidden test whose answer is 7.\<close>

definition printing_judge :: Judge where
  "printing_judge = sample_judge\<lparr>j_Sandbox := (\<lambda>spec. wrap (\<lambda>_. [])
     (bind (Create (rs_BoxDir spec @ [''stdout'']) 420) (\<lambda>i.
      bind (write_inode i ''8'') (\<lambda>_. ret zero_ExecOutcome))))\<rparr>"

definition hidden_fs :: fs where
  "hidden_fs = sample_fs\<lparr>tree := ([''b''], Dir 493) # ([''st''], Dir 493) # tree sample_fs,
     inode_table := [(2, \<lparr>ino_data = ''7'', ino_mode = 420\<rparr>)]\<rparr>"


end
