(* ===== verification/Store.thy ===== *)
theory Store
  imports Scoring GoText "HOL-Library.AList" "HOL-Library.List_Lexorder" "HOL-Library.Char_ord"
begin

section \<open>The database (\<^verbatim>\<open>internal/adapters/postgres\<close>)\<close>

text \<open>
  The tables are those of the migrations, as lists of rows; each SQL statement of
  \<^verbatim>\<open>store.go\<close> is a function on them, with the constraints of the schema (primary and
  unique keys, foreign keys, \<^verbatim>\<open>CHECK\<close>s, the range of \<^verbatim>\<open>int\<close> columns, well-formed UTF-8 in
  \<^verbatim>\<open>text\<close> columns). What the server decides is in the state: \<open>db_now\<close> is \<^verbatim>\<open>now()\<close>, \<open>db_uuid\<close>
  yields the identifiers of \<^verbatim>\<open>gen_random_uuid()\<close>, and \<open>db_faults\<close> says which statements fail
  because the server is unreachable. A transaction that fails leaves the tables unchanged.
  Rows that compare equal are returned in table order. Identifiers are strings that are
  looked up; that the server refuses a string that is not a uuid is not modelled. A row of
  \<^verbatim>\<open>problems\<close> holds the checker configuration its two columns decode to.
\<close>

subsection \<open>Records (\<^verbatim>\<open>internal/ports\<close>)\<close>

record User =
  u_ID :: string
  u_Handle :: string
  u_Email :: string
  u_PasswordHash :: string
  u_Role :: string
  u_CreatedAt :: gotime

record Contest =
  c_ID :: string
  c_Slug :: string
  c_Title :: string
  c_StartsAt :: gotime
  c_EndsAt :: gotime
  c_ScoringMode :: ScoreMode

record Problem =
  p_ID :: string
  p_ContestID :: string
  p_Slug :: string
  p_Title :: string
  p_StatementMD :: string
  p_Limits :: Limits
  p_Checker :: CheckerConfig
  p_TestdataVersion :: string
  p_Points :: int

record Submission =
  s_ID :: string
  s_UserID :: string
  s_Handle :: string
  s_ProblemID :: string
  s_ContestID :: string
  s_Language :: string
  s_SourceRef :: string
  s_SourceHash :: string
  s_Status :: Status
  s_Verdict :: Verdict
  s_CPUms :: int
  s_WallMs :: int
  s_MemKB :: int
  s_Score :: int
  s_FailedTest :: int
  s_CompileLog :: string
  s_Attempt :: int
  s_RunnerID :: string
  s_ImageDigest :: string
  s_TestdataVersion :: string
  s_IdempotencyKey :: string
  s_CreatedAt :: gotime
  s_JudgedAt :: "gotime option"
  s_Tests :: "TestResult list"

record SubmissionFilter =
  f_UserID :: string
  f_ProblemID :: string
  f_ContestID :: string
  f_Limit :: int
  f_Offset :: int

subsection \<open>Tables\<close>

record sub_row =
  row_id :: string
  row_user_id :: string
  row_problem_id :: string
  row_contest_id :: string
  row_language :: string
  row_source_ref :: string
  row_source_hash :: string
  row_status :: Status
  row_verdict :: "Verdict option"
  row_cpu_ms :: int
  row_wall_ms :: int
  row_mem_kb :: int
  row_instructions :: int
  row_score :: int
  row_failed_test :: int
  row_compile_log :: string
  row_attempt :: int
  row_runner_id :: string
  row_image_digest :: string
  row_testdata_version :: string
  row_cpu_model :: string
  row_idempotency_key :: "string option"
  row_created_at :: gotime
  row_judged_at :: "gotime option"

record db =
  users :: "User list"
  contests :: "Contest list"
  problems :: "Problem list"
  test_cases :: "(string \<times> TestRef) list"
  submissions :: "sub_row list"
  submission_tests :: "((string \<times> int) \<times> TestResult) list"
  verdict_cache :: "(string \<times> SubmissionResult \<times> int) list"
  db_now :: gotime
  db_uuid :: "nat \<Rightarrow> string"
  db_clock :: nat
  db_faults :: "nat \<Rightarrow> bool"

datatype store_error = ErrNotFound | ErrNoRows | Unavailable | UniqueViolation | ForeignKeyViolation | CheckViolation

type_synonym 'a store = "db \<Rightarrow> (store_error, 'a) result \<times> db"

text \<open>One round trip to the server.\<close>

definition query :: "'a store \<Rightarrow> 'a store" where
  "query f d =
     (let d' = d\<lparr>db_clock := db_clock d + 1\<rparr>
      in if db_faults d (db_clock d) then (Inl Unavailable, d') else f d')"

definition fits_int4 :: "int \<Rightarrow> bool" where
  "fits_int4 i \<longleftrightarrow> - (2 ^ 31) \<le> i \<and> i < 2 ^ 31"

text \<open>What a \<^verbatim>\<open>text\<close> column holds: well-formed UTF-8 without the zero byte.\<close>

definition valid_text :: "string \<Rightarrow> bool" where
  "valid_text s \<longleftrightarrow> (\<forall>(r, b) \<in> set (runes s). EncodeRune r = b \<and> r \<noteq> 0)"

definition nullStr :: "string \<Rightarrow> string option" where
  "nullStr s = (if s = [] then None else Some s)"

definition truncate :: "string \<Rightarrow> nat \<Rightarrow> string" where
  "truncate s n = (if length s \<le> n then s else take n s @ CHR 0x0A # ''... [truncated]'')"

definition find_row :: "string \<Rightarrow> db \<Rightarrow> sub_row option" where
  "find_row i d = find (\<lambda>r. row_id r = i) (submissions d)"

subsection \<open>Users\<close>

text \<open>\<^verbatim>\<open>citext\<close> compares without regard to case.\<close>

definition ci_lower :: "char \<Rightarrow> char" where
  "ci_lower c = (if 65 \<le> (of_char c :: nat) \<and> of_char c \<le> (90 :: nat) then char_of (of_char c + 32 :: nat) else c)"

definition ci_eq :: "string \<Rightarrow> string \<Rightarrow> bool" where
  "ci_eq a b \<longleftrightarrow> map ci_lower a = map ci_lower b"

definition CreateUser :: "User \<Rightarrow> User store" where
  "CreateUser u = query (\<lambda>d.
     let i = db_uuid d (db_clock d); u' = u\<lparr>u_ID := i, u_CreatedAt := db_now d\<rparr>
     in if \<not> (\<forall>t \<in> set [u_Handle u, u_Email u, u_PasswordHash u, u_Role u]. valid_text t) then (Inl CheckViolation, d)
        else if u_Role u \<notin> {''participant'', ''setter'', ''admin''} then (Inl CheckViolation, d)
        else if \<exists>v \<in> set (users d). u_ID v = i \<or> ci_eq (u_Handle v) (u_Handle u) then (Inl UniqueViolation, d)
        else (Inr u', d\<lparr>users := users d @ [u']\<rparr>))"

definition GetUserByHandle :: "string \<Rightarrow> User store" where
  "GetUserByHandle handle = query (\<lambda>d.
     case find (\<lambda>u. ci_eq (u_Handle u) handle) (users d) of
       None \<Rightarrow> (Inl ErrNotFound, d) | Some u \<Rightarrow> (Inr u, d))"

subsection \<open>Catalogue\<close>

definition scanProblem :: "Problem option \<Rightarrow> (store_error, Problem) result" where
  "scanProblem row = (case row of None \<Rightarrow> Inl ErrNotFound
     | Some p \<Rightarrow> Inr (p\<lparr>p_Limits := Normalize (p_Limits p)\<rparr>))"

definition GetProblem :: "string \<Rightarrow> Problem store" where
  "GetProblem i = query (\<lambda>d. (scanProblem (find (\<lambda>p. p_ID p = i) (problems d)), d))"

definition GetProblemBySlug :: "string \<Rightarrow> string \<Rightarrow> Problem store" where
  "GetProblemBySlug contestSlug slug = query (\<lambda>d.
     (scanProblem (find (\<lambda>p. p_Slug p = slug \<and>
        (\<exists>c \<in> set (contests d). c_ID c = p_ContestID p \<and> c_Slug c = contestSlug)) (problems d)), d))"

definition ListProblems :: "string \<Rightarrow> Problem list store" where
  "ListProblems contestID = query (\<lambda>d.
     (Inr (map (\<lambda>p. p\<lparr>p_Limits := Normalize (p_Limits p)\<rparr>)
            (sort_key p_Slug (filter (\<lambda>p. p_ContestID p = contestID) (problems d)))), d))"

definition GetContestBySlug :: "string \<Rightarrow> Contest store" where
  "GetContestBySlug slug = query (\<lambda>d.
     case find (\<lambda>c. c_Slug c = slug) (contests d) of
       None \<Rightarrow> (Inl ErrNotFound, d) | Some c \<Rightarrow> (Inr c, d))"

definition GetContest :: "string \<Rightarrow> Contest store" where
  "GetContest i = query (\<lambda>d.
     case find (\<lambda>c. c_ID c = i) (contests d) of
       None \<Rightarrow> (Inl ErrNotFound, d) | Some c \<Rightarrow> (Inr c, d))"

definition ListTestCases :: "string \<Rightarrow> TestRef list store" where
  "ListTestCases problemID = query (\<lambda>d.
     (Inr (sort_key ref_Index (map snd (filter (\<lambda>(p, _). p = problemID) (test_cases d)))), d))"

subsection \<open>Submissions\<close>

definition scan_row :: "sub_row \<Rightarrow> Submission" where
  "scan_row r =
     \<lparr>s_ID = row_id r, s_UserID = row_user_id r, s_Handle = [], s_ProblemID = row_problem_id r,
      s_ContestID = row_contest_id r, s_Language = row_language r, s_SourceRef = row_source_ref r,
      s_SourceHash = row_source_hash r, s_Status = row_status r,
      s_Verdict = (case row_verdict r of None \<Rightarrow> [] | Some v \<Rightarrow> v),
      s_CPUms = row_cpu_ms r, s_WallMs = row_wall_ms r, s_MemKB = row_mem_kb r, s_Score = row_score r,
      s_FailedTest = row_failed_test r, s_CompileLog = row_compile_log r, s_Attempt = row_attempt r,
      s_RunnerID = row_runner_id r, s_ImageDigest = row_image_digest r,
      s_TestdataVersion = row_testdata_version r, s_IdempotencyKey = [],
      s_CreatedAt = row_created_at r, s_JudgedAt = row_judged_at r, s_Tests = []\<rparr>"

definition new_row :: "Submission \<Rightarrow> string \<Rightarrow> gotime \<Rightarrow> sub_row" where
  "new_row x i now =
     \<lparr>row_id = i, row_user_id = s_UserID x, row_problem_id = s_ProblemID x,
      row_contest_id = s_ContestID x, row_language = s_Language x, row_source_ref = s_SourceRef x,
      row_source_hash = s_SourceHash x, row_status = StatusQueued, row_verdict = None, row_cpu_ms = 0,
      row_wall_ms = 0, row_mem_kb = 0, row_instructions = 0, row_score = 0, row_failed_test = - 1,
      row_compile_log = [], row_attempt = 0, row_runner_id = [], row_image_digest = [],
      row_testdata_version = s_TestdataVersion x, row_cpu_model = [],
      row_idempotency_key = nullStr (s_IdempotencyKey x), row_created_at = now, row_judged_at = None\<rparr>"

definition references_ok :: "db \<Rightarrow> Submission \<Rightarrow> bool" where
  "references_ok d x \<longleftrightarrow>
     s_UserID x \<in> u_ID ` set (users d) \<and> s_ProblemID x \<in> p_ID ` set (problems d) \<and>
     s_ContestID x \<in> c_ID ` set (contests d)"

definition texts_ok :: "Submission \<Rightarrow> bool" where
  "texts_ok x \<longleftrightarrow> (\<forall>t \<in> set [s_Language x, s_SourceRef x, s_SourceHash x, s_TestdataVersion x,
     s_IdempotencyKey x]. valid_text t)"

definition CreateSubmission :: "Submission \<Rightarrow> Submission store" where
  "CreateSubmission x = query (\<lambda>d.
     let i = db_uuid d (db_clock d); r = new_row x i (db_now d)
     in if \<not> texts_ok x then (Inl CheckViolation, d)
        else if \<exists>q \<in> set (submissions d). row_id q = i \<or>
          (row_idempotency_key r \<noteq> None \<and> row_user_id q = row_user_id r \<and>
           row_idempotency_key q = row_idempotency_key r)
        then (Inl UniqueViolation, d)
        else if \<not> references_ok d x then (Inl ForeignKeyViolation, d)
        else (Inr (x\<lparr>s_ID := i, s_Status := StatusQueued, s_CreatedAt := db_now d\<rparr>),
              d\<lparr>submissions := submissions d @ [r]\<rparr>))"

definition FindByIdempotencyKey :: "string \<Rightarrow> string \<Rightarrow> Submission option store" where
  "FindByIdempotencyKey userID key =
     (if key = [] then (\<lambda>d. (Inr None, d))
      else query (\<lambda>d.
        (Inr (map_option scan_row
           (find (\<lambda>r. row_user_id r = userID \<and> row_idempotency_key r = Some key) (submissions d))), d)))"

definition test_rows :: "string \<Rightarrow> db \<Rightarrow> TestResult list" where
  "test_rows i d =
     sort_key t_Index (map snd (filter (\<lambda>((sid, _), _). sid = i) (submission_tests d)))"

definition GetSubmission :: "string \<Rightarrow> Submission store" where
  "GetSubmission i d =
     (case query (\<lambda>d. case find_row i d of
              None \<Rightarrow> (Inl ErrNotFound, d) | Some r \<Rightarrow> (Inr (scan_row r), d)) d of
        (Inl e, d1) \<Rightarrow> (Inl e, d1)
      | (Inr sub, d1) \<Rightarrow> query (\<lambda>d. (Inr (sub\<lparr>s_Tests := test_rows i d\<rparr>), d)) d1)"

text \<open>\<^verbatim>\<open>UPDATE submissions SET ... WHERE id = $1 AND guard\<close>.\<close>

definition update_sub :: "string \<Rightarrow> (sub_row \<Rightarrow> bool) \<Rightarrow> (sub_row \<Rightarrow> sub_row) \<Rightarrow> db \<Rightarrow> db" where
  "update_sub i guard f d =
     d\<lparr>submissions := map (\<lambda>r. if row_id r = i \<and> guard r then f r else r) (submissions d)\<rparr>"

definition MarkJudging :: "string \<Rightarrow> string \<Rightarrow> int \<Rightarrow> unit store" where
  "MarkJudging i runnerID attempt = query (\<lambda>d.
     if \<not> valid_text runnerID \<or> \<not> fits_int4 attempt then (Inl CheckViolation, d)
     else (Inr (), update_sub i (\<lambda>r. row_status r \<in> {StatusQueued, StatusJudging})
        (\<lambda>r. r\<lparr>row_status := StatusJudging, row_runner_id := runnerID, row_attempt := attempt\<rparr>) d))"

definition result_row :: "SubmissionResult \<Rightarrow> gotime \<Rightarrow> sub_row \<Rightarrow> sub_row" where
  "result_row r now q =
     q\<lparr>row_status := r_Status r, row_verdict := Some (r_Verdict r), row_cpu_ms := r_CPUms r,
       row_wall_ms := r_WallMs r, row_mem_kb := r_MemKB r, row_instructions := r_Instructions r,
       row_score := r_Score r, row_failed_test := r_FailedTest r,
       row_compile_log := truncate (r_CompileLog r) 8000, row_runner_id := r_RunnerID r,
       row_attempt := r_Attempt r, row_image_digest := r_ImageDigest r,
       row_cpu_model := r_CPUModel r, row_judged_at := Some now\<rparr>"

text \<open>
  The server checks the parameters of a statement before it runs it, and the \<^verbatim>\<open>CHECK\<close>s of
  the table on the rows it writes.
\<close>

definition result_ok :: "SubmissionResult \<Rightarrow> bool" where
  "result_ok r \<longleftrightarrow>
     r_Status r \<in> {StatusQueued, StatusJudging, StatusDone, StatusFailed} \<and>
     r_Verdict r \<in> set known_verdicts"

definition result_args_ok :: "SubmissionResult \<Rightarrow> bool" where
  "result_args_ok r \<longleftrightarrow>
     valid_text (r_Status r) \<and> valid_text (r_Verdict r) \<and>
     fits_int4 (r_Score r) \<and> fits_int4 (r_FailedTest r) \<and> fits_int4 (r_Attempt r) \<and>
     (\<forall>t \<in> set [truncate (r_CompileLog r) 8000, r_RunnerID r, r_ImageDigest r, r_CPUModel r]. valid_text t)"

definition test_row :: "TestResult \<Rightarrow> TestResult" where
  "test_row t = t\<lparr>t_Message := truncate (t_Message t) 500, t_SampleOut := []\<rparr>"

definition test_ok :: "TestResult \<Rightarrow> bool" where
  "test_ok t \<longleftrightarrow> fits_int4 (t_Index t) \<and> fits_int4 (t_ExitCode t) \<and> fits_int4 (t_Signal t) \<and>
     valid_text (t_Verdict t) \<and> valid_text (truncate (t_Message t) 500)"

definition unfinished :: "sub_row \<Rightarrow> bool" where
  "unfinished q \<longleftrightarrow> row_status q \<noteq> StatusDone"

text \<open>The transaction: the guarded \<^verbatim>\<open>UPDATE\<close>, then one upsert per test if it hit a row.\<close>

definition SaveResult :: "SubmissionResult \<Rightarrow> unit store" where
  "SaveResult r = query (\<lambda>d.
     if \<not> result_args_ok r then (Inl CheckViolation, d)
     else if \<not> (\<exists>q \<in> set (submissions d). row_id q = r_SubmissionID r \<and> unfinished q) then (Inr (), d)
     else if \<not> result_ok r \<or> \<not> list_all test_ok (r_Tests r) then (Inl CheckViolation, d)
     else (Inr (),
       (update_sub (r_SubmissionID r) unfinished (result_row r (db_now d)) d)
         \<lparr>submission_tests :=
            foldl (\<lambda>m t. AList.update (r_SubmissionID r, t_Index t) (test_row t) m)
                  (submission_tests d) (r_Tests r)\<rparr>))"

definition ListSubmissions :: "SubmissionFilter \<Rightarrow> Submission list store" where
  "ListSubmissions f = query (\<lambda>d.
     let lim' = (if f_Limit f \<le> 0 \<or> f_Limit f > 100 then 50 else f_Limit f);
         rows = filter (\<lambda>r. (f_UserID f = [] \<or> row_user_id r = f_UserID f) \<and>
                            (f_ProblemID f = [] \<or> row_problem_id r = f_ProblemID f) \<and>
                            (f_ContestID f = [] \<or> row_contest_id r = f_ContestID f) \<and>
                            row_user_id r \<in> u_ID ` set (users d)) (submissions d);
         handle = (\<lambda>r. case find (\<lambda>u. u_ID u = row_user_id r) (users d) of None \<Rightarrow> [] | Some u \<Rightarrow> u_Handle u)
     in if f_Offset f < 0 then (Inl CheckViolation, d)
        else (Inr (map (\<lambda>r. (scan_row r)\<lparr>s_Handle := handle r, s_SourceRef := [], s_SourceHash := [],
                     s_WallMs := 0, s_CompileLog := [], s_Attempt := 0, s_RunnerID := [], s_ImageDigest := [],
                     s_TestdataVersion := [], s_JudgedAt := None\<rparr>)
                (take (nat lim') (drop (nat (f_Offset f)) (sort_key (\<lambda>r. - row_created_at r) rows)))), d))"

definition StuckSubmissions :: "duration \<Rightarrow> nat \<Rightarrow> Submission list store" where
  "StuckSubmissions olderThan limit = query (\<lambda>d.
     let cutoff = db_now d - f64_to_i64 (Seconds olderThan) * 1000000000;
         rows = filter (\<lambda>r. row_status r \<in> {StatusQueued, StatusJudging} \<and> row_created_at r < cutoff)
                  (submissions d)
     in (Inr (map (\<lambda>r. (scan_row r)\<lparr>s_JudgedAt := None\<rparr>) (take limit (sort_key row_created_at rows))), d))"

definition BumpAttempt :: "string \<Rightarrow> int store" where
  "BumpAttempt i = query (\<lambda>d.
     case find_row i d of
       None \<Rightarrow> (Inl ErrNoRows, d)
     | Some r \<Rightarrow> if \<not> fits_int4 (row_attempt r + 1) then (Inl CheckViolation, d)
         else (Inr (row_attempt r + 1), update_sub i (\<lambda>_. True) (\<lambda>q. q\<lparr>row_attempt := row_attempt q + 1\<rparr>) d))"

subsection \<open>The verdict cache\<close>

text \<open>The payload is kept as the result it encodes.\<close>

definition CachedVerdict :: "string \<Rightarrow> SubmissionResult option store" where
  "CachedVerdict key = query (\<lambda>d.
     case map_of (verdict_cache d) key of
       None \<Rightarrow> (Inr None, d)
     | Some (r, hits) \<Rightarrow> (Inr (Some r), d\<lparr>verdict_cache := AList.update key (r, hits + 1) (verdict_cache d)\<rparr>))"

definition PutCachedVerdict :: "string \<Rightarrow> SubmissionResult \<Rightarrow> unit store" where
  "PutCachedVerdict key r = query (\<lambda>d.
     if \<not> (\<forall>t \<in> set [key, r_Verdict r, truncate (r_CompileLog r) 8000]. valid_text t) \<or>
        \<not> fits_int4 (r_Score r) \<or> \<not> fits_int4 (r_FailedTest r) then (Inl CheckViolation, d)
     else if map_of (verdict_cache d) key \<noteq> None then (Inr (), d)
     else (Inr (), d\<lparr>verdict_cache := verdict_cache d @ [(key, r, 0)]\<rparr>))"

subsection \<open>Standings\<close>

type_synonym stats = "(string \<times> (string \<times> UserProblemStat) list) list"

definition accepted_rows :: "string \<Rightarrow> db \<Rightarrow> sub_row list" where
  "accepted_rows contestID d =
     filter (\<lambda>r. row_contest_id r = contestID \<and> row_verdict r = Some VerdictAC) (submissions d)"

text \<open>\<^verbatim>\<open>DISTINCT ON (user_id, problem_id) ... ORDER BY ..., cpu_ms\<close>: the fastest row of each pair.\<close>

definition best_row :: "sub_row list \<Rightarrow> string \<Rightarrow> string \<Rightarrow> sub_row option" where
  "best_row rows uid pid =
     (case sort_key row_cpu_ms (filter (\<lambda>r. row_user_id r = uid \<and> row_problem_id r = pid) rows) of
        [] \<Rightarrow> None | r # _ \<Rightarrow> Some r)"

definition stat_of_row :: "sub_row \<Rightarrow> UserProblemStat" where
  "stat_of_row r = zero_UserProblemStat
     \<lparr>Solved := True, BestCPUms := row_cpu_ms r, BestMemKB := row_mem_kb r,
      st_Instructions := row_instructions r,
      SolvedAt := (case row_judged_at r of None \<Rightarrow> 0 | Some t \<Rightarrow> t)\<rparr>"

definition solved_stats_of :: "sub_row list \<Rightarrow> stats" where
  "solved_stats_of rows =
     map (\<lambda>uid. (uid, map (\<lambda>pid. (pid, stat_of_row (the (best_row rows uid pid))))
            (remdups (map row_problem_id (filter (\<lambda>r. row_user_id r = uid) rows)))))
         (remdups (map row_user_id rows))"

definition rejected_count :: "string \<Rightarrow> db \<Rightarrow> string \<Rightarrow> string \<Rightarrow> int" where
  "rejected_count contestID d uid pid =
     int (length (filter (\<lambda>r. row_contest_id r = contestID \<and> row_user_id r = uid \<and> row_problem_id r = pid \<and>
        (case row_verdict r of None \<Rightarrow> False | Some v \<Rightarrow> v \<noteq> VerdictAC \<and> v \<noteq> VerdictCE)) (submissions d)))"

definition with_attempts :: "string \<Rightarrow> db \<Rightarrow> stats \<Rightarrow> stats" where
  "with_attempts contestID d out =
     map (\<lambda>(uid, m). (uid, map (\<lambda>(pid, st).
        (pid, if rejected_count contestID d uid pid > 0 then st\<lparr>Attempts := rejected_count contestID d uid pid\<rparr> else st)) m)) out"

definition ContestStats :: "string \<Rightarrow> stats store" where
  "ContestStats contestID d =
     (case query (\<lambda>d. (Inr (solved_stats_of (accepted_rows contestID d)), d)) d of
        (Inl e, d1) \<Rightarrow> (Inl e, d1)
      | (Inr out, d1) \<Rightarrow>
          (case query (\<lambda>d. (Inr (with_attempts contestID d out), d)) d1 of
             (Inl _, d2) \<Rightarrow> (Inr out, d2)
           | (Inr out', d2) \<Rightarrow> (Inr out', d2)))"

subsection \<open>The life of a submission\<close>

text \<open>
  Everything that changes the database, in any order: the writes of any API process, the
  passing of time, and statements that only read, which advance the count of round trips.
\<close>

inductive db_step :: "db \<Rightarrow> db \<Rightarrow> bool" where
  create: "db_step d (snd (CreateSubmission x d))"
| mark: "db_step d (snd (MarkJudging i runner attempt d))"
| save: "db_step d (snd (SaveResult r d))"
| bump: "db_step d (snd (BumpAttempt i d))"
| cached: "db_step d (snd (CachedVerdict key d))"
| put_cached: "db_step d (snd (PutCachedVerdict key r d))"
| user: "db_step d (snd (CreateUser u d))"
| read: "db_step d (d\<lparr>db_clock := n\<rparr>)"
| tick: "db_now d \<le> t \<Longrightarrow> db_step d (d\<lparr>db_now := t\<rparr>)"

definition same_key :: "sub_row \<Rightarrow> sub_row \<Rightarrow> bool" where
  "same_key q r \<longleftrightarrow> row_id q = row_id r \<or>
     (row_idempotency_key r \<noteq> None \<and> row_user_id q = row_user_id r \<and> row_idempotency_key q = row_idempotency_key r)"

definition finished :: "sub_row \<Rightarrow> bool" where
  "finished r \<longleftrightarrow> row_status r \<in> {StatusDone, StatusFailed}"

definition row_ok :: "sub_row \<Rightarrow> bool" where
  "row_ok r \<longleftrightarrow> row_status r \<in> {StatusQueued, StatusJudging, StatusDone, StatusFailed} \<and>
     (finished r \<longrightarrow> row_judged_at r \<noteq> None \<and> (\<exists>v \<in> set known_verdicts. row_verdict r = Some v))"

definition db_ok :: "db \<Rightarrow> bool" where
  "db_ok d \<longleftrightarrow> sorted_wrt (\<lambda>q r. \<not> same_key q r) (submissions d) \<and> list_all row_ok (submissions d)"

lemma query_state: "snd (query f d) = d\<lparr>db_clock := Suc (db_clock d)\<rparr> \<or> snd (query f d) = snd (f (d\<lparr>db_clock := Suc (db_clock d)\<rparr>))"
  by (simp add: query_def Let_def)

text \<open>Every step is an append of one fresh row, a guarded update of one row, or leaves the
  submissions alone.\<close>

definition preserves_key :: "(sub_row \<Rightarrow> sub_row) \<Rightarrow> bool" where
  "preserves_key f \<longleftrightarrow> (\<forall>r. row_id (f r) = row_id r \<and> row_user_id (f r) = row_user_id r \<and>
     row_idempotency_key (f r) = row_idempotency_key r)"

lemma sorted_wrt_key_map:
  assumes "preserves_key f"
  shows "sorted_wrt (\<lambda>q r. \<not> same_key q r) (map f xs) \<longleftrightarrow> sorted_wrt (\<lambda>q r. \<not> same_key q r) xs"
proof -
  have "same_key (f q) (f r) \<longleftrightarrow> same_key q r" for q r
    using assms by (simp add: preserves_key_def same_key_def)
  then show ?thesis by (simp add: sorted_wrt_map)
qed

lemma update_sub_ok:
  assumes "db_ok d" and "preserves_key f" and "\<And>r. row_ok r \<Longrightarrow> guard r \<Longrightarrow> row_ok (f r)"
  shows "db_ok (update_sub i guard f d)"
proof -
  have "preserves_key (\<lambda>r. if row_id r = i \<and> guard r then f r else r)"
    using assms(2) by (simp add: preserves_key_def)
  then show ?thesis using assms(1,3) sorted_wrt_key_map
    by (auto simp: db_ok_def update_sub_def list_all_iff)
qed

lemma db_ok_upd [simp]:
  "db_ok (d\<lparr>db_clock := n\<rparr>) = db_ok d" "db_ok (d\<lparr>db_now := t\<rparr>) = db_ok d"
  "db_ok (d\<lparr>submission_tests := m\<rparr>) = db_ok d" "db_ok (d\<lparr>verdict_cache := c\<rparr>) = db_ok d"
  "db_ok (d\<lparr>users := us\<rparr>) = db_ok d"
  by (simp_all add: db_ok_def)

lemma query_ok:
  assumes "db_ok d" and "\<And>d'. db_ok d' \<Longrightarrow> db_ok (snd (f d'))"
  shows "db_ok (snd (query f d))"
proof -
  have "db_ok (d\<lparr>db_clock := Suc (db_clock d)\<rparr>)" using assms(1) by simp
  then show ?thesis using query_state [of f d] assms(2) by auto
qed

lemma CreateSubmission_ok: "db_ok d \<Longrightarrow> db_ok (snd (CreateSubmission x d))"
  unfolding CreateSubmission_def
proof (rule query_ok, assumption, goal_cases)
  case (1 d)
  let ?r = "new_row x (db_uuid d (db_clock d)) (db_now d)"
  have "row_ok ?r" by (simp add: row_ok_def finished_def new_row_def go_simps)
  then have "db_ok (d\<lparr>submissions := submissions d @ [?r]\<rparr>)"
    if "\<forall>q \<in> set (submissions d). \<not> same_key q ?r"
    using 1 that by (auto simp: db_ok_def sorted_wrt_append)
  moreover have "row_id ?r = db_uuid d (db_clock d)" by (simp add: new_row_def)
  ultimately show ?case using 1 by (auto simp: Let_def same_key_def)
qed

lemma MarkJudging_ok: "db_ok d \<Longrightarrow> db_ok (snd (MarkJudging i runner attempt d))"
  unfolding MarkJudging_def
  by (rule query_ok, assumption)
    (auto intro!: update_sub_ok simp: preserves_key_def row_ok_def finished_def go_simps)

lemma SaveResult_ok: "db_ok d \<Longrightarrow> db_ok (snd (SaveResult r d))"
  unfolding SaveResult_def
proof (rule query_ok, assumption, goal_cases)
  case (1 d)
  have "db_ok (update_sub (r_SubmissionID r) unfinished (result_row r (db_now d)) d)" if "result_ok r"
    using 1 that
    by (intro update_sub_ok) (auto simp: preserves_key_def result_row_def row_ok_def finished_def result_ok_def)
  then show ?case using 1 by simp
qed

lemma BumpAttempt_ok: "db_ok d \<Longrightarrow> db_ok (snd (BumpAttempt i d))"
  unfolding BumpAttempt_def
  by (rule query_ok, assumption)
    (auto intro!: update_sub_ok simp: preserves_key_def row_ok_def finished_def split: option.split)

lemma db_step_ok: "db_step d d' \<Longrightarrow> db_ok d \<Longrightarrow> db_ok d'"
proof (induction rule: db_step.induct)
  case (cached d key)
  then show ?case unfolding CachedVerdict_def
    by (auto intro!: query_ok split: option.split)
next
  case (put_cached d key r)
  then show ?case unfolding PutCachedVerdict_def by (auto intro!: query_ok)
next
  case (user d u)
  then show ?case unfolding CreateUser_def by (auto intro!: query_ok simp: Let_def)
qed (auto simp: CreateSubmission_ok MarkJudging_ok SaveResult_ok BumpAttempt_ok)

subsection \<open>A verdict is final\<close>

lemma find_row_append: "find_row i d = Some r \<Longrightarrow> find_row i (d\<lparr>submissions := submissions d @ rs\<rparr>) = Some r"
  by (simp add: find_row_def find_append)

lemma find_row_update:
  assumes "preserves_key f"
  shows "find_row i (update_sub k guard f d) =
    map_option (\<lambda>r. if i = k \<and> guard r then f r else r) (find_row i d)"
proof -
  let ?g = "\<lambda>r. if row_id r = k \<and> guard r then f r else r"
  have id: "row_id (?g r) = row_id r" for r using assms by (simp add: preserves_key_def)
  have "find_row i (update_sub k guard f d) = map_option ?g (find (\<lambda>r. row_id (?g r) = i) (submissions d))"
    by (simp add: find_row_def update_sub_def find_map_pair o_def)
  also have "\<dots> = map_option ?g (find_row i d)" unfolding id by (simp add: find_row_def)
  also have "\<dots> = map_option (\<lambda>r. if i = k \<and> guard r then f r else r) (find_row i d)"
    by (auto simp: find_row_def find_Some_iff intro!: option.map_cong0 split: option.splits)
  finally show ?thesis .
qed

lemma db_ok_key:
  assumes "db_ok d" and "q \<in> set (submissions d)" and "r \<in> set (submissions d)" and "same_key q r"
  shows "q = r"
proof -
  obtain n m where n: "n < length (submissions d)" "submissions d ! n = q" and m: "m < length (submissions d)" "submissions d ! m = r"
    using assms(2,3) by (auto simp: in_set_conv_nth)
  have s: "\<not> same_key (submissions d ! a) (submissions d ! b)" if "a < b" "b < length (submissions d)" for a b
    using assms(1) that by (simp add: db_ok_def sorted_wrt_iff_nth_less)
  have "same_key r q" using assms(4) by (auto simp: same_key_def)
  then show ?thesis using s [of n m] s [of m n] n m assms(4) by (metis linorder_less_linear)
qed

lemma find_row_unique:
  "db_ok d \<Longrightarrow> find_row i d = Some r \<Longrightarrow> q \<in> set (submissions d) \<Longrightarrow> row_id q = i \<Longrightarrow> q = r"
  by (rule db_ok_key) (auto simp: find_row_def find_Some_iff same_key_def)

lemma test_rows_update:
  assumes "sid \<noteq> i"
  shows "filter (\<lambda>((s, _), _). s = i) (foldl (\<lambda>m t. AList.update (sid, f t) (g t) m) m ts) =
         filter (\<lambda>((s, _), _). s = i) m"
proof (induction ts arbitrary: m)
  case (Cons t ts)
  have "filter (\<lambda>((s, _), _). s = i) (AList.update (sid, k) v m) = filter (\<lambda>((s, _), _). s = i) m" for k v
    using assms by (induction m) auto
  then show ?case using Cons by simp
qed simp

lemma find_row_upd [simp]:
  "find_row i (d\<lparr>db_clock := n\<rparr>) = find_row i d" "find_row i (d\<lparr>db_now := t\<rparr>) = find_row i d"
  "find_row i (d\<lparr>submission_tests := m\<rparr>) = find_row i d" "find_row i (d\<lparr>verdict_cache := c\<rparr>) = find_row i d"
  "find_row i (d\<lparr>users := us\<rparr>) = find_row i d"
  by (simp_all add: find_row_def)

lemma test_rows_upd [simp]:
  "test_rows i (d\<lparr>db_clock := n\<rparr>) = test_rows i d" "test_rows i (d\<lparr>db_now := t\<rparr>) = test_rows i d"
  "test_rows i (d\<lparr>verdict_cache := c\<rparr>) = test_rows i d" "test_rows i (d\<lparr>users := us\<rparr>) = test_rows i d"
  "test_rows i (d\<lparr>submissions := ss\<rparr>) = test_rows i d" "test_rows i (update_sub k guard f d) = test_rows i d"
  by (simp_all add: test_rows_def update_sub_def)

text \<open>Everything of a row but its attempt counter, and its test rows.\<close>

definition settled :: "string \<Rightarrow> sub_row \<Rightarrow> TestResult list \<Rightarrow> db \<Rightarrow> bool" where
  "settled i r ts d \<longleftrightarrow>
     (\<exists>n. find_row i d = Some (r\<lparr>row_attempt := n\<rparr>)) \<and> test_rows i d = ts"

lemma settled_query:
  assumes "settled i r ts d" and "\<And>d'. db_ok d \<Longrightarrow> settled i r ts d' \<Longrightarrow> db_ok d' \<Longrightarrow> settled i r ts (snd (f d'))"
    and "db_ok d"
  shows "settled i r ts (snd (query f d))"
proof -
  let ?d = "d\<lparr>db_clock := Suc (db_clock d)\<rparr>"
  have "settled i r ts ?d" "db_ok ?d" using assms by (auto simp: settled_def)
  then show ?thesis using query_state [of f d] assms(2,3) by auto
qed

lemma settled_update:
  assumes "settled i r ts d" and "preserves_key f"
    and "k = i \<Longrightarrow> \<forall>n. \<not> guard (r\<lparr>row_attempt := n\<rparr>) \<or> (\<exists>m. f (r\<lparr>row_attempt := n\<rparr>) = r\<lparr>row_attempt := m\<rparr>)"
  shows "settled i r ts (update_sub k guard f d)"
proof -
  obtain n where n: "find_row i d = Some (r\<lparr>row_attempt := n\<rparr>)" and ts: "test_rows i d = ts"
    using assms(1) by (auto simp: settled_def)
  have row: "find_row i (update_sub k guard f d) =
      Some (if i = k \<and> guard (r\<lparr>row_attempt := n\<rparr>) then f (r\<lparr>row_attempt := n\<rparr>) else r\<lparr>row_attempt := n\<rparr>)"
    unfolding find_row_update [OF assms(2)] n by simp
  have "\<exists>m. find_row i (update_sub k guard f d) = Some (r\<lparr>row_attempt := m\<rparr>)"
  proof (cases "i = k \<and> guard (r\<lparr>row_attempt := n\<rparr>)")
    case True
    then show ?thesis using assms(3) row by auto
  next
    case False
    then have "find_row i (update_sub k guard f d) = Some (r\<lparr>row_attempt := n\<rparr>)"
      using row by (simp only: if_False)
    then show ?thesis by blast
  qed
  then show ?thesis using ts by (simp add: settled_def)
qed

lemma settled_SaveResult:
  assumes "settled i r ts d" and "row_status r = StatusDone" and "db_ok d"
  shows "settled i r ts (snd (SaveResult res d))"
  unfolding SaveResult_def
proof (rule settled_query [OF assms(1) _ assms(3)])
  fix d assume s: "settled i r ts d" and ok: "db_ok d"
  let ?id = "r_SubmissionID res"
  let ?d = "(update_sub ?id unfinished (result_row res (db_now d)) d)
         \<lparr>submission_tests := foldl (\<lambda>m t. AList.update (?id, t_Index t) (test_row t) m)
                  (submission_tests d) (r_Tests res)\<rparr>"
  show "settled i r ts (snd (if \<not> result_args_ok res then (Inl CheckViolation, d)
     else if \<not> (\<exists>q \<in> set (submissions d). row_id q = ?id \<and> unfinished q) then (Inr (), d)
     else if \<not> result_ok res \<or> \<not> list_all test_ok (r_Tests res) then (Inl CheckViolation, d)
     else (Inr (), ?d)))"
  proof (cases "?id = i")
    case True
    obtain n where "find_row i d = Some (r\<lparr>row_attempt := n\<rparr>)" using s by (auto simp: settled_def)
    then have "\<not> (\<exists>q \<in> set (submissions d). row_id q = ?id \<and> unfinished q)"
      using find_row_unique [OF ok] True assms(2) by (fastforce simp: unfinished_def)
    then show ?thesis using s by simp
  next
    case False
    have "preserves_key (result_row res (db_now d))" by (simp add: preserves_key_def result_row_def)
    then have "settled i r ts (update_sub ?id unfinished (result_row res (db_now d)) d)"
      using False s by (intro settled_update) auto
    moreover have "test_rows i ?d = test_rows i d"
      unfolding test_rows_def by (simp add: test_rows_update [OF False])
    ultimately have "settled i r ts ?d" by (simp add: settled_def)
    then show ?thesis using s by simp
  qed
qed

lemma settled_step:
  assumes "db_step d d'" and "settled i r ts d" and "row_status r = StatusDone" and "db_ok d"
  shows "settled i r ts d'"
  using assms
proof (induction rule: db_step.induct)
  case (create d x)
  then show ?case unfolding CreateSubmission_def
    by (intro settled_query) (auto simp: settled_def Let_def find_row_append)
next
  case (mark d k runner attempt)
  have "settled i r ts (update_sub k (\<lambda>r. row_status r \<in> {StatusQueued, StatusJudging})
        (\<lambda>r. r\<lparr>row_status := StatusJudging, row_runner_id := runner, row_attempt := attempt\<rparr>) d')"
    if "settled i r ts d'" for d'
    using that mark(2) by (intro settled_update) (simp_all add: preserves_key_def go_simps)
  then show ?case unfolding MarkJudging_def using mark by (intro settled_query) simp_all
next
  case (save d res)
  then show ?case by (intro settled_SaveResult)
next
  case (bump d k)
  have "settled i r ts (update_sub k (\<lambda>_. True) (\<lambda>q. q\<lparr>row_attempt := row_attempt q + 1\<rparr>) d')"
    if "settled i r ts d'" for d'
    using that by (intro settled_update) (auto simp: preserves_key_def)
  then show ?case unfolding BumpAttempt_def using bump by (intro settled_query) (simp_all split: option.split)
next
  case (cached d key)
  then show ?case unfolding CachedVerdict_def
    by (intro settled_query) (auto simp: settled_def split: option.split)
next
  case (put_cached d key r)
  then show ?case unfolding PutCachedVerdict_def by (intro settled_query) (auto simp: settled_def)
next
  case (user d u)
  then show ?case unfolding CreateUser_def by (intro settled_query) (auto simp: settled_def Let_def)
qed (simp_all add: settled_def)

lemma db_reach_ok: "db_step\<^sup>*\<^sup>* d d' \<Longrightarrow> db_ok d \<Longrightarrow> db_ok d'"
  by (induction rule: rtranclp_induct) (auto intro: db_step_ok)

lemma settled_reach:
  "db_step\<^sup>*\<^sup>* d d' \<Longrightarrow> settled i r ts d \<Longrightarrow> row_status r = StatusDone \<Longrightarrow> db_ok d \<Longrightarrow> settled i r ts d'"
  by (induction rule: rtranclp_induct) (auto intro: settled_step db_reach_ok)

subsection \<open>Reading a result back\<close>

lemma foldl_update_fresh:
  assumes "distinct (map f ts)" and "\<forall>t \<in> set ts. (sid, f t) \<notin> fst ` set m"
  shows "foldl (\<lambda>m t. AList.update (sid, f t) (g t) m) m ts = m @ map (\<lambda>t. ((sid, f t), g t)) ts"
  using assms
proof (induction ts arbitrary: m)
  case (Cons t ts)
  have "AList.update (sid, f t) (g t) m = m @ [((sid, f t), g t)]"
    using Cons.prems(2) by (intro update_fresh) auto
  moreover have "\<forall>t' \<in> set ts. (sid, f t') \<notin> fst ` set (m @ [((sid, f t), g t)])"
    using Cons.prems by (auto simp: image_iff)
  moreover have "distinct (map f ts)" using Cons.prems(1) by simp
  ultimately show ?case using Cons.IH [of "m @ [((sid, f t), g t)]"] by simp
qed simp

lemma filter_own: "filter (\<lambda>((s, _), _). s = i) (map (\<lambda>t. ((i, f t), g t)) ts) = map (\<lambda>t. ((i, f t), g t)) ts"
  by (induction ts) auto

lemma SaveResult_rows:
  assumes "db_ok d" and "find_row (r_SubmissionID r) d = Some q" and "row_status q \<noteq> StatusDone"
    and "result_ok r \<and> result_args_ok r" and "list_all test_ok (r_Tests r)" and "\<not> db_faults d (db_clock d)"
    and "test_rows (r_SubmissionID r) d = []" and "distinct (map t_Index (r_Tests r))"
    and "SaveResult r d = (res, d')"
  shows "res = Inr () \<and> find_row (r_SubmissionID r) d' = Some (result_row r (db_now d) q) \<and>
         test_rows (r_SubmissionID r) d' = sort_key t_Index (map test_row (r_Tests r))"
proof -
  let ?id = "r_SubmissionID r" and ?d = "d\<lparr>db_clock := Suc (db_clock d)\<rparr>"
  have hit: "\<exists>x \<in> set (submissions d). row_id x = ?id \<and> unfinished x"
    using assms(2,3) by (auto simp: find_row_def find_Some_iff unfinished_def)
  then have nh: "(\<forall>x \<in> set (submissions d). row_id x = ?id \<longrightarrow> \<not> unfinished x) = False" by auto
  let ?m = "foldl (\<lambda>m t. AList.update (?id, t_Index t) (test_row t) m) (submission_tests d) (r_Tests r)"
  have d': "d' = (update_sub ?id unfinished (result_row r (db_now d)) ?d)\<lparr>submission_tests := ?m\<rparr>" and res: "res = Inr ()"
    using assms(4-6,9) by (simp_all add: SaveResult_def query_def Let_def nh)
  have pk: "preserves_key (result_row r (db_now d))" by (simp add: preserves_key_def result_row_def)
  have row: "find_row ?id d' = Some (result_row r (db_now d) q)"
    using find_row_update [OF pk, of ?id ?id unfinished ?d] assms(2,3) by (simp add: d' unfinished_def)
  have "length (test_rows ?id d) = length (filter (\<lambda>((s, _), _). s = ?id) (submission_tests d))"
    by (simp add: test_rows_def)
  then have none: "filter (\<lambda>((s, _), _). s = ?id) (submission_tests d) = []"
    using assms(7) by (simp del: filter_empty_conv)
  then have "\<forall>t \<in> set (r_Tests r). (?id, t_Index t) \<notin> fst ` set (submission_tests d)"
    by (auto simp: filter_empty_conv)
  then have m: "?m = submission_tests d @ map (\<lambda>t. ((?id, t_Index t), test_row t)) (r_Tests r)"
    by (rule foldl_update_fresh [OF assms(8)])
  have "test_rows ?id d' = sort_key t_Index (map test_row (r_Tests r))"
    unfolding test_rows_def d' by (simp add: m none filter_own o_def del: filter_empty_conv)
  then show ?thesis using row res by blast
qed

subsection \<open>Text columns\<close>

lemma runes_ascii: "(of_char c :: nat) < 128 \<Longrightarrow> runes (replicate n c @ t) = replicate n (of_char c, [c]) @ runes t"
proof (induction n)
  case (Suc n)
  then show ?case by (simp add: runes_unfold [of "c # _"] DecodeRune_decode)
qed simp

lemma valid_text_ascii: "list_all (\<lambda>c. 0 < (of_char c :: nat) \<and> of_char c < (128 :: nat)) s \<Longrightarrow> valid_text s"
proof (induction s)
  case (Cons c s)
  have "EncodeRune (of_char c) = [c]" using Cons.prems by (simp add: EncodeRune_def encode_def valid_rune_def)
  then show ?case using Cons runes_ascii [of c 1 s] by (auto simp: valid_text_def)
qed (simp add: valid_text_def)

lemma truncated_text:
  assumes "s = replicate 7999 (CHR ''a'') @ EncodeRune 233"
  shows "valid_text s" and "\<not> valid_text (truncate s 8000)"
proof -
  have e: "EncodeRune 233 = [CHR 0xC3, CHR 0xA9]" by (simp add: EncodeRune_def encode_def valid_rune_def char_of_def bit_numeral_rec bit_0)
  have a: "EncodeRune 97 = ''a''" by (simp add: EncodeRune_def encode_def valid_rune_def char_of_def bit_numeral_rec bit_0)
  have "runes (EncodeRune 233) = [(233, EncodeRune 233)]"
    using runes_EncodeRune [of 233 "[]"] by (simp add: valid_rune_def)
  then have "runes s = replicate 7999 (97, ''a'') @ [(233, EncodeRune 233)]"
    using runes_ascii [of "CHR ''a''" 7999 "EncodeRune 233"] by (simp add: assms)
  then show "valid_text s" by (auto simp: valid_text_def a)
  have tr: "truncate s 8000 = replicate 7999 (CHR ''a'') @ CHR 0xC3 # CHR 0x0A # ''... [truncated]''"
    by (simp add: truncate_def assms e take_replicate)
  have "(RuneError, [CHR 0xC3]) \<in> set (runes (CHR 0xC3 # CHR 0x0A # ''... [truncated]''))"
    by (simp add: runes_unfold [of "CHR 0xC3 # _"] DecodeRune_decode second_ok_def)
  then have "(RuneError, [CHR 0xC3]) \<in> set (runes (truncate s 8000))"
    unfolding tr using runes_ascii [of "CHR ''a''" 7999] by simp
  moreover have "length (EncodeRune RuneError) = 3"
    by (simp add: EncodeRune_def encode_def RuneError_def valid_rune_def)
  then have "EncodeRune RuneError \<noteq> [CHR 0xC3]" by (metis One_nat_def length_Cons list.size(3) numeral_eq_one_iff semiring_norm(86))
  ultimately show "\<not> valid_text (truncate s 8000)"
    unfolding valid_text_def by (intro notI) (drule (1) bspec, simp)
qed

subsection \<open>Properties\<close>

text \<open>
  C5: a verdict is final: once a submission is \<^verbatim>\<open>DONE\<close>, no sequence of writes by any number of
  API processes, in any interleaving, with duplicated and late results, changes anything of
  its row but the attempt counter, nor its test rows.
\<close>

theorem verdict_final:
  assumes "db_ok d" and "find_row i d = Some r" and "row_status r = StatusDone" and "db_step\<^sup>*\<^sup>* d d'"
  shows "\<exists>n. find_row i d' = Some (r\<lparr>row_attempt := n\<rparr>) \<and> test_rows i d' = test_rows i d"
proof -
  have "settled i r (test_rows i d) d"
    unfolding settled_def using assms(2) by (intro conjI exI [of _ "row_attempt r"]) simp_all
  then show ?thesis using settled_reach [OF assms(4) _ assms(3,1)] by (auto simp: settled_def)
qed

definition empty_db :: db where
  "empty_db = \<lparr>users = [], contests = [], problems = [], test_cases = [], submissions = [],
     submission_tests = [], verdict_cache = [], db_now = 1, db_uuid = (\<lambda>n. replicate n CHR ''x''),
     db_clock = 0, db_faults = (\<lambda>_. False)\<rparr>"

definition sample_submission :: Submission where
  "sample_submission = scan_row \<lparr>row_id = [], row_user_id = ''u'', row_problem_id = ''p'', row_contest_id = ''c'',
     row_language = ''py'', row_source_ref = ''src'', row_source_hash = ''h'', row_status = [], row_verdict = None,
     row_cpu_ms = 0, row_wall_ms = 0, row_mem_kb = 0, row_instructions = 0, row_score = 0, row_failed_test = 0,
     row_compile_log = [], row_attempt = 0, row_runner_id = [], row_image_digest = [], row_testdata_version = ''v'',
     row_cpu_model = [], row_idempotency_key = None, row_created_at = 0, row_judged_at = None\<rparr>"

definition done_row :: sub_row where
  "done_row = (new_row sample_submission ''s'' 1)\<lparr>row_status := StatusDone, row_verdict := Some VerdictAC,
     row_judged_at := Some 2\<rparr>"

lemma sample_db_ok: "db_ok (empty_db\<lparr>submissions := [done_row]\<rparr>)"
  by (simp add: db_ok_def row_ok_def finished_def done_row_def new_row_def known_verdicts_def go_simps)

theorem verdict_final_witness:
  "\<exists>n. find_row ''s'' (snd (SaveResult (zero_SubmissionResult\<lparr>r_SubmissionID := ''s'', r_Status := StatusDone,
          r_Verdict := VerdictWA\<rparr>) (empty_db\<lparr>submissions := [done_row]\<rparr>))) =
       Some (done_row\<lparr>row_attempt := n\<rparr>)"
proof -
  let ?d = "empty_db\<lparr>submissions := [done_row]\<rparr>"
  let ?r = "zero_SubmissionResult\<lparr>r_SubmissionID := ''s'', r_Status := StatusDone, r_Verdict := VerdictWA\<rparr>"
  have f: "find_row ''s'' ?d = Some done_row" by (simp add: find_row_def done_row_def new_row_def)
  have s: "row_status done_row = StatusDone" by (simp add: done_row_def)
  have "db_step\<^sup>*\<^sup>* ?d (snd (SaveResult ?r ?d))" by (simp add: db_step.save r_into_rtranclp)
  from verdict_final [OF sample_db_ok f s this] show ?thesis by blast
qed

text \<open>
  What every reachable database satisfies: an identifier and a user's idempotency key
  name at most one submission, statuses are the four of the schema, and a finished submission
  has one of the eight verdicts and a judging time.
\<close>

theorem submissions_invariant:
  assumes "db_ok d" and "db_step\<^sup>*\<^sup>* d d'" and "q \<in> set (submissions d')" and "r \<in> set (submissions d')"
  shows "(same_key q r \<longrightarrow> q = r) \<and> row_ok r"
proof -
  have ok: "db_ok d'" using db_reach_ok assms(1,2) by blast
  have "row_ok r" using ok assms(4) by (auto simp: db_ok_def list_all_iff)
  then show ?thesis using db_ok_key [OF ok assms(3,4)] by blast
qed

theorem submissions_invariant_witness:
  "row_ok (hd (submissions (snd (BumpAttempt ''s'' (empty_db\<lparr>submissions := [done_row]\<rparr>)))))"
proof -
  let ?d = "empty_db\<lparr>submissions := [done_row]\<rparr>" let ?r = "hd (submissions (snd (BumpAttempt ''s'' ?d)))"
  have s: "db_step\<^sup>*\<^sup>* ?d (snd (BumpAttempt ''s'' ?d))" by (simp add: db_step.bump r_into_rtranclp)
  have r: "?r \<in> set (submissions (snd (BumpAttempt ''s'' ?d)))"
    by (simp add: BumpAttempt_def query_def Let_def update_sub_def empty_db_def split: option.split)
  show ?thesis using submissions_invariant [OF sample_db_ok s r r] by blast
qed

text \<open>
  C26: the first result saved for a submission is what is read back: status, verdict, readings,
  score, failing test and log of the result, and its tests in index order, each with its
  message cut at 500 bytes and without its sample output.
\<close>

theorem SaveResult_GetSubmission:
  assumes "db_ok d" and "find_row (r_SubmissionID r) d = Some q" and "row_status q \<noteq> StatusDone"
    and "result_ok r \<and> result_args_ok r" and "list_all test_ok (r_Tests r)"
    and "test_rows (r_SubmissionID r) d = []" and "distinct (map t_Index (r_Tests r))"
    and "list_all (\<lambda>n. \<not> db_faults d n) [db_clock d, db_clock d + 1, db_clock d + 2]"
  shows "\<exists>sub. fst (GetSubmission (r_SubmissionID r) (snd (SaveResult r d))) = Inr sub \<and>
     s_Status sub = r_Status r \<and> s_Verdict sub = r_Verdict r \<and> s_CPUms sub = r_CPUms r \<and>
     s_WallMs sub = r_WallMs r \<and> s_MemKB sub = r_MemKB r \<and> s_Score sub = r_Score r \<and>
     s_FailedTest sub = r_FailedTest r \<and> s_CompileLog sub = truncate (r_CompileLog r) 8000 \<and>
     s_JudgedAt sub = Some (db_now d) \<and> s_UserID sub = row_user_id q \<and>
     s_Tests sub = sort_key t_Index (map test_row (r_Tests r))"
proof -
  obtain res d' where sv: "SaveResult r d = (res, d')" by fastforce
  have flt: "\<not> db_faults d (db_clock d)" using assms(8) by simp
  have rows: "find_row (r_SubmissionID r) d' = Some (result_row r (db_now d) q)"
     "test_rows (r_SubmissionID r) d' = sort_key t_Index (map test_row (r_Tests r))"
    using SaveResult_rows [OF assms(1-5) flt assms(6,7) sv] by auto
  have "db_clock d' = Suc (db_clock d)" "db_faults d' = db_faults d"
    using sv by (auto simp: SaveResult_def query_def Let_def update_sub_def split: if_splits)
  then show ?thesis using assms(8) rows
    by (simp add: sv GetSubmission_def query_def Let_def find_row_def test_rows_def scan_row_def result_row_def)
qed

theorem SaveResult_GetSubmission_witness:
  "\<exists>sub. fst (GetSubmission ''s'' (snd (SaveResult (zero_SubmissionResult\<lparr>r_SubmissionID := ''s'',
       r_Status := StatusDone, r_Verdict := VerdictAC, r_CPUms := 12, r_Tests := []\<rparr>)
       (empty_db\<lparr>submissions := [new_row sample_submission ''s'' 1]\<rparr>)))) = Inr sub \<and>
     s_Verdict sub = VerdictAC \<and> s_CPUms sub = 12"
proof -
  let ?d = "empty_db\<lparr>submissions := [new_row sample_submission ''s'' 1]\<rparr>"
  let ?r = "zero_SubmissionResult\<lparr>r_SubmissionID := ''s'', r_Status := StatusDone, r_Verdict := VerdictAC,
     r_CPUms := 12, r_Tests := []\<rparr>"
  have "db_ok ?d" by (simp add: db_ok_def row_ok_def finished_def new_row_def go_simps)
  moreover have "find_row (r_SubmissionID ?r) ?d = Some (new_row sample_submission ''s'' 1)"
    by (simp add: find_row_def new_row_def)
  moreover have "row_status (new_row sample_submission ''s'' 1) \<noteq> StatusDone" by (simp add: new_row_def go_simps)
  moreover have "result_ok ?r \<and> result_args_ok ?r" 
    by (auto simp: result_ok_def result_args_ok_def zero_SubmissionResult_def known_verdicts_def truncate_def
      fits_int4_def go_simps intro!: valid_text_ascii)
  ultimately show ?thesis using SaveResult_GetSubmission [of ?d ?r]
    by (fastforce simp: test_rows_def empty_db_def zero_SubmissionResult_def)
qed


end
