(* ===== verification/Redis.thy ===== *)
theory Redis
  imports Float64 GoText "HOL-Library.AList"
begin

section \<open>The Redis server, as the adapters use it\<close>

text \<open>
  Redis is not part of the repository: its commands are the fields of a record \<open>redis\<close> over
  an abstract server state, an argument of every definition that talks to the server. What
  the adapters rely on is stated in three locales, from the documentation of the commands:
  \<open>redis_hashes\<close> (hashes, sorted sets and the conversion of script arguments),
  \<open>redis_locks\<close> (\<^verbatim>\<open>SET NX\<close>) and \<open>redis_streams\<close> (streams with one consumer group, through a
  view of the stream). \<open>ref_redis\<close> is a server that satisfies all three.

  A call of the client library is one command or script, executed atomically by the server.
  The library repeats a call after a network error, so a call that returns may have been
  executed several times, and one that fails any number of times (\<open>fate\<close>).
\<close>

type_synonym entry_fields = "(string \<times> string) list"

datatype redis_error = NetError | NoGroup | BusyGroup | NilReply | ScriptError

record 's redis =
  HGET :: "string \<Rightarrow> string \<Rightarrow> 's \<Rightarrow> string option"
  HSET :: "string \<Rightarrow> string \<Rightarrow> string \<Rightarrow> 's \<Rightarrow> 's"
  HGETALL :: "string \<Rightarrow> 's \<Rightarrow> (string \<times> string) list"
  ZADD :: "string \<Rightarrow> f64 \<Rightarrow> string \<Rightarrow> 's \<Rightarrow> 's"
  ZSCORE :: "string \<Rightarrow> string \<Rightarrow> 's \<Rightarrow> f64 option"
  ZREVRANGE :: "string \<Rightarrow> 's \<Rightarrow> (string \<times> f64) list"
  EXPIRE :: "string \<Rightarrow> int \<Rightarrow> 's \<Rightarrow> 's"
  DEL :: "string \<Rightarrow> 's \<Rightarrow> 's"
  SETNX :: "string \<Rightarrow> string \<Rightarrow> int \<Rightarrow> 's \<Rightarrow> bool \<times> 's"
  number_arg :: "f64 \<Rightarrow> string"
  tonumber :: "string \<Rightarrow> f64 option"
  XGROUP_CREATE :: "string \<Rightarrow> string \<Rightarrow> 's \<Rightarrow> (redis_error, unit) result \<times> 's"
  XADD :: "string \<Rightarrow> int \<Rightarrow> entry_fields \<Rightarrow> 's \<Rightarrow> 's"
  XREADGROUP :: "string \<Rightarrow> string \<Rightarrow> string \<Rightarrow> nat \<Rightarrow> 's \<Rightarrow> (redis_error, (string \<times> entry_fields) list) result \<times> 's"
  XCLAIM :: "string \<Rightarrow> string \<Rightarrow> string \<Rightarrow> int \<Rightarrow> string list \<Rightarrow> 's \<Rightarrow> (redis_error, (string \<times> entry_fields) list) result \<times> 's"
  XACK :: "string \<Rightarrow> string \<Rightarrow> string list \<Rightarrow> 's \<Rightarrow> 's"
  XDEL :: "string \<Rightarrow> string list \<Rightarrow> 's \<Rightarrow> 's"
  XPENDING :: "string \<Rightarrow> string \<Rightarrow> int \<Rightarrow> nat \<Rightarrow> 's \<Rightarrow> (redis_error, (string \<times> int) list) result"
  XPENDING_COUNT :: "string \<Rightarrow> string \<Rightarrow> 's \<Rightarrow> (redis_error, int) result"
  XINFO_GROUPS :: "string \<Rightarrow> 's \<Rightarrow> (redis_error, (string \<times> int) list) result"
  PUBLISH :: "string \<Rightarrow> string \<Rightarrow> 's \<Rightarrow> 's"

subsection \<open>Calls over the network\<close>

text \<open>
  \<open>Replied n\<close>: executed \<open>n + 1\<close> times, and the last reply arrived; \<open>Lost n\<close>: executed \<open>n\<close>
  times, and no reply arrived. \<open>NewClient\<close> allows three retries.
\<close>

datatype fate = Replied nat | Lost nat

record 's rdb =
  server :: 's
  calls :: nat
  fates :: "nat \<Rightarrow> fate"

type_synonym ('s, 'a) rcall = "'s rdb \<Rightarrow> (redis_error, 'a) result \<times> 's rdb"

definition MaxRetries :: nat where "MaxRetries = 3"

fun repeat :: "nat \<Rightarrow> ('s \<Rightarrow> 'a \<times> 's) \<Rightarrow> 's \<Rightarrow> 's" where
  "repeat 0 f s = s"
| "repeat (Suc n) f s = repeat n f (snd (f s))"

definition call :: "('s \<Rightarrow> (redis_error, 'a) result \<times> 's) \<Rightarrow> ('s, 'a) rcall" where
  "call f c =
     (let c' = c\<lparr>calls := calls c + 1\<rparr>
      in case fates c (calls c) of
           Replied n \<Rightarrow> (case f (repeat (min n MaxRetries) f (server c)) of (r, s) \<Rightarrow> (r, c'\<lparr>server := s\<rparr>))
         | Lost n \<Rightarrow> (Inl NetError, c'\<lparr>server := repeat (min n (Suc MaxRetries)) f (server c)\<rparr>))"

definition rpure :: "('s \<Rightarrow> 'a) \<Rightarrow> 's \<Rightarrow> (redis_error, 'a) result \<times> 's" where
  "rpure f s = (Inr (f s), s)"

definition rupdate :: "('s \<Rightarrow> 's) \<Rightarrow> 's \<Rightarrow> (redis_error, unit) result \<times> 's" where
  "rupdate f s = (Inr (), f s)"

lemmas rcall_defs = rpure_def rupdate_def

definition online :: "'s rdb \<Rightarrow> bool" where
  "online c \<longleftrightarrow> (\<forall>n. fates c n = Replied 0)"

lemma call_online: "online c \<Longrightarrow> call f c = (fst (f (server c)), c\<lparr>calls := calls c + 1, server := snd (f (server c))\<rparr>)"
  by (simp add: call_def online_def Let_def split: prod.split)

lemma online_update [simp]: "online (c\<lparr>server := s\<rparr>) = online c" "online (c\<lparr>calls := n\<rparr>) = online c"
  by (simp_all add: online_def)

text \<open>What one execution keeps, every call keeps.\<close>

lemma repeat_keeps: "(\<And>s. P s \<Longrightarrow> P (snd (f s))) \<Longrightarrow> P s \<Longrightarrow> P (repeat n f s)"
  by (induction n arbitrary: s) auto

lemma call_keeps: "(\<And>s. P s \<Longrightarrow> P (snd (f s))) \<Longrightarrow> P (server c) \<Longrightarrow> P (server (snd (call f c)))"
  by (auto simp: call_def Let_def repeat_keeps split: fate.split prod.split)
     (metis repeat_keeps snd_conv)

subsection \<open>Hashes, sorted sets and script arguments\<close>

locale redis_hashes =
  fixes R :: "'s redis"
  assumes hget_hset: "HGET R k f (HSET R k' f' v s) = (if k = k' \<and> f = f' then Some v else HGET R k f s)"
    and hgetall: "map_of (HGETALL R k s) f = HGET R k f s"
    and hgetall_distinct: "distinct (map fst (HGETALL R k s))"
    and zscore_zadd: "ZSCORE R k m (ZADD R k' x m' s) = (if k = k' \<and> m = m' then Some x else ZSCORE R k m s)"
    and hget_zadd: "k \<noteq> k' \<Longrightarrow> HGET R k f (ZADD R k' x m s) = HGET R k f s"
    and zscore_hset: "k \<noteq> k' \<Longrightarrow> ZSCORE R k m (HSET R k' f v s) = ZSCORE R k m s"
    and hget_expire: "HGET R k f (EXPIRE R k' t s) = HGET R k f s"
    and zscore_expire: "ZSCORE R k m (EXPIRE R k' t s) = ZSCORE R k m s"
    and hget_del: "HGET R k f (DEL R k' s) = (if k = k' then None else HGET R k f s)"
    and zscore_del: "ZSCORE R k m (DEL R k' s) = (if k = k' then None else ZSCORE R k m s)"
    and zrevrange: "map_of (ZREVRANGE R k s) m = ZSCORE R k m s"
    and zrevrange_distinct: "distinct (map fst (ZREVRANGE R k s))"
    and zrevrange_sorted: "sorted_wrt (\<lambda>a b. \<not> f64_lt (snd a) (snd b)) (ZREVRANGE R k s)"
    and tonumber_itoa: "tonumber R (itoa n) = Some (f64_of_int n)"
    and tonumber_number_arg: "representable q \<Longrightarrow> tonumber R (number_arg R (Fin q)) = Some (Fin q)"
    and hget_publish: "HGET R k f (PUBLISH R topic m s) = HGET R k f s"
    and zscore_publish: "ZSCORE R k m (PUBLISH R topic p s) = ZSCORE R k m s"

text \<open>A key set by \<^verbatim>\<open>SET NX\<close> stays until it is deleted or its time is up.\<close>

locale redis_locks =
  fixes R :: "'s redis" and held :: "string \<Rightarrow> 's \<Rightarrow> bool"
  assumes setnx: "fst (SETNX R k v ttl s) \<longleftrightarrow> \<not> held k s"
    and held_setnx: "0 < ttl \<Longrightarrow> held k' (snd (SETNX R k v ttl s)) \<longleftrightarrow> k' = k \<or> held k' s"
    and held_del: "held k' (DEL R k s) \<longleftrightarrow> k' \<noteq> k \<and> held k' s"

subsection \<open>Streams with a consumer group\<close>

text \<open>
  What a stream and its consumer group hold: the entries the group has read, those it has
  not, both in the order they were added, the pending entries with their owner, the time of
  their last delivery and the number of their deliveries, and the identifiers issued so far.
\<close>

record pending =
  owner :: string
  since :: int
  deliveries :: int

record group_view =
  entries_read :: "(string \<times> entry_fields) list"
  entries_waiting :: "(string \<times> entry_fields) list"
  pel :: "(string \<times> pending) list"
  issued :: "string list"

definition entries :: "group_view \<Rightarrow> (string \<times> entry_fields) list" where
  "entries v = entries_read v @ entries_waiting v"

text \<open>\<^verbatim>\<open>XADD\<close> with \<^verbatim>\<open>MAXLEN ~\<close>: the new entry at the end, \<open>n\<close> entries trimmed from the front.\<close>

definition v_add :: "nat \<Rightarrow> string \<Rightarrow> entry_fields \<Rightarrow> group_view \<Rightarrow> group_view" where
  "v_add n i f v = v\<lparr>entries_read := drop n (entries_read v),
     entries_waiting := drop (n - length (entries_read v)) (entries_waiting v) @ [(i, f)],
     issued := issued v @ [i]\<rparr>"

text \<open>\<^verbatim>\<open>XREADGROUP ... >\<close>: the first entries never delivered to the group.\<close>

definition v_read :: "string \<Rightarrow> int \<Rightarrow> nat \<Rightarrow> group_view \<Rightarrow> group_view" where
  "v_read consumer now n v =
     v\<lparr>entries_read := entries_read v @ take n (entries_waiting v),
       entries_waiting := drop n (entries_waiting v),
       pel := pel v @ map (\<lambda>(i, _). (i, \<lparr>owner = consumer, since = now, deliveries = 1\<rparr>)) (take n (entries_waiting v))\<rparr>"

text \<open>
  \<^verbatim>\<open>XCLAIM\<close> of one entry: it changes hands if it is pending and idle long enough; an entry
  that is no longer in the stream leaves the pending list and is not returned.
\<close>

definition claimable :: "int \<Rightarrow> int \<Rightarrow> group_view \<Rightarrow> string \<Rightarrow> bool" where
  "claimable now minIdle v i \<longleftrightarrow> (case map_of (pel v) i of None \<Rightarrow> False | Some p \<Rightarrow> minIdle \<le> now - since p)"

definition v_claim1 :: "string \<Rightarrow> int \<Rightarrow> int \<Rightarrow> group_view \<Rightarrow> string \<Rightarrow> group_view" where
  "v_claim1 consumer now minIdle v i =
     (if \<not> claimable now minIdle v i then v
      else case map_of (entries v) i of
          None \<Rightarrow> v\<lparr>pel := AList.delete i (pel v)\<rparr>
        | Some _ \<Rightarrow> v\<lparr>pel := map (\<lambda>(j, p). (j, if j = i then \<lparr>owner = consumer, since = now, deliveries = deliveries p + 1\<rparr> else p)) (pel v)\<rparr>)"

definition v_claimed1 :: "int \<Rightarrow> int \<Rightarrow> group_view \<Rightarrow> string \<Rightarrow> (string \<times> entry_fields) list" where
  "v_claimed1 now minIdle v i =
     (if \<not> claimable now minIdle v i then []
      else case map_of (entries v) i of None \<Rightarrow> [] | Some f \<Rightarrow> [(i, f)])"

fun v_claim :: "string \<Rightarrow> int \<Rightarrow> int \<Rightarrow> string list \<Rightarrow> group_view \<Rightarrow> (string \<times> entry_fields) list \<times> group_view" where
  "v_claim consumer now minIdle [] v = ([], v)"
| "v_claim consumer now minIdle (i # is) v =
     (case v_claim consumer now minIdle is (v_claim1 consumer now minIdle v i) of
        (ms, v') \<Rightarrow> (v_claimed1 now minIdle v i @ ms, v'))"

definition v_ack :: "string list \<Rightarrow> group_view \<Rightarrow> group_view" where
  "v_ack ids v = v\<lparr>pel := filter (\<lambda>(i, _). i \<notin> set ids) (pel v)\<rparr>"

definition v_del :: "string list \<Rightarrow> group_view \<Rightarrow> group_view" where
  "v_del ids v = v\<lparr>entries_read := filter (\<lambda>(i, _). i \<notin> set ids) (entries_read v),
     entries_waiting := filter (\<lambda>(i, _). i \<notin> set ids) (entries_waiting v)\<rparr>"

definition v_pending :: "int \<Rightarrow> int \<Rightarrow> nat \<Rightarrow> group_view \<Rightarrow> (string \<times> int) list" where
  "v_pending now minIdle n v =
     take n (map (\<lambda>(i, p). (i, deliveries p)) (filter (\<lambda>(_, p). minIdle \<le> now - since p) (pel v)))"

text \<open>
  The identifiers of a stream grow, so a new entry's identifier has not been issued before.
\<close>

locale redis_streams =
  fixes R :: "'s redis" and view :: "string \<Rightarrow> string \<Rightarrow> 's \<Rightarrow> group_view option" and time :: "'s \<Rightarrow> int"
  assumes xadd: "view st g s = Some v \<Longrightarrow> \<exists>n i. view st g (XADD R st m f s) = Some (v_add n i f v) \<and>
        i \<notin> set (issued v) \<and> (0 < n \<longrightarrow> m \<le> int (length (entries v)) \<and> n \<le> length (entries v))"
    and xadd_other: "st' \<noteq> st \<Longrightarrow> view st g (XADD R st' m f s) = view st g s"
    and xgroup: "XGROUP_CREATE R st g s = (u, s') \<Longrightarrow> view st g s = Some v \<Longrightarrow> u = Inl BusyGroup \<and> s' = s"
    and xgroup_new: "XGROUP_CREATE R st g s = (u, s') \<Longrightarrow> view st g s = None \<Longrightarrow>
        u = Inr () \<and> (\<exists>es is. view st g s' = Some \<lparr>entries_read = es, entries_waiting = [], pel = [], issued = is\<rparr> \<and>
           distinct (map fst es) \<and> fst ` set es \<subseteq> set is)"
    and xread: "view st g s = Some v \<Longrightarrow> XREADGROUP R st g c n s = (r, s') \<Longrightarrow>
        view st g s' = Some (v_read c (time s) n v) \<and>
        r = (if entries_waiting v = [] then Inl NilReply else Inr (take n (entries_waiting v)))"
    and xread_nogroup: "view st g s = None \<Longrightarrow> XREADGROUP R st g c n s = (Inl NoGroup, s)"
    and xclaim: "view st g s = Some v \<Longrightarrow> XCLAIM R st g c idle ids s = (r, s') \<Longrightarrow>
        view st g s' = Some (snd (v_claim c (time s) idle ids v)) \<and> r = Inr (fst (v_claim c (time s) idle ids v))"
    and xclaim_nogroup: "view st g s = None \<Longrightarrow> XCLAIM R st g c idle ids s = (Inl NoGroup, s)"
    and xack: "view st g (XACK R st g ids s) = map_option (v_ack ids) (view st g s)"
    and xdel: "view st g (XDEL R st ids s) = map_option (v_del ids) (view st g s)"
    and xpending: "view st g s = Some v \<Longrightarrow> XPENDING R st g idle n s = Inr (v_pending (time s) idle n v)"
    and xpending_nogroup: "view st g s = None \<Longrightarrow> XPENDING R st g idle n s = Inl NoGroup"
    and time_xadd: "time (XADD R st m f s) = time s"
    and time_xclaim: "time (snd (XCLAIM R st g c idle ids s)) = time s"


subsection \<open>A server that keeps the laws\<close>

text \<open>The order of scores; NaN, which \<^verbatim>\<open>ZADD\<close> refuses, is put last.\<close>

instantiation f64 :: linorder
begin

fun less_eq_f64 :: "f64 \<Rightarrow> f64 \<Rightarrow> bool" where
  "less_eq_f64 NInf _ = True"
| "less_eq_f64 _ NaN = True"
| "less_eq_f64 NaN _ = False"
| "less_eq_f64 (Fin x) (Fin y) = (x \<le> y)"
| "less_eq_f64 (Fin x) b = (b = PInf)"
| "less_eq_f64 PInf b = (b = PInf)"

definition less_f64 :: "f64 \<Rightarrow> f64 \<Rightarrow> bool" where
  "less_f64 a b \<longleftrightarrow> a \<le> b \<and> \<not> b \<le> a" for a b :: f64

instance
proof
  fix a b c :: f64
  show "a < b \<longleftrightarrow> a \<le> b \<and> \<not> b \<le> a" by (rule less_f64_def)
  show "a \<le> a" by (cases a) simp_all
  show "a \<le> b \<Longrightarrow> b \<le> c \<Longrightarrow> a \<le> c" by (cases a; cases b; cases c) simp_all
  show "a \<le> b \<Longrightarrow> b \<le> a \<Longrightarrow> a = b" by (cases a; cases b) simp_all
  show "a \<le> b \<or> b \<le> a" by (cases a; cases b) auto
qed

end

lemma f64_lt_less: "f64_lt a b \<Longrightarrow> a < b"
  by (cases a; cases b) (simp_all add: less_f64_def)

lemma f64_lt_Fin_iff [simp]: "Fin x < Fin y \<longleftrightarrow> x < y" "Fin x \<le> Fin y \<longleftrightarrow> x \<le> y"
  by (auto simp: less_f64_def)

record ref_state =
  ref_hash :: "string \<Rightarrow> (string \<times> string) list"
  ref_zset :: "string \<Rightarrow> (string \<times> f64) list"
  ref_held :: "string list"
  ref_groups :: "((string \<times> string) \<times> group_view) list"
  ref_published :: "(string \<times> string) list"
  ref_time :: int

definition ref_view :: "string \<Rightarrow> string \<Rightarrow> ref_state \<Rightarrow> group_view option" where
  "ref_view st g s = map_of (ref_groups s) (st, g)"

definition ref_fresh :: "ref_state \<Rightarrow> string" where
  "ref_fresh s = replicate (Suc (sum_list (map (\<lambda>(_, v). sum_list (map length (issued v))) (ref_groups s)))) CHR ''0''"

definition ref_on :: "string \<Rightarrow> (group_view \<Rightarrow> group_view) \<Rightarrow> ref_state \<Rightarrow> ref_state" where
  "ref_on st f s = s\<lparr>ref_groups := map (\<lambda>((st', g), v). ((st', g), if st' = st then f v else v)) (ref_groups s)\<rparr>"

definition ref_with :: "string \<Rightarrow> string \<Rightarrow> (group_view \<Rightarrow> (redis_error, 'a) result \<times> group_view) \<Rightarrow> ref_state \<Rightarrow> (redis_error, 'a) result \<times> ref_state" where
  "ref_with st g f s = (case ref_view st g s of
       None \<Rightarrow> (Inl NoGroup, s)
     | Some v \<Rightarrow> (fst (f v), s\<lparr>ref_groups := AList.update (st, g) (snd (f v)) (ref_groups s)\<rparr>))"

definition ref_number_arg :: "f64 \<Rightarrow> string" where
  "ref_number_arg x = (case x of Fin q \<Rightarrow> CHR ''r'' # itoa (fst (quotient_of q)) @ CHR ''/'' # itoa (snd (quotient_of q)) | _ \<Rightarrow> ''nan'')"

definition ref_tonumber :: "string \<Rightarrow> f64 option" where
  "ref_tonumber s =
     (if s \<noteq> [] \<and> hd s = CHR ''r''
      then (case read_int (tl s) of
              Some (p, _ # t) \<Rightarrow> map_option (\<lambda>(q, _). Fin (of_int p / of_int q)) (read_int t)
            | _ \<Rightarrow> None)
      else case read_int s of Some (n, []) \<Rightarrow> Some (f64_of_int n) | _ \<Rightarrow> None)"

definition ref_redis :: "ref_state redis" where
  "ref_redis = \<lparr>
     HGET = (\<lambda>k f s. map_of (ref_hash s k) f),
     HSET = (\<lambda>k f v s. s\<lparr>ref_hash := (ref_hash s)(k := AList.update f v (ref_hash s k))\<rparr>),
     HGETALL = (\<lambda>k s. AList.clearjunk (ref_hash s k)),
     ZADD = (\<lambda>k x m s. s\<lparr>ref_zset := (ref_zset s)(k := AList.update m x (ref_zset s k))\<rparr>),
     ZSCORE = (\<lambda>k m s. map_of (ref_zset s k) m),
     ZREVRANGE = (\<lambda>k s. rev (sort_key snd (AList.clearjunk (ref_zset s k)))),
     EXPIRE = (\<lambda>k t s. s),
     DEL = (\<lambda>k s. s\<lparr>ref_hash := (ref_hash s)(k := []), ref_zset := (ref_zset s)(k := []),
                    ref_held := removeAll k (ref_held s)\<rparr>),
     SETNX = (\<lambda>k v ttl s. if k \<in> set (ref_held s) then (False, s) else (True, s\<lparr>ref_held := k # ref_held s\<rparr>)),
     number_arg = ref_number_arg,
     tonumber = ref_tonumber,
     XGROUP_CREATE = (\<lambda>st g s. case ref_view st g s of
         Some _ \<Rightarrow> (Inl BusyGroup, s)
       | None \<Rightarrow> (Inr (), s\<lparr>ref_groups := ((st, g), \<lparr>entries_read = [], entries_waiting = [], pel = [], issued = []\<rparr>) # ref_groups s\<rparr>)),
     XADD = (\<lambda>st m f s. ref_on st (v_add 0 (ref_fresh s) f) s),
     XREADGROUP = (\<lambda>st g c n s. ref_with st g (\<lambda>v.
         (if entries_waiting v = [] then Inl NilReply else Inr (take n (entries_waiting v)), v_read c (ref_time s) n v)) s),
     XCLAIM = (\<lambda>st g c idle ids s. ref_with st g (\<lambda>v. map_prod Inr id (v_claim c (ref_time s) idle ids v)) s),
     XACK = (\<lambda>st g ids s. s\<lparr>ref_groups := map (\<lambda>(k, v). (k, if k = (st, g) then v_ack ids v else v)) (ref_groups s)\<rparr>),
     XDEL = (\<lambda>st ids. ref_on st (v_del ids)),
     XPENDING = (\<lambda>st g idle n s. case ref_view st g s of None \<Rightarrow> Inl NoGroup
       | Some v \<Rightarrow> Inr (v_pending (ref_time s) idle n v)),
     XPENDING_COUNT = (\<lambda>st g s. case ref_view st g s of None \<Rightarrow> Inl NoGroup | Some v \<Rightarrow> Inr (int (length (pel v)))),
     XINFO_GROUPS = (\<lambda>st s. Inr (map (\<lambda>((_, g), v). (g, int (length (entries_waiting v))))
         (filter (\<lambda>((st', _), _). st' = st) (ref_groups s)))),
     PUBLISH = (\<lambda>topic m s. s\<lparr>ref_published := ref_published s @ [(topic, m)]\<rparr>)\<rparr>"

lemma itoa_head: "\<exists>c s. itoa n = c # s \<and> c \<noteq> CHR ''r''"
proof (cases "n < 0")
  case False
  obtain c s where "utoa (nat n) = c # s" "dec_digit c" using utoa_head by metis
  moreover have "c \<noteq> CHR ''r''" using calculation(2) by (auto simp: dec_digit_def)
  ultimately show ?thesis using False by (simp add: itoa_def)
qed (simp add: itoa_def)

lemma ref_tonumber_itoa: "ref_tonumber (itoa n) = Some (f64_of_int n)"
proof -
  obtain c s where u: "itoa n = c # s" and c: "c \<noteq> CHR ''r''" using itoa_head by metis
  have "read_int (itoa n) = Some (n, [])" using read_int_itoa [of "[]" n] by simp
  then show ?thesis using c unfolding ref_tonumber_def by (simp add: u)
qed

lemma ref_tonumber_number_arg: "ref_tonumber (ref_number_arg (Fin q)) = Some (Fin q)"
proof -
  obtain p d where pd: "quotient_of q = (p, d)" by fastforce
  have "\<not> dec_digit (CHR ''/'')" by (simp add: dec_digit_def)
  then have "read_int (itoa p @ CHR ''/'' # itoa d) = Some (p, CHR ''/'' # itoa d)" by (intro read_int_itoa) simp
  moreover have "read_int (itoa d) = Some (d, [])" using read_int_itoa [of "[]" d] by simp
  ultimately have "ref_tonumber (ref_number_arg (Fin q)) = Some (Fin (of_int p / of_int d))"
    by (simp add: ref_tonumber_def ref_number_arg_def pd)
  then show ?thesis using quotient_of_div [OF pd] by simp
qed

lemma map_of_rev_sort_key: "distinct (map fst xs) \<Longrightarrow> map_of (rev (sort_key f xs)) k = map_of xs k"
proof -
  assume d: "distinct (map fst xs)"
  have "distinct (map fst (rev (sort_key f xs)))"
    using d by (metis distinct_map distinct_rev distinct_sort set_rev set_sort)
  then show ?thesis using d by (intro map_of_eqI [THEN fun_cong]) auto
qed

lemma sorted_rev_sort_key: "sorted_wrt (\<lambda>a b. \<not> f64_lt (snd a) (snd b)) (rev (sort_key snd xs))"
proof -
  have "sorted_wrt (\<lambda>x y. x \<le> y) (map snd (sort_key snd xs))" by simp
  then have "sorted_wrt (\<lambda>a b. snd a \<le> snd b) (sort_key snd xs)" by (simp only: sorted_wrt_map)
  then show ?thesis unfolding sorted_wrt_rev
    by (rule sorted_wrt_mono_rel [rotated]) (metis f64_lt_less leD)
qed

interpretation ref_hashes: redis_hashes ref_redis
proof (unfold_locales, goal_cases)
  case (11 k s m)
  then show ?case by (simp add: ref_redis_def map_of_rev_sort_key distinct_clearjunk map_of_clearjunk)
next
  case (12 k s)
  then show ?case unfolding ref_redis_def
    by simp (metis distinct_clearjunk distinct_map distinct_rev distinct_sort rev_map set_sort)
next
  case (13 k s)
  then show ?case unfolding ref_redis_def redis.simps by (rule sorted_rev_sort_key)
qed (auto simp: ref_redis_def distinct_clearjunk map_of_clearjunk update_conv ref_tonumber_itoa ref_tonumber_number_arg)

interpretation ref_locks: redis_locks ref_redis "\<lambda>k s. k \<in> set (ref_held s)"
  by unfold_locales (auto simp: ref_redis_def)

lemma ref_view_on: "ref_view st g (ref_on st' f s) = (if st = st' then map_option f (ref_view st g s) else ref_view st g s)"
proof -
  have "map_of (map (\<lambda>((st'', g), v). ((st'', g), if st'' = st' then f v else v)) gs) (st, g) =
        (if st = st' then map_option f (map_of gs (st, g)) else map_of gs (st, g))" for gs
    by (induction gs) auto
  then show ?thesis by (simp add: ref_view_def ref_on_def)
qed

lemma ref_view_with:
  "ref_view st g s = Some v \<Longrightarrow> ref_with st g f s = (r, s') \<Longrightarrow> ref_view st g s' = Some (snd (f v)) \<and> r = fst (f v)"
  by (auto simp: ref_with_def ref_view_def update_conv)

lemma ref_fresh_new:
  assumes "ref_view st g s = Some v"
  shows "ref_fresh s \<notin> set (issued v)"
proof
  assume i: "ref_fresh s \<in> set (issued v)"
  have "((st, g), v) \<in> set (ref_groups s)" using assms by (auto simp: ref_view_def dest: map_of_SomeD)
  then have "sum_list (map length (issued v)) < length (ref_fresh s)"
    unfolding ref_fresh_def length_replicate
    by (intro le_imp_less_Suc member_le_sum_list) (auto intro!: image_eqI [of _ _ "((st, g), v)"])
  moreover have "length (ref_fresh s) \<le> sum_list (map length (issued v))" using i by (intro member_le_sum_list) auto
  ultimately show False by simp
qed

interpretation ref_streams: redis_streams ref_redis ref_view ref_time
proof (unfold_locales, goal_cases)
  case (1 st g s v m f)
  then show ?case using ref_fresh_new [OF 1]
    by (intro exI [of _ 0] exI [of _ "ref_fresh s"]) (simp add: ref_redis_def ref_view_on)
next
  case (5 st g s v c n r s')
  let ?f = "\<lambda>v. (if entries_waiting v = [] then Inl NilReply else Inr (take n (entries_waiting v)), v_read c (ref_time s) n v)"
  have "ref_with st g ?f s = (r, s')" using 5(2) by (simp add: ref_redis_def)
  from ref_view_with [OF 5(1) this] show ?case by simp
next
  case (7 st g s v c idle ids r s')
  have "ref_with st g (\<lambda>v. map_prod Inr id (v_claim c (ref_time s) idle ids v)) s = (r, s')"
    using 7(2) by (simp add: ref_redis_def)
  from ref_view_with [OF 7(1) this] show ?case by simp
next
  case (9 st g ids s)
  have "map_of (map (\<lambda>(k, v). (k, if k = (st, g) then v_ack ids v else v)) gs) (st, g) = map_option (v_ack ids) (map_of gs (st, g))" for gs
    by (induction gs) auto
  then show ?case by (simp add: ref_redis_def ref_view_def)
next
  case (2 st' st g f s)
  then show ?case by (simp add: ref_redis_def ref_view_on)
next
  case (10 st g ids s)
  then show ?case by (simp add: ref_redis_def ref_view_on)
qed (auto simp: ref_redis_def ref_with_def ref_on_def ref_view_def split: option.splits)

end
