(* ===== verification/Queue.thy ===== *)
theory Queue
  imports Redis Job GoTime
begin

section \<open>The job queue (\<^verbatim>\<open>internal/adapters/redisq/queue.go\<close>)\<close>

text \<open>
  The queue on a Redis stream with one consumer group. The JSON encoding of a job is the
  record \<open>codec\<close>, an argument of the operations. The operations of the Go code are the
  definitions of the same names, on the client state of theory \<open>Redis\<close>. The lemmas carry two
  facts through every operation of every client, whatever calls are repeated or lost: a
  message that is not acknowledged stays where a consumer or the reclaimer finds it
  (\<open>outstanding\<close>), and a message that has been delivered once is never delivered by
  \<open>Consume\<close> again (\<open>delivered\<close>).
\<close>

record Queue =
  q_stream :: string
  q_group :: string
  q_dlq :: string
  q_maxLen :: int
  q_leaseTTL :: duration

record QueueOpts =
  o_Stream :: string
  o_Group :: string
  o_MaxLen :: int
  o_LeaseTTL :: duration

record Delivery =
  MessageID :: string
  d_Job :: JobSpec

record codec =
  json_of_job :: "JobSpec \<Rightarrow> string option"
  job_of_json :: "string \<Rightarrow> JobSpec option"

definition queue_of :: "QueueOpts \<Rightarrow> Queue" where
  "queue_of opts =
     (let stream = (if o_Stream opts = [] then ''judge.jobs'' else o_Stream opts)
      in \<lparr>q_stream = stream,
          q_group = (if o_Group opts = [] then ''judges'' else o_Group opts),
          q_dlq = stream @ ''.dlq'',
          q_maxLen = (if o_MaxLen opts = 0 then 200000 else o_MaxLen opts),
          q_leaseTTL = (if o_LeaseTTL opts = 0 then 90 * Second_ns else o_LeaseTTL opts)\<rparr>)"

definition NewQueue :: "'s redis \<Rightarrow> QueueOpts \<Rightarrow> ('s, Queue) rcall" where
  "NewQueue R opts c =
     (let q = queue_of opts
      in case call (XGROUP_CREATE R (q_stream q) (q_group q)) c of
           (Inl e, c') \<Rightarrow> if e = NilReply \<or> e = BusyGroup then (Inr q, c') else (Inl e, c')
         | (Inr _, c') \<Rightarrow> (Inr q, c'))"

datatype publish_error = MarshalError | RedisError redis_error

definition Publish :: "'s redis \<Rightarrow> codec \<Rightarrow> Queue \<Rightarrow> JobSpec \<Rightarrow> 's rdb \<Rightarrow> publish_error option \<times> 's rdb" where
  "Publish R J q job c =
     (case json_of_job J job of
        None \<Rightarrow> (Some MarshalError, c)
      | Some b \<Rightarrow>
          (case call (rupdate (XADD R (q_stream q) (q_maxLen q) [(''job'', b)])) c of
             (Inl e, c') \<Rightarrow> (Some (RedisError e), c')
           | (Inr _, c') \<Rightarrow> (None, c')))"

text \<open>\<^verbatim>\<open>m.Values["job"].(string)\<close>, empty if there is no such value, and its decoding.\<close>

definition raw_job :: "entry_fields \<Rightarrow> string" where
  "raw_job fs = (case map_of fs ''job'' of None \<Rightarrow> [] | Some raw \<Rightarrow> raw)"

definition decode :: "codec \<Rightarrow> (string \<times> entry_fields) list \<Rightarrow> Delivery list" where
  "decode J ms =
     concat (map (\<lambda>(i, fs). case job_of_json J (raw_job fs) of
        None \<Rightarrow> [] | Some job \<Rightarrow> [\<lparr>MessageID = i, d_Job = job\<rparr>]) ms)"

definition Consume :: "'s redis \<Rightarrow> codec \<Rightarrow> Queue \<Rightarrow> string \<Rightarrow> nat \<Rightarrow> ('s, Delivery list) rcall" where
  "Consume R J q consumer n c =
     (case call (XREADGROUP R (q_stream q) (q_group q) consumer n) c of
        (Inr ms, c') \<Rightarrow> (Inr (decode J ms), c')
      | (Inl e, c') \<Rightarrow>
          if e = NilReply then (Inr [], c')
          else if e = NoGroup
          then (case call (XGROUP_CREATE R (q_stream q) (q_group q)) c' of
                  (Inr _, c'') \<Rightarrow> (Inr [], c'') | (Inl _, c'') \<Rightarrow> (Inl e, c''))
          else (Inl e, c'))"

definition claim_only :: "'s redis \<Rightarrow> Queue \<Rightarrow> string \<Rightarrow> string list \<Rightarrow> ('s, unit) rcall" where
  "claim_only R q consumer ids c =
     (if ids = [] then (Inr (), c)
      else case call (XCLAIM R (q_stream q) (q_group q) consumer 0 ids) c of
             (Inl e, c') \<Rightarrow> (Inl e, c') | (Inr _, c') \<Rightarrow> (Inr (), c'))"

definition Heartbeat :: "'s redis \<Rightarrow> Queue \<Rightarrow> string \<Rightarrow> string list \<Rightarrow> ('s, unit) rcall" where
  "Heartbeat R q consumer ids = claim_only R q consumer ids"

definition Nack :: "'s redis \<Rightarrow> Queue \<Rightarrow> string list \<Rightarrow> ('s, unit) rcall" where
  "Nack R q ids = claim_only R q ''__nacked__'' ids"

definition Ack :: "'s redis \<Rightarrow> Queue \<Rightarrow> string list \<Rightarrow> ('s, unit) rcall" where
  "Ack R q ids c =
     (if ids = [] then (Inr (), c)
      else call (rupdate (\<lambda>s. XDEL R (q_stream q) ids (XACK R (q_stream q) (q_group q) ids s))) c)"

subsection \<open>Reclaim\<close>

text \<open>
  \<open>claim\<close> is the closure of \<open>Reclaim\<close>: what it decodes, and the identifiers it appends to
  \<^verbatim>\<open>deadIDs\<close> because they do not decode.
\<close>

definition attempt_of :: "(string \<times> int) list \<Rightarrow> string \<Rightarrow> int" where
  "attempt_of pend i = (case map_of pend i of None \<Rightarrow> 0 | Some n \<Rightarrow> n)"

definition claimed_deliveries :: "codec \<Rightarrow> (string \<times> int) list \<Rightarrow> (string \<times> entry_fields) list \<Rightarrow> Delivery list" where
  "claimed_deliveries J pend ms =
     map (\<lambda>d. d\<lparr>d_Job := (d_Job d)\<lparr>job_Attempt := attempt_of pend (MessageID d) + 1\<rparr>\<rparr>) (decode J ms)"

definition undecodable :: "codec \<Rightarrow> (string \<times> entry_fields) list \<Rightarrow> string list" where
  "undecodable J ms = map fst (filter (\<lambda>(_, fs). job_of_json J (raw_job fs) = None) ms)"

definition claim :: "'s redis \<Rightarrow> codec \<Rightarrow> Queue \<Rightarrow> (string \<times> int) list \<Rightarrow> duration \<Rightarrow> string list \<Rightarrow> string \<Rightarrow>
    ('s, Delivery list \<times> string list) rcall" where
  "claim R J q pend minIdle ids consumer c =
     (if ids = [] then (Inr ([], []), c)
      else case call (XCLAIM R (q_stream q) (q_group q) consumer minIdle ids) c of
             (Inl e, c') \<Rightarrow> (Inl e, c')
           | (Inr ms, c') \<Rightarrow> (Inr (claimed_deliveries J pend ms, undecodable J ms), c'))"

definition dead_letter :: "'s redis \<Rightarrow> codec \<Rightarrow> Queue \<Rightarrow> Delivery \<Rightarrow> 's rdb \<Rightarrow> 's rdb" where
  "dead_letter R J q d c =
     snd (call (rupdate (XADD R (q_dlq q) 10000
       [(''job'', case json_of_job J (d_Job d) of None \<Rightarrow> [] | Some b \<Rightarrow> b),
        (''reason'', ''max attempts exceeded'')])) c)"

definition Reclaim :: "'s redis \<Rightarrow> codec \<Rightarrow> Queue \<Rightarrow> string \<Rightarrow> duration \<Rightarrow> int \<Rightarrow> 's rdb \<Rightarrow>
    ((Delivery list \<times> Delivery list) \<times> redis_error option) \<times> 's rdb" where
  "Reclaim R J q consumer minIdle maxAttempts c =
     (case call (\<lambda>s. (XPENDING R (q_stream q) (q_group q) minIdle 64 s, s)) c of
        (Inl e, c1) \<Rightarrow> ((([], []), Some e), c1)
      | (Inr pend, c1) \<Rightarrow>
          if pend = [] then ((([], []), None), c1)
          else let deadIDs = map fst (filter (\<lambda>(_, n). maxAttempts \<le> n) pend);
                   liveIDs = map fst (filter (\<lambda>(_, n). \<not> maxAttempts \<le> n) pend)
               in case claim R J q pend minIdle liveIDs consumer c1 of
                    (Inl e, c2) \<Rightarrow> ((([], []), Some e), c2)
                  | (Inr (live, bad), c2) \<Rightarrow>
                      (case claim R J q pend minIdle (deadIDs @ bad) (consumer @ ''-dlq'') c2 of
                         (Inl e, c3) \<Rightarrow> (((live, []), Some e), c3)
                       | (Inr (dead, _), c3) \<Rightarrow>
                           (((live, dead), None), fold (dead_letter R J q) dead c3)))"

definition Depth :: "'s redis \<Rightarrow> Queue \<Rightarrow> ('s, int \<times> int) rcall" where
  "Depth R q c =
     (case call (\<lambda>s. (XPENDING_COUNT R (q_stream q) (q_group q) s, s)) c of
        (p, c1) \<Rightarrow>
          if (case p of Inl e \<Rightarrow> e \<noteq> NilReply | Inr _ \<Rightarrow> False)
          then (case p of Inl e \<Rightarrow> (Inl e, c1) | Inr _ \<Rightarrow> (Inr (0, 0), c1))
          else let count = (case p of Inl _ \<Rightarrow> 0 | Inr n \<Rightarrow> n)
               in case call (\<lambda>s. (XINFO_GROUPS R (q_stream q) s, s)) c1 of
                    (Inl _, c2) \<Rightarrow> (Inr (count, 0), c2)
                  | (Inr gs, c2) \<Rightarrow>
                      (Inr (count, foldl (\<lambda>b (g, lag). if g = q_group q then lag else b) 0 gs), c2))"

subsection \<open>What every command keeps\<close>

text \<open>
  A property of the view that survives a new entry, a read, a claim, and acknowledgements of
  the sets of messages that satisfy \<open>A\<close>.
\<close>

definition view_inv :: "(string list \<Rightarrow> bool) \<Rightarrow> (group_view \<Rightarrow> bool) \<Rightarrow> bool" where
  "view_inv A P \<longleftrightarrow> (\<forall>v. P v \<longrightarrow>
     (\<forall>i f. i \<notin> set (issued v) \<longrightarrow> P (v_add 0 i f v)) \<and> (\<forall>c t n. P (v_read c t n v)) \<and>
     (\<forall>c t m i. P (v_claim1 c t m v i)) \<and> (\<forall>ids. A ids \<longrightarrow> P (v_ack ids v) \<and> P (v_del ids v)))"

lemma view_inv_claim: "view_inv A P \<Longrightarrow> P v \<Longrightarrow> P (snd (v_claim c t m ids v))"
proof (induction ids arbitrary: v)
  case (Cons i ids)
  have "P (v_claim1 c t m v i)" using Cons.prems by (simp add: view_inv_def)
  then show ?case using Cons by (simp split: prod.split) (metis snd_conv)
qed simp

text \<open>A message is outstanding while it waits, or is pending and still in the stream.\<close>

definition outstanding :: "string \<Rightarrow> entry_fields \<Rightarrow> group_view \<Rightarrow> bool" where
  "outstanding i f v \<longleftrightarrow> (i, f) \<in> set (entries_waiting v) \<or>
     ((i, f) \<in> set (entries_read v) \<and> i \<in> fst ` set (pel v))"

lemma claim1_pel_keys:
  assumes "i \<in> fst ` set (pel v)" and "i \<in> fst ` set (entries v)"
  shows "i \<in> fst ` set (pel (v_claim1 c t m v j))"
proof (cases "claimable t m v j \<and> map_of (entries v) j = None")
  case True
  then have "j \<noteq> i" using assms(2) by (metis map_of_eq_None_iff)
  then have "i \<in> fst ` set (AList.delete j (pel v))" using assms(1) by (force simp: AList.delete_eq)
  then show ?thesis using True by (simp add: v_claim1_def)
next
  case False
  then show ?thesis using assms(1)
    by (auto simp: v_claim1_def image_image split_beta split: option.split)
qed

lemma claim1_entries [simp]:
  "entries_read (v_claim1 c t m v j) = entries_read v" "entries_waiting (v_claim1 c t m v j) = entries_waiting v"
  "issued (v_claim1 c t m v j) = issued v" "entries (v_claim1 c t m v j) = entries v"
  by (simp_all add: v_claim1_def entries_def split: option.split)

lemma outstanding_inv: "view_inv (\<lambda>ids. i \<notin> set ids) (outstanding i f)"
proof -
  have "outstanding i f (v_read c t n v)" if "outstanding i f v" for c t n v
  proof (cases "(i, f) \<in> set (take n (entries_waiting v))")
    case True
    then show ?thesis by (force simp: outstanding_def v_read_def)
  next
    case False
    have "set (entries_waiting v) = set (take n (entries_waiting v)) \<union> set (drop n (entries_waiting v))"
      by (metis append_take_drop_id set_append)
    then show ?thesis using False that by (auto simp: outstanding_def v_read_def)
  qed
  moreover have "outstanding i f (v_claim1 c t m v j)" if "outstanding i f v" for c t m v j
    using that claim1_pel_keys [of i v c t m j] by (force simp: outstanding_def entries_def)
  moreover have "outstanding i f (v_ack ids v) \<and> outstanding i f (v_del ids v)" if "outstanding i f v" "i \<notin> set ids" for v ids
    using that by (force simp: outstanding_def v_ack_def v_del_def)
  ultimately show ?thesis unfolding view_inv_def by (auto simp: v_add_def outstanding_def)
qed

text \<open>A message is delivered once its identifier is issued and it no longer waits.\<close>

definition delivered :: "string \<Rightarrow> group_view \<Rightarrow> bool" where
  "delivered i v \<longleftrightarrow> i \<in> set (issued v) \<and> i \<notin> fst ` set (entries_waiting v)"

lemma delivered_inv: "view_inv A (delivered i)"
  unfolding view_inv_def delivered_def
  by (auto simp: v_add_def v_read_def v_ack_def v_del_def dest: in_set_dropD)

subsection \<open>Claiming idle messages\<close>

definition claimed_pel :: "string \<Rightarrow> int \<Rightarrow> string list \<Rightarrow> (string \<times> pending) list \<Rightarrow> (string \<times> pending) list" where
  "claimed_pel consumer now ids ps =
     map (\<lambda>(j, p). (j, if j \<in> set ids then \<lparr>owner = consumer, since = now, deliveries = deliveries p + 1\<rparr> else p)) ps"

lemma map_of_claimed_pel: "j \<notin> set ids \<Longrightarrow> map_of (claimed_pel c t ids ps) j = map_of ps j"
  by (induction ps) (auto simp: claimed_pel_def)

lemma claimed_pel_Nil [simp]: "claimed_pel c t [] ps = ps"
  by (induction ps) (auto simp: claimed_pel_def)

lemma claimed_pel_Cons: "i \<notin> set ids \<Longrightarrow> claimed_pel c t ids (claimed_pel c t [i] ps) = claimed_pel c t (i # ids) ps"
  by (auto simp: claimed_pel_def)

lemma claim1_pel:
  assumes "claimable t m v i" and "i \<in> fst ` set (entries v)"
  shows "pel (v_claim1 c t m v i) = claimed_pel c t [i] (pel v)"
  using assms by (auto simp: v_claim1_def claimed_pel_def map_of_eq_None_iff split: option.split)

lemma v_claim_all:
  assumes "distinct ids" and "\<forall>i \<in> set ids. claimable t m v i \<and> i \<in> fst ` set (entries v)"
  shows "fst (v_claim c t m ids v) = map (\<lambda>i. (i, the (map_of (entries v) i))) ids \<and>
    pel (snd (v_claim c t m ids v)) = claimed_pel c t ids (pel v) \<and>
    entries (snd (v_claim c t m ids v)) = entries v"
  using assms
proof (induction ids arbitrary: v)
  case (Cons i ids)
  let ?v = "v_claim1 c t m v i"
  have i: "claimable t m v i" "i \<in> fst ` set (entries v)" using Cons.prems by auto
  have p: "pel ?v = claimed_pel c t [i] (pel v)" using i by (rule claim1_pel)
  have "claimable t m ?v j \<longleftrightarrow> claimable t m v j" if "j \<in> set ids" for j
  proof -
    have "j \<notin> set [i]" using that Cons.prems(1) by auto
    then show ?thesis by (simp add: claimable_def p map_of_claimed_pel)
  qed
  then have IH: "fst (v_claim c t m ids ?v) = map (\<lambda>i. (i, the (map_of (entries v) i))) ids \<and>
      pel (snd (v_claim c t m ids ?v)) = claimed_pel c t ids (pel ?v) \<and> entries (snd (v_claim c t m ids ?v)) = entries v"
    using Cons.IH [of ?v] Cons.prems by simp
  have "v_claimed1 t m v i = [(i, the (map_of (entries v) i))]"
    using i by (auto simp: v_claimed1_def map_of_eq_None_iff split: option.split)
  moreover have "claimed_pel c t ids (claimed_pel c t [i] (pel v)) = claimed_pel c t (i # ids) (pel v)"
    using Cons.prems(1) by (intro claimed_pel_Cons) simp
  ultimately show ?case using IH p by (simp add: split_beta)
qed simp

text \<open>The pending messages \<open>Reclaim\<close> looks at, and what it returns for each.\<close>

definition idle_pending :: "int \<Rightarrow> duration \<Rightarrow> group_view \<Rightarrow> (string \<times> pending) list" where
  "idle_pending now minIdle v = take 64 (filter (\<lambda>(_, p). minIdle \<le> now - since p) (pel v))"

definition decodable :: "codec \<Rightarrow> group_view \<Rightarrow> string \<Rightarrow> bool" where
  "decodable J v i \<longleftrightarrow> (case map_of (entries v) i of None \<Rightarrow> False | Some f \<Rightarrow> job_of_json J (raw_job f) \<noteq> None)"

definition redelivery :: "codec \<Rightarrow> group_view \<Rightarrow> string \<Rightarrow> int \<Rightarrow> Delivery" where
  "redelivery J v i n = \<lparr>MessageID = i, d_Job = (the (job_of_json J (raw_job (the (map_of (entries v) i)))))\<lparr>job_Attempt := n + 1\<rparr>\<rparr>"

lemma idle_pending_distinct: "distinct (map fst (pel v)) \<Longrightarrow> distinct (map fst (idle_pending t m v))"
  unfolding idle_pending_def by (metis distinct_map_filter distinct_take take_map)

lemma idle_pending_claimable:
  assumes "distinct (map fst (pel v))"
  shows "list_all (claimable t m v) (map fst (idle_pending t m v))"
proof -
  have "claimable t m v i" if "(i, p) \<in> set (idle_pending t m v)" for i p
  proof -
    have "(i, p) \<in> set (pel v)" "m \<le> t - since p" using that by (auto simp: idle_pending_def dest: in_set_takeD)
    then show ?thesis using assms by (simp add: claimable_def)
  qed
  then show ?thesis by (auto simp: list_all_iff)
qed

lemma filter_fst_disjoint:
  assumes "distinct (map fst xs)"
  shows "fst ` set (filter (\<lambda>(_, p). Q p) xs) \<inter> fst ` set (filter (\<lambda>(_, p). \<not> Q p) xs) = {}"
proof -
  have "x = y" if "x \<in> set xs" "y \<in> set xs" "fst x = fst y" for x y
    using assms that by (auto simp: distinct_map inj_on_def)
  then show ?thesis by fastforce
qed

lemma claimed_all:
  assumes "list_all (decodable J v) ids"
  shows "claimed_deliveries J pend (map (\<lambda>i. (i, the (map_of (entries v) i))) ids) = map (\<lambda>i. redelivery J v i (attempt_of pend i)) ids"
    and "undecodable J (map (\<lambda>i. (i, the (map_of (entries v) i))) ids) = []"
  using assms
  by (induction ids) (auto simp: claimed_deliveries_def decode_def undecodable_def redelivery_def decodable_def split: option.splits)

subsection \<open>All clients together\<close>

text \<open>
  One step of the system: an operation of any client, with the identifiers it likes, as long
  as it acknowledges only messages that \<open>A\<close> allows; the passing of time and whatever else
  leaves the group as it is. A client publishes while the stream has room: beyond
  \<^verbatim>\<open>MaxLen\<close> the server drops the oldest entries, read or not.
\<close>

definition has_room :: "Queue \<Rightarrow> group_view \<Rightarrow> bool" where
  "has_room q v \<longleftrightarrow> int (length (entries v)) + int (Suc MaxRetries) \<le> q_maxLen q"

inductive queue_step ::
  "'s redis \<Rightarrow> codec \<Rightarrow> Queue \<Rightarrow> (string \<Rightarrow> string \<Rightarrow> 's \<Rightarrow> group_view option) \<Rightarrow> (string list \<Rightarrow> bool) \<Rightarrow> 's rdb \<Rightarrow> 's rdb \<Rightarrow> bool"
  for R J q view A where
  publish: "(\<And>v. view (q_stream q) (q_group q) (server c) = Some v \<Longrightarrow> has_room q v) \<Longrightarrow>
    queue_step R J q view A c (snd (Publish R J q job c))"
| consume: "queue_step R J q view A c (snd (Consume R J q consumer n c))"
| heartbeat: "queue_step R J q view A c (snd (Heartbeat R q consumer ids c))"
| nack: "queue_step R J q view A c (snd (Nack R q ids c))"
| ack: "A ids \<Longrightarrow> queue_step R J q view A c (snd (Ack R q ids c))"
| reclaim: "queue_step R J q view A c (snd (Reclaim R J q consumer minIdle maxAttempts c))"
| depth: "queue_step R J q view A c (snd (Depth R q c))"
| other: "view (q_stream q) (q_group q) s' = view (q_stream q) (q_group q) (server c) \<Longrightarrow>
    queue_step R J q view A c (c\<lparr>server := s', fates := fs, calls := n\<rparr>)"

context redis_streams
begin

definition holds :: "Queue \<Rightarrow> (group_view \<Rightarrow> bool) \<Rightarrow> 's \<Rightarrow> bool" where
  "holds q P s \<longleftrightarrow> (\<exists>v. view (q_stream q) (q_group q) s = Some v \<and> P v)"

lemma holdsE [elim]: "holds q P s \<Longrightarrow> (\<And>v. view (q_stream q) (q_group q) s = Some v \<Longrightarrow> P v \<Longrightarrow> thesis) \<Longrightarrow> thesis"
  by (auto simp: holds_def)

lemma holds_read: "view_inv A P \<Longrightarrow> holds q P s \<Longrightarrow> holds q P (snd (XREADGROUP R (q_stream q) (q_group q) c n s))"
proof (elim holdsE)
  fix v assume "view_inv A P" "view (q_stream q) (q_group q) s = Some v" "P v"
  then show ?thesis using xread [of "q_stream q" "q_group q" s v c n, OF _ surjective_pairing]
    by (auto simp: holds_def view_inv_def)
qed

lemma holds_claim: "view_inv A P \<Longrightarrow> holds q P s \<Longrightarrow> holds q P (snd (XCLAIM R (q_stream q) (q_group q) c m ids s))"
proof (elim holdsE)
  fix v assume "view_inv A P" "view (q_stream q) (q_group q) s = Some v" "P v"
  then show ?thesis using xclaim [of "q_stream q" "q_group q" s v c m ids, OF _ surjective_pairing]
    by (auto simp: holds_def intro: view_inv_claim)
qed

lemma holds_group: "holds q P s \<Longrightarrow> holds q P (snd (XGROUP_CREATE R (q_stream q) (q_group q) s))"
  using xgroup [OF surjective_pairing] by (metis holdsE)

lemma holds_ack: "view_inv A P \<Longrightarrow> A ids \<Longrightarrow> holds q P s \<Longrightarrow>
    holds q P (XDEL R (q_stream q) ids (XACK R (q_stream q) (q_group q) ids s))"
  by (auto simp: holds_def xack xdel view_inv_def)

lemma holds_add_other: "st \<noteq> q_stream q \<Longrightarrow> holds q P s \<Longrightarrow> holds q P (XADD R st m f s)"
  by (simp add: holds_def xadd_other)

lemma holds_add:
  assumes "view_inv A P" and "holds q (\<lambda>v. P v \<and> int (length (entries v)) + int (Suc k) \<le> m) s"
  shows "holds q (\<lambda>v. P v \<and> int (length (entries v)) + int k \<le> m) (XADD R (q_stream q) m f s)"
proof -
  obtain v where v: "view (q_stream q) (q_group q) s = Some v" "P v" "int (length (entries v)) + int (Suc k) \<le> m"
    using assms(2) by auto
  obtain n i where n: "view (q_stream q) (q_group q) (XADD R (q_stream q) m f s) = Some (v_add n i f v)"
    "i \<notin> set (issued v)" "0 < n \<longrightarrow> m \<le> int (length (entries v))"
    using xadd [OF v(1), of m f] by auto
  have "n = 0" using n(3) v(3) by auto
  then have "P (v_add n i f v)" "length (entries (v_add n i f v)) = Suc (length (entries v))"
    using assms(1) v(2) n(2) by (auto simp: view_inv_def v_add_def entries_def)
  then show ?thesis using n(1) v(3) by (auto simp: holds_def)
qed

lemma holds_publish:
  assumes "view_inv A P" and "holds q (\<lambda>v. P v \<and> has_room q v) (server c)"
  shows "holds q P (server (snd (Publish R J q job c)))"
proof -
  let ?m = "q_maxLen q"
  let ?Q = "\<lambda>k. holds q (\<lambda>v. P v \<and> int (length (entries v)) + int k \<le> ?m)"
  have many: "?Q k (repeat n (rupdate (XADD R (q_stream q) ?m f)) s)" if "?Q (n + k) s" for n k s f
    using that
  proof (induction n arbitrary: s)
    case (Suc n)
    have "?Q (n + k) (XADD R (q_stream q) ?m f s)" using holds_add [OF assms(1), of q "n + k"] Suc.prems by simp
    then show ?case using Suc.IH by (simp add: rupdate_def)
  qed simp
  have weaken: "?Q k s \<Longrightarrow> holds q P s" for k s by (auto simp: holds_def)
  have less: "?Q k s \<Longrightarrow> l \<le> k \<Longrightarrow> ?Q l s" for k l s by (force simp: holds_def)
  have start: "?Q (Suc MaxRetries) (server c)" using assms(2) by (simp add: has_room_def)
  have done': "holds q P (XADD R (q_stream q) ?m f (repeat (min n MaxRetries) (rupdate (XADD R (q_stream q) ?m f)) (server c)))" for n f
  proof -
    have "?Q (min n MaxRetries + Suc 0) (server c)" using start by (rule less) simp
    from holds_add [OF assms(1) many [OF this]] show ?thesis by (rule weaken)
  qed
  have lost: "holds q P (repeat (min n (Suc MaxRetries)) (rupdate (XADD R (q_stream q) ?m f)) (server c))" for n f
  proof -
    have "?Q (min n (Suc MaxRetries) + 0) (server c)" using start by (rule less) simp
    then show ?thesis by (rule weaken [OF many])
  qed
  have z: "holds q P (server c)" using start weaken by blast
  show ?thesis using done' lost z
    by (auto simp: Publish_def call_def Let_def rupdate_def split: option.split fate.split)
qed

lemma holds_call_claim: "view_inv A P \<Longrightarrow> holds q P (server c) \<Longrightarrow>
    holds q P (server (snd (call (XCLAIM R (q_stream q) (q_group q) u m ids) c)))"
  by (rule call_keeps) (rule holds_claim)

lemma holds_consume:
  assumes "view_inv A P" and "holds q P (server c)"
  shows "holds q P (server (snd (Consume R J q consumer n c)))"
proof -
  obtain r c1 where c1: "call (XREADGROUP R (q_stream q) (q_group q) consumer n) c = (r, c1)" by fastforce
  have h1: "holds q P (server c1)"
  proof -
    have "holds q P (server (snd (call (XREADGROUP R (q_stream q) (q_group q) consumer n) c)))"
      using assms(2) by (rule call_keeps [rotated]) (rule holds_read [OF assms(1)])
    then show ?thesis by (simp add: c1)
  qed
  obtain r2 c2 where c2: "call (XGROUP_CREATE R (q_stream q) (q_group q)) c1 = (r2, c2)" by fastforce
  have "holds q P (server (snd (call (XGROUP_CREATE R (q_stream q) (q_group q)) c1)))"
    using h1 by (rule call_keeps [rotated]) (rule holds_group)
  then have h2: "holds q P (server c2)" by (simp add: c2)
  show ?thesis using h1 h2 by (simp add: Consume_def c1 c2 split: sum.split)
qed

lemma holds_claim_only: "view_inv A P \<Longrightarrow> holds q P (server c) \<Longrightarrow> holds q P (server (snd (claim_only R q u ids c)))"
  using holds_call_claim [of A P q c u 0 ids] by (auto simp: claim_only_def split: sum.split prod.split)

lemma holds_claim_op: "view_inv A P \<Longrightarrow> holds q P (server c) \<Longrightarrow> holds q P (server (snd (claim R J q pend m ids u c)))"
  using holds_call_claim [of A P q c u m ids] by (auto simp: claim_def split: sum.split prod.split)

lemma holds_dead_letter:
  "q_dlq q \<noteq> q_stream q \<Longrightarrow> holds q P (server c) \<Longrightarrow> holds q P (server (fold (dead_letter R J q) ds c))"
proof (induction ds arbitrary: c)
  case (Cons d ds)
  have "holds q P (server (dead_letter R J q d c))"
    unfolding dead_letter_def using Cons.prems
    by (intro call_keeps [where P = "holds q P"]) (auto simp: rupdate_def intro: holds_add_other)
  then show ?case using Cons by simp
qed simp

lemma holds_reclaim:
  assumes "view_inv A P" and "q_dlq q \<noteq> q_stream q" and "holds q P (server c)"
  shows "holds q P (server (snd (Reclaim R J q u m k c)))"
proof -
  obtain r c1 where c1: "call (\<lambda>s. (XPENDING R (q_stream q) (q_group q) m 64 s, s)) c = (r, c1)" by fastforce
  have h1: "holds q P (server c1)"
    using call_keeps [where P = "holds q P" and f = "\<lambda>s. (XPENDING R (q_stream q) (q_group q) m 64 s, s)", OF _ assms(3)] c1
    by simp
  have h2: "claim R J q pend m ids u' c' = (x, c'') \<Longrightarrow> holds q P (server c') \<Longrightarrow> holds q P (server c'')" for pend ids u' c' c'' x
    using holds_claim_op [OF assms(1)] by (metis snd_conv)
  show ?thesis using h1 h2 holds_dead_letter [OF assms(2)]
    by (auto simp: Reclaim_def c1 Let_def split: sum.split prod.split)
qed

lemma holds_depth: "holds q P (server c) \<Longrightarrow> holds q P (server (snd (Depth R q c)))"
proof -
  assume h: "holds q P (server c)"
  obtain r c1 where c1: "call (\<lambda>s. (XPENDING_COUNT R (q_stream q) (q_group q) s, s)) c = (r, c1)" by fastforce
  obtain r2 c2 where c2: "call (\<lambda>s. (XINFO_GROUPS R (q_stream q) s, s)) c1 = (r2, c2)" by fastforce
  have h1: "holds q P (server c1)"
    using call_keeps [where P = "holds q P" and f = "\<lambda>s. (XPENDING_COUNT R (q_stream q) (q_group q) s, s)", OF _ h] c1 by simp
  have h2: "holds q P (server c2)"
    using call_keeps [where P = "holds q P" and f = "\<lambda>s. (XINFO_GROUPS R (q_stream q) s, s)", OF _ h1] c2 by simp
  show ?thesis using h1 h2 by (simp add: Depth_def c1 c2 Let_def split: sum.split)
qed

lemma queue_step_holds:
  assumes "queue_step R J q view A c c'" and "view_inv A P" and "q_dlq q \<noteq> q_stream q" and "holds q P (server c)"
  shows "holds q P (server c')"
  using assms
proof (cases rule: queue_step.cases)
  case (publish job)
  have "holds q (\<lambda>v. P v \<and> has_room q v) (server c)" using assms(4) publish(2) by (auto simp: holds_def)
  then show ?thesis unfolding publish(1) by (rule holds_publish [OF assms(2)])
next
  case (ack ids)
  then show ?thesis unfolding ack(1) Ack_def using assms(4)
    by (auto simp: rupdate_def intro!: call_keeps [where P = "holds q P"] holds_ack [OF assms(2)])
next
  case (other s' fs n)
  then show ?thesis using assms(4) by (simp add: holds_def)
qed (auto simp: Heartbeat_def Nack_def intro: holds_consume holds_claim_only holds_reclaim holds_depth)

lemma queue_steps_holds:
  assumes "(queue_step R J q view A)\<^sup>*\<^sup>* c c'" and "view_inv A P" and "q_dlq q \<noteq> q_stream q" and "holds q P (server c)"
  shows "holds q P (server c')"
  using assms(1,4) by (induction rule: rtranclp_induct) (auto intro: queue_step_holds [OF _ assms(2,3)])

lemma consume_not_delivered:
  assumes "holds q (delivered i) (server c)" and "Consume R J q u n c = (Inr ds, c')"
  shows "i \<notin> MessageID ` set ds"
proof (cases "call (XREADGROUP R (q_stream q) (q_group q) u n) c")
  case (Pair r c1)
  have fr: "i \<notin> fst ` set ms" if "r = Inr ms" for ms
  proof -
    let ?f = "XREADGROUP R (q_stream q) (q_group q) u n"
    have "\<exists>k. r = fst (?f (repeat k ?f (server c)))"
      using Pair that by (auto simp: call_def Let_def split: fate.splits prod.splits) (metis fst_conv)
    then obtain k where k: "r = fst (?f (repeat k ?f (server c)))" ..
    have "holds q (delivered i) (repeat k ?f (server c))"
      using assms(1) by (rule repeat_keeps [rotated]) (rule holds_read [OF delivered_inv])
    then obtain v where v: "view (q_stream q) (q_group q) (repeat k ?f (server c)) = Some v" "delivered i v" by auto
    have "r = (if entries_waiting v = [] then Inl NilReply else Inr (take n (entries_waiting v)))"
      using xread [OF v(1) surjective_pairing] k by simp
    then show ?thesis using v(2) that by (auto simp: delivered_def split: if_splits dest: in_set_takeD)
  qed
  have sub: "MessageID ` set (decode J ms) \<subseteq> fst ` set ms" for ms
    by (force simp: decode_def split: option.splits)
  show ?thesis using assms(2) Pair fr sub
    by (auto simp: Consume_def split: sum.splits if_splits prod.splits)
qed

lemma claim_online:
  assumes "online c" and "view (q_stream q) (q_group q) (server c) = Some v" and "distinct ids"
    and "list_all (\<lambda>i. claimable (time (server c)) m v i) ids" and "list_all (decodable J v) ids"
  shows "\<exists>c' v'. claim R J q pend m ids u c = (Inr (map (\<lambda>i. redelivery J v i (attempt_of pend i)) ids, []), c') \<and>
    online c' \<and> time (server c') = time (server c) \<and> view (q_stream q) (q_group q) (server c') = Some v' \<and>
    entries v' = entries v \<and> pel v' = claimed_pel u (time (server c)) ids (pel v)"
proof (cases "ids = []")
  case True
  then show ?thesis using assms by (intro exI [of _ c] exI [of _ v]) (simp add: claim_def)
next
  case False
  let ?st = "q_stream q" and ?g = "q_group q" and ?t = "time (server c)"
  have present: "i \<in> fst ` set (entries v)" if "i \<in> set ids" for i
    using assms(5) that by (force simp: list_all_iff decodable_def split: option.splits dest: map_of_SomeD)
  have all: "\<forall>i \<in> set ids. claimable ?t m v i \<and> i \<in> fst ` set (entries v)"
    using assms(4) present by (auto simp: list_all_iff)
  obtain r s' where x: "XCLAIM R ?st ?g u m ids (server c) = (r, s')" by fastforce
  note law = xclaim [OF assms(2) x]
  note vc = v_claim_all [OF assms(3) all, of u]
  have "claim R J q pend m ids u c =
      (Inr (map (\<lambda>i. redelivery J v i (attempt_of pend i)) ids, []), c\<lparr>calls := calls c + 1, server := s'\<rparr>)"
    using False law vc claimed_all [OF assms(5)] by (simp add: claim_def call_online [OF assms(1)] x)
  moreover have "time s' = ?t" using time_xclaim [of ?st ?g u m ids "server c"] x by simp
  ultimately show ?thesis using law vc assms(1)
    by (intro exI [of _ "c\<lparr>calls := calls c + 1, server := s'\<rparr>"] exI [of _ "snd (v_claim u ?t m ids v)"]) simp
qed

lemma dead_letter_view:
  "q_dlq q \<noteq> q_stream q \<Longrightarrow> online c \<Longrightarrow>
     view (q_stream q) (q_group q) (server (fold (dead_letter R J q) ds c)) = view (q_stream q) (q_group q) (server c)"
  by (induction ds arbitrary: c) (simp_all add: dead_letter_def call_online rupdate_def xadd_other)

text \<open>Two claims of disjoint messages, one after the other.\<close>

lemma claims_online:
  assumes "online c" and "view (q_stream q) (q_group q) (server c) = Some v"
    and "distinct as" and "distinct bs" and "set as \<inter> set bs = {}"
    and "list_all (\<lambda>i. claimable (time (server c)) m v i \<and> decodable J v i) (as @ bs)"
  shows "\<exists>c2 c3 v3. claim R J q pend m as u c = (Inr (map (\<lambda>i. redelivery J v i (attempt_of pend i)) as, []), c2) \<and>
    claim R J q pend m bs u' c2 = (Inr (map (\<lambda>i. redelivery J v i (attempt_of pend i)) bs, []), c3) \<and> online c3 \<and>
    view (q_stream q) (q_group q) (server c3) = Some v3 \<and> entries v3 = entries v \<and>
    pel v3 = claimed_pel u' (time (server c)) bs (claimed_pel u (time (server c)) as (pel v))"
proof -
  have l: "list_all (claimable (time (server c)) m v) as" "list_all (decodable J v) as" using assms(6) by (auto simp: list_all_iff)
  obtain c2 v2 where c2: "claim R J q pend m as u c = (Inr (map (\<lambda>i. redelivery J v i (attempt_of pend i)) as, []), c2)" "online c2"
      "time (server c2) = time (server c)" "view (q_stream q) (q_group q) (server c2) = Some v2" "entries v2 = entries v"
      "pel v2 = claimed_pel u (time (server c)) as (pel v)"
    using claim_online [OF assms(1-3) l, of pend u] by auto
  have same: "decodable J v2 = decodable J v" "redelivery J v2 = redelivery J v"
    by (simp_all add: fun_eq_iff decodable_def redelivery_def c2(5))
  have "claimable (time (server c2)) m v2 i \<and> decodable J v2 i" if "i \<in> set bs" for i
  proof -
    have "i \<notin> set as" using that assms(5) by auto
    then have "claimable (time (server c2)) m v2 i \<longleftrightarrow> claimable (time (server c)) m v i" by (simp add: claimable_def c2(3,6) map_of_claimed_pel)
    then show ?thesis using assms(6) that by (simp add: list_all_iff same)
  qed
  then have dd: "list_all (claimable (time (server c2)) m v2) bs" "list_all (decodable J v2) bs" by (simp_all add: list_all_iff)
  show ?thesis using c2 claim_online [OF c2(2,4) assms(4) dd, of pend u'] by (auto simp: same)
qed

lemma reclaim_online:
  assumes "online c" and "view (q_stream q) (q_group q) (server c) = Some v" and "distinct (map fst (pel v))"
    and "q_dlq q \<noteq> q_stream q"
    and "idle = idle_pending (time (server c)) m v" and "list_all (\<lambda>(i, _). decodable J v i) idle"
    and "live = filter (\<lambda>(_, p). deliveries p < k) idle" and "dead = filter (\<lambda>(_, p). k \<le> deliveries p) idle"
  shows "\<exists>c' v'. Reclaim R J q u m k c =
      (((map (\<lambda>(i, p). redelivery J v i (deliveries p)) live, map (\<lambda>(i, p). redelivery J v i (deliveries p)) dead), None), c') \<and>
    view (q_stream q) (q_group q) (server c') = Some v' \<and> entries v' = entries v \<and>
    pel v' = claimed_pel (u @ ''-dlq'') (time (server c)) (map fst dead)
               (claimed_pel u (time (server c)) (map fst live) (pel v))"
proof -
  let ?st = "q_stream q" and ?g = "q_group q" and ?t = "time (server c)"
  let ?pend = "map (\<lambda>(i, p). (i, deliveries p)) idle" and ?c1 = "c\<lparr>calls := calls c + 1\<rparr>"
  have pend: "call (\<lambda>s. (XPENDING R ?st ?g m 64 s, s)) c = (Inr ?pend, ?c1)"
    using xpending [OF assms(2), of m 64] by (simp add: call_online [OF assms(1)] v_pending_def assms(5) idle_pending_def take_map)
  have ids: "map fst (filter (\<lambda>(_, n). k \<le> n) ?pend) = map fst dead" "map fst (filter (\<lambda>(_, n). \<not> k \<le> n) ?pend) = map fst live"
    by (simp_all add: assms(7,8) filter_map o_def case_prod_unfold not_le)
  have d: "distinct (map fst idle)" using assms(3,5) idle_pending_distinct by simp
  have att: "attempt_of ?pend i = deliveries p" if "(i, p) \<in> set idle" for i p
    using that d by (auto simp: attempt_of_def map_of_map intro!: option.case_eq_if [THEN trans])
  have clm: "list_all (claimable ?t m v) (map fst idle)" using assms(3,5) idle_pending_claimable by simp
  have part: "set live \<union> set dead = set idle" "fst ` set live \<inter> fst ` set dead = {}"
    using filter_fst_disjoint [OF d, of "\<lambda>p. deliveries p < k"] by (auto simp: assms(7,8) not_less)
  have dl: "distinct (map fst live)" "distinct (map fst dead)" using d by (simp_all add: assms(7,8) distinct_map_filter)
  have all: "list_all (\<lambda>i. claimable (time (server ?c1)) m v i \<and> decodable J v i) (map fst live @ map fst dead)"
    using clm assms(6) part(1) by (force simp: list_all_iff)
  have disj: "set (map fst live) \<inter> set (map fst dead) = {}" using part(2) by simp
  obtain c2 c3 v3 where
    c2: "claim R J q ?pend m (map fst live) u ?c1 = (Inr (map (\<lambda>i. redelivery J v i (attempt_of ?pend i)) (map fst live), []), c2)" and
    c3: "claim R J q ?pend m (map fst dead) (u @ ''-dlq'') c2 = (Inr (map (\<lambda>i. redelivery J v i (attempt_of ?pend i)) (map fst dead), []), c3)" "online c3"
      "view ?st ?g (server c3) = Some v3" "entries v3 = entries v"
      "pel v3 = claimed_pel (u @ ''-dlq'') ?t (map fst dead) (claimed_pel u ?t (map fst live) (pel v))"
    using claims_online [of ?c1 q v, OF _ _ dl disj all, of ?pend u "u @ ''-dlq''"] assms(1,2) by auto
  have out: "map (\<lambda>i. redelivery J v i (attempt_of ?pend i)) (map fst xs) = map (\<lambda>(i, p). redelivery J v i (deliveries p)) xs"
    if "set xs \<subseteq> set idle" for xs
    using that att by (auto simp: list_all_iff)
  have ls: "set live \<subseteq> set idle" "set dead \<subseteq> set idle" using part(1) by auto
  show ?thesis
  proof (cases "idle = []")
    case True
    then show ?thesis using assms(1,2) pend
      by (intro exI [of _ ?c1] exI [of _ v]) (simp add: Reclaim_def assms(7,8))
  next
    case False
    have "Reclaim R J q u m k c = (((map (\<lambda>(i, p). redelivery J v i (deliveries p)) live,
        map (\<lambda>(i, p). redelivery J v i (deliveries p)) dead), None),
        fold (dead_letter R J q) (map (\<lambda>(i, p). redelivery J v i (deliveries p)) dead) c3)"
      using False c2 [unfolded out [OF ls(1)]] c3(1) [unfolded out [OF ls(2)]]
      by (simp add: Reclaim_def pend ids Let_def)
    then show ?thesis using c3 dead_letter_view [OF assms(4) c3(2)] by auto
  qed
qed

end

subsection \<open>Properties\<close>


definition sample_queue :: Queue where
  "sample_queue = queue_of \<lparr>o_Stream = [], o_Group = [], o_MaxLen = 0, o_LeaseTTL = 0\<rparr>"

definition sample_codec :: codec where
  "sample_codec = \<lparr>json_of_job = (\<lambda>_. Some ''{}''), job_of_json = (\<lambda>s. if s = ''{}'' then Some zero_JobSpec else None)\<rparr>"

definition sample_view :: group_view where
  "sample_view = \<lparr>entries_read = [(''1'', [(''job'', ''{}'')]), (''2'', [(''job'', ''{}'')])], entries_waiting = [],
     pel = [(''1'', \<lparr>owner = ''a'', since = 0, deliveries = 1\<rparr>), (''2'', \<lparr>owner = ''a'', since = 0, deliveries = 3\<rparr>)],
     issued = [''1'', ''2'']\<rparr>"

definition sample_rdb :: "ref_state rdb" where
  "sample_rdb = \<lparr>server = \<lparr>ref_hash = (\<lambda>_. []), ref_zset = (\<lambda>_. []), ref_held = [],
      ref_groups = [((''judge.jobs'', ''judges''), sample_view)], ref_published = [], ref_time = 90 * Second_ns\<rparr>,
    calls = 0, fates = (\<lambda>_. Replied 0)\<rparr>"

lemma sample_names: "q_stream sample_queue = ''judge.jobs''" "q_group sample_queue = ''judges''"
  "q_dlq sample_queue \<noteq> q_stream sample_queue"
  by (simp_all add: sample_queue_def queue_of_def)

lemma sample_view: "ref_view (q_stream sample_queue) (q_group sample_queue) (server sample_rdb) = Some sample_view"
  by (simp add: sample_names ref_view_def sample_rdb_def)


text \<open>
  C25: \<^verbatim>\<open>Consume\<close> delivers a message at most once: after the first delivery no \<^verbatim>\<open>Consume\<close> of any
  client returns it, also not after the message has been reclaimed or released.
\<close>

theorem Consume_at_most_once:
  assumes "redis_streams R view time" and "q_dlq q \<noteq> q_stream q"
    and "view (q_stream q) (q_group q) (server c) = Some v" and "delivered i v"
    and "(queue_step R J q view (\<lambda>_. True))\<^sup>*\<^sup>* c c'"
    and "Consume R J q consumer n c' = (Inr ds, c'')"
  shows "i \<notin> MessageID ` set ds"
proof -
  have "redis_streams.holds view q (delivered i) (server c')"
    using redis_streams.queue_steps_holds [OF assms(1,5) delivered_inv assms(2)] assms(3,4)
    by (auto simp: redis_streams.holds_def [OF assms(1)])
  then show ?thesis by (rule redis_streams.consume_not_delivered [OF assms(1) _ assms(6)])
qed

theorem Consume_at_most_once_witness:
  "\<exists>ds c''. Consume ref_redis sample_codec sample_queue ''b'' 5
      (snd (Nack ref_redis sample_queue [''1''] sample_rdb)) = (Inr ds, c'') \<and> ''1'' \<notin> MessageID ` set ds"
proof -
  let ?c = "snd (Nack ref_redis sample_queue [''1''] sample_rdb)"
  have ok: "fst (Consume ref_redis sample_codec sample_queue ''b'' 5 ?c) = Inr []" by code_simp
  obtain r c'' where r: "Consume ref_redis sample_codec sample_queue ''b'' 5 ?c = (r, c'')" by fastforce
  have r': "Consume ref_redis sample_codec sample_queue ''b'' 5 ?c = (Inr [], c'')" using ok r by simp
  have "delivered ''1'' sample_view" by (simp add: delivered_def sample_view_def)
  moreover have "(queue_step ref_redis sample_codec sample_queue ref_view (\<lambda>_. True))\<^sup>*\<^sup>* sample_rdb ?c"
    by (intro r_into_rtranclp queue_step.nack)
  ultimately show ?thesis
    using Consume_at_most_once [OF ref_streams.redis_streams_axioms sample_names(3) sample_view, of "''1''" sample_codec ?c] r' by blast
qed

text \<open>
  C24: a message whose owner has been silent for \<^verbatim>\<open>minIdle\<close> is taken over: \<^verbatim>\<open>Reclaim\<close> returns the
  first 64 idle messages, those delivered fewer than \<^verbatim>\<open>maxAttempts\<close> times as live and the
  others as dead, each with its attempt one above its delivery count, and makes the caller
  their owner with a fresh lease.
\<close>

theorem Reclaim_spec:
  assumes "redis_streams R view time" and "online c" and "q_dlq q \<noteq> q_stream q"
    and "view (q_stream q) (q_group q) (server c) = Some v" and "distinct (map fst (pel v))"
    and "idle = idle_pending (time (server c)) m v" and "list_all (\<lambda>(i, _). decodable J v i) idle"
    and "live = filter (\<lambda>(_, p). deliveries p < k) idle" and "dead = filter (\<lambda>(_, p). k \<le> deliveries p) idle"
  shows "\<exists>c' v'. Reclaim R J q u m k c =
      (((map (\<lambda>(i, p). redelivery J v i (deliveries p)) live, map (\<lambda>(i, p). redelivery J v i (deliveries p)) dead), None), c') \<and>
    view (q_stream q) (q_group q) (server c') = Some v' \<and> entries v' = entries v \<and>
    pel v' = claimed_pel (u @ ''-dlq'') (time (server c)) (map fst dead)
               (claimed_pel u (time (server c)) (map fst live) (pel v))"
  using redis_streams.reclaim_online [OF assms(1,2,4,5,3,6-9)] .

theorem Reclaim_spec_witness:
  "\<exists>c'. Reclaim ref_redis sample_codec sample_queue ''b'' (90 * Second_ns) 3 sample_rdb =
     ((([\<lparr>MessageID = ''1'', d_Job = zero_JobSpec\<lparr>job_Attempt := 2\<rparr>\<rparr>],
        [\<lparr>MessageID = ''2'', d_Job = zero_JobSpec\<lparr>job_Attempt := 4\<rparr>\<rparr>]), None), c')"
proof -
  let ?p1 = "(''1'', \<lparr>owner = ''a'', since = 0, deliveries = 1\<rparr>)" and ?p2 = "(''2'', \<lparr>owner = ''a'', since = 0, deliveries = 3\<rparr>)"
  have on: "online sample_rdb" by (simp add: online_def sample_rdb_def)
  have d: "distinct (map fst (pel sample_view))" by (simp add: sample_view_def)
  have idle: "[?p1, ?p2] = idle_pending (ref_time (server sample_rdb)) (90 * Second_ns) sample_view"
    by (simp add: idle_pending_def sample_view_def sample_rdb_def)
  have dec: "list_all (\<lambda>(i, _). decodable sample_codec sample_view i) [?p1, ?p2]" by code_simp
  have part: "[?p1] = filter (\<lambda>(_, p). deliveries p < 3) [?p1, ?p2]" "[?p2] = filter (\<lambda>(_, p). 3 \<le> deliveries p) [?p1, ?p2]"
    by simp_all
  have "redelivery sample_codec sample_view ''1'' 1 = \<lparr>MessageID = ''1'', d_Job = zero_JobSpec\<lparr>job_Attempt := 2\<rparr>\<rparr>"
    "redelivery sample_codec sample_view ''2'' 3 = \<lparr>MessageID = ''2'', d_Job = zero_JobSpec\<lparr>job_Attempt := 4\<rparr>\<rparr>"
    by (simp_all add: redelivery_def sample_codec_def sample_view_def entries_def raw_job_def)
  then show ?thesis
    using Reclaim_spec [OF ref_streams.redis_streams_axioms on sample_names(3) sample_view d idle dec part, of "''b''"]
    by auto
qed

end
