(* ===== verification/Board.thy ===== *)
theory Board
  imports Redis Scoring
begin

section \<open>The leaderboard (\<^verbatim>\<open>internal/adapters/redisq/leaderboard.go\<close>)\<close>

text \<open>
  The Lua script that keeps a participant's best accepted run per problem and recomputes the
  rank score, and the Go operations around it. Lua numbers are binary64; the hash of a
  participant holds \<^verbatim>\<open>cpu|instr|attempts|minutes\<close> as text, which the script takes apart with
  patterns. The lemmas relate the hash to the standings of \<^verbatim>\<open>core.RankScore\<close>: the score the
  script writes is the score the core computes from the same standings, and the solved count
  that \<open>Top\<close> reads off the score is the number of problems solved.
\<close>

subsection \<open>The script\<close>

text \<open>The pattern \<^verbatim>\<open>(%-?%d+)\<close> at the front of a text: what it matches and what follows.\<close>

definition lua_int :: "string \<Rightarrow> (string \<times> string) option" where
  "lua_int s =
     (let (sign, t) = (case s of [] \<Rightarrow> ([], []) | c # t \<Rightarrow> if c = CHR ''-'' then ([c], t) else ([], s));
          ds = takeWhile dec_digit t
      in if ds = [] then None else Some (sign @ ds, dropWhile dec_digit t))"

definition lua_bar :: "string \<Rightarrow> string option" where
  "lua_bar s = (case s of [] \<Rightarrow> None | c # t \<Rightarrow> if c = CHR ''|'' then Some t else None)"

text \<open>\<^verbatim>\<open>^(%-?%d+)|(%-?%d+)|(%-?%d+)|(%-?%d+)$\<close>\<close>

definition lua_fields :: "string \<Rightarrow> (string \<times> string \<times> string \<times> string) option" where
  "lua_fields s =
     Option.bind (lua_int s) (\<lambda>(cpu, s).
     Option.bind (lua_bar s) (\<lambda>s.
     Option.bind (lua_int s) (\<lambda>(instr, s).
     Option.bind (lua_bar s) (\<lambda>s.
     Option.bind (lua_int s) (\<lambda>(att, s).
     Option.bind (lua_bar s) (\<lambda>s.
     Option.bind (lua_int s) (\<lambda>(mins, s). if s = [] then Some (cpu, instr, att, mins) else None)))))))"

definition num :: "'s redis \<Rightarrow> string \<Rightarrow> f64" where
  "num R s = (case tonumber R s of None \<Rightarrow> NaN | Some x \<Rightarrow> x)"

definition must_write :: "'s redis \<Rightarrow> string option \<Rightarrow> string \<Rightarrow> bool" where
  "must_write R cur newcpu =
     (case cur of
        None \<Rightarrow> True
      | Some v \<Rightarrow> (case lua_int v of
            None \<Rightarrow> True
          | Some (c, _) \<Rightarrow> \<not> f64_le (num R c) (num R newcpu)))"

definition script_cost :: "'s redis \<Rightarrow> string \<Rightarrow> string \<times> string \<times> string \<times> string \<Rightarrow> f64 \<Rightarrow> f64" where
  "script_cost R mode row penalty =
     (case row of (cpu, instr, att, mins) \<Rightarrow>
        if mode = ''speed''
        then (if f64_lt (Fin 0) (num R instr)
              then f64_add penalty (f64_floor (f64_div (num R instr) (Fin 1000000)))
              else f64_add penalty (num R cpu))
        else f64_add (f64_add penalty (num R mins)) (f64_mul (Fin 20) (num R att)))"

definition script_step :: "'s redis \<Rightarrow> string \<Rightarrow> f64 \<times> f64 \<Rightarrow> string \<times> string \<Rightarrow> f64 \<times> f64" where
  "script_step R mode acc field =
     (case lua_fields (snd field) of
        None \<Rightarrow> acc
      | Some row \<Rightarrow> (f64_add (fst acc) (Fin 1), script_cost R mode row (snd acc)))"

definition script_score :: "f64 \<Rightarrow> f64 \<times> f64 \<Rightarrow> f64" where
  "script_score scale acc =
     (let penalty = (if f64_lt (snd acc) (Fin 0) then Fin 0 else snd acc);
          penalty = (if f64_le scale penalty then f64_sub scale (Fin 1) else penalty)
      in f64_sub (f64_mul (fst acc) scale) penalty)"

definition applyScript :: "'s redis \<Rightarrow> string \<Rightarrow> string \<Rightarrow> string \<Rightarrow> string \<Rightarrow>
    string \<times> string \<times> string \<times> string \<Rightarrow> string \<Rightarrow> string \<Rightarrow> 's \<Rightarrow> (redis_error, f64) result \<times> 's" where
  "applyScript R sk zk userID problemID row mode scale s =
     (case row of (cpu, instr, att, mins) \<Rightarrow>
        let s1 = (if must_write R (HGET R sk problemID s) cpu
                  then HSET R sk problemID (cpu @ ''|'' @ instr @ ''|'' @ att @ ''|'' @ mins) s else s);
            acc = foldl (script_step R mode) (Fin 0, Fin 0) (HGETALL R sk s1);
            score = script_score (num R scale) acc
        in (Inr score, ZADD R zk score userID s1))"

subsection \<open>Operations\<close>

record RankEntry =
  e_Rank :: int
  e_UserID :: string
  e_Handle :: string
  e_Score :: f64
  e_Solved :: int

definition statsKey :: "string \<Rightarrow> string \<Rightarrow> string" where
  "statsKey contestID userID = ''arena:lb:'' @ contestID @ '':stats:'' @ userID"

definition zKey :: "string \<Rightarrow> string" where
  "zKey contestID = ''arena:lb:'' @ contestID @ '':z''"

definition board_ttl :: duration where
  "board_ttl = 30 * 24 * 60 * Minute_ns"

definition minutes_of :: "gotime \<Rightarrow> UserProblemStat \<Rightarrow> int" where
  "minutes_of contestStart st =
     (if \<not> IsZero (SolvedAt st) \<and> \<not> IsZero contestStart
      then (let m = f64_to_i64 (Minutes (time_Sub (SolvedAt st) contestStart)) in if m < 0 then 0 else m)
      else 0)"

definition row_of :: "gotime \<Rightarrow> UserProblemStat \<Rightarrow> string \<times> string \<times> string \<times> string" where
  "row_of contestStart st =
     (itoa (BestCPUms st), itoa (st_Instructions st), itoa (Attempts st), itoa (minutes_of contestStart st))"

definition Apply :: "'s redis \<Rightarrow> string \<Rightarrow> string \<Rightarrow> string \<Rightarrow> UserProblemStat \<Rightarrow> ScoreMode \<Rightarrow> gotime \<Rightarrow> ('s, unit) rcall" where
  "Apply R contestID userID problemID st mode contestStart c =
     (if \<not> Solved st then (Inr (), c)
      else let sk = statsKey contestID userID; zk = zKey contestID
           in case call (applyScript R sk zk userID problemID (row_of contestStart st) mode (itoa zsetScale)) c of
                (Inl e, c1) \<Rightarrow> (Inl e, c1)
              | (Inr _, c1) \<Rightarrow> call (rupdate (\<lambda>s. EXPIRE R zk board_ttl (EXPIRE R sk board_ttl s))) c1)"

definition Top :: "'s redis \<Rightarrow> string \<Rightarrow> int \<Rightarrow> ('s, RankEntry list) rcall" where
  "Top R contestID n c =
     (let n = (if n \<le> 0 \<or> n > 500 then 100 else n)
      in case call (rpure (\<lambda>s. take (nat n) (ZREVRANGE R (zKey contestID) s))) c of
           (Inl e, c1) \<Rightarrow> (Inl e, c1)
         | (Inr zs, c1) \<Rightarrow>
             (Inr (map (\<lambda>(i, (uid, score)). \<lparr>e_Rank = int i + 1, e_UserID = uid, e_Handle = [], e_Score = score,
                    e_Solved = f64_to_i64 (f64_ceil (f64_div score (f64_of_int zsetScale)))\<rparr>) (enumerate 0 zs)), c1))"

definition zrevrank :: "'s redis \<Rightarrow> string \<Rightarrow> string \<Rightarrow> 's \<Rightarrow> (redis_error, int) result" where
  "zrevrank R k m s =
     (case find (\<lambda>(_, (uid, _)). uid = m) (enumerate 0 (ZREVRANGE R k s)) of
        None \<Rightarrow> Inl NilReply | Some (i, _) \<Rightarrow> Inr (int i))"

definition RankOf :: "'s redis \<Rightarrow> string \<Rightarrow> string \<Rightarrow> ('s, int \<times> f64) rcall" where
  "RankOf R contestID userID c =
     (case call (\<lambda>s. (zrevrank R (zKey contestID) userID s, s)) c of
        (Inl e, c1) \<Rightarrow> (Inl e, c1)
      | (Inr rank, c1) \<Rightarrow>
          (case call (\<lambda>s. (case ZSCORE R (zKey contestID) userID s of None \<Rightarrow> Inl NilReply | Some x \<Rightarrow> Inr x, s)) c1 of
             (Inl e, c2) \<Rightarrow> (Inl e, c2)
           | (Inr score, c2) \<Rightarrow> (Inr (rank + 1, score), c2)))"

fun apply_all :: "'s redis \<Rightarrow> string \<Rightarrow> (string \<times> string \<times> UserProblemStat) list \<Rightarrow> ScoreMode \<Rightarrow> gotime \<Rightarrow> ('s, unit) rcall" where
  "apply_all R contestID [] mode start c = (Inr (), c)"
| "apply_all R contestID ((uid, pid, st) # rest) mode start c =
     (case Apply R contestID uid pid st mode start c of
        (Inl e, c1) \<Rightarrow> (Inl e, c1) | (Inr _, c1) \<Rightarrow> apply_all R contestID rest mode start c1)"

type_synonym standings = "(string \<times> (string \<times> UserProblemStat) list) list"

definition Rebuild :: "'s redis \<Rightarrow> string \<Rightarrow> standings \<Rightarrow> ScoreMode \<Rightarrow> gotime \<Rightarrow> ('s, unit) rcall" where
  "Rebuild R contestID stats mode start c =
     (case call (rupdate (\<lambda>s. foldl (\<lambda>s (uid, _). DEL R (statsKey contestID uid) s) (DEL R (zKey contestID) s) stats)) c of
        (Inl e, c1) \<Rightarrow> (Inl e, c1)
      | (Inr _, c1) \<Rightarrow>
          apply_all R contestID (concat (map (\<lambda>(uid, byProblem). map (\<lambda>(pid, st). (uid, pid, st)) byProblem) stats)) mode start c1)"

subsection \<open>Rows as numbers\<close>

type_synonym int_row = "int \<times> int \<times> int \<times> int"

fun text_of :: "int_row \<Rightarrow> string" where
  "text_of (cpu, instr, att, mins) = itoa cpu @ ''|'' @ itoa instr @ ''|'' @ itoa att @ ''|'' @ itoa mins"

fun strings_of :: "int_row \<Rightarrow> string \<times> string \<times> string \<times> string" where
  "strings_of (cpu, instr, att, mins) = (itoa cpu, itoa instr, itoa att, itoa mins)"

fun row_ok :: "int_row \<Rightarrow> bool" where
  "row_ok (cpu, instr, att, mins) \<longleftrightarrow>
     0 \<le> cpu \<and> cpu < 2 ^ 40 \<and> 0 \<le> instr \<and> instr < 2 ^ 53 \<and> 0 \<le> att \<and> att < 2 ^ 30 \<and> 0 \<le> mins \<and> mins < 2 ^ 40"

fun row_cost :: "string \<Rightarrow> int_row \<Rightarrow> int" where
  "row_cost mode (cpu, instr, att, mins) =
     (if mode = ''speed'' then (if 0 < instr then instr div 1000000 else cpu) else mins + 20 * att)"

lemma row_cost_bounds: "row_ok r \<Longrightarrow> 0 \<le> row_cost mode r \<and> row_cost mode r < 2 ^ 41"
  by (cases r) auto

lemma sum_row_cost_bounds:
  "list_all (row_ok \<circ> snd) m \<Longrightarrow>
     0 \<le> sum_list (map (row_cost mode \<circ> snd) m) \<and> sum_list (map (row_cost mode \<circ> snd) m) \<le> int (length m) * 2 ^ 41"
  by (induction m) (auto dest: row_cost_bounds [of _ mode] simp: algebra_simps)

lemma lua_int_itoa:
  assumes "t = [] \<or> \<not> dec_digit (hd t)"
  shows "lua_int (itoa n @ t) = Some (itoa n, t)"
proof -
  have u: "takeWhile dec_digit (utoa m @ t) = utoa m" "dropWhile dec_digit (utoa m @ t) = t" "utoa m \<noteq> []" for m
    using utoa_digits [of m] assms by (cases t; auto simp: list_all_iff)+
  show ?thesis
  proof (cases "n < 0")
    case False
    obtain c s where s: "utoa (nat n) = c # s" and c: "dec_digit c" using utoa_head by metis
    have "c \<noteq> CHR ''-''" using c by (auto simp: dec_digit_def)
    then show ?thesis using False u [of "nat n"] s by (simp add: lua_int_def itoa_def)
  qed (simp add: lua_int_def itoa_def u)
qed

lemma lua_fields_text [simp]: "lua_fields (text_of r) = Some (strings_of r)"
proof -
  have b: "\<not> dec_digit (hd (CHR ''|'' # t))" for t by (simp add: dec_digit_def)
  obtain a b' c d where r: "r = (a, b', c, d)" by (cases r)
  show ?thesis using b lua_int_itoa [of "[]" d]
    by (simp add: r lua_fields_def lua_bar_def lua_int_itoa)
qed

lemma lua_int_text: "\<exists>t. lua_int (text_of r) = Some (itoa (fst r), t)"
  by (cases r) (simp add: lua_int_itoa dec_digit_def)

declare text_of.simps [simp del] strings_of.simps [simp del]

subsection \<open>The script on rows of numbers\<close>

lemma f64_add_ints: "\<bar>a + b\<bar> < 2 ^ 53 \<Longrightarrow> f64_add (Fin (of_int a)) (Fin (of_int b)) = Fin (of_int (a + b))"
  by (simp only: f64_add.simps of_int_add [symmetric] f64_round_int)

lemma f64_mul_ints: "\<bar>a * b\<bar> < 2 ^ 53 \<Longrightarrow> f64_mul (Fin (of_int a)) (Fin (of_int b)) = Fin (of_int (a * b))"
  by (simp only: f64_mul.simps of_int_mult [symmetric] f64_round_int)

lemma f64_sub_ints: "\<bar>a - b\<bar> < 2 ^ 53 \<Longrightarrow> f64_sub (Fin (of_int a)) (Fin (of_int b)) = Fin (of_int (a - b))"
  using f64_add_ints [of a "- b"] by (simp add: f64_sub_def)

lemma million_floor:
  assumes "0 \<le> n" and "n < 2 ^ 53"
  shows "f64_floor (f64_div (Fin (of_int n)) (Fin 1000000)) = Fin (of_int (n div 1000000))"
proof -
  have lt: "(of_int n / of_int 1000000 :: rat) < 2 ^ 34"
  proof -
    have "(of_int n :: rat) < of_int (2 ^ 53)" using assms(2) by (simp only: of_int_less_iff)
    then show ?thesis by simp
  qed
  have "\<lfloor>round_rat (of_int n / of_int 1000000)\<rfloor> = n div 1000000"
    by (rule round_quotient(1) [where k = 34]) (use assms lt in auto)
  moreover have "f64_round (of_int n / of_int 1000000) = Fin (round_rat (of_int n / of_int 1000000))"
    using lt assms(1) by (intro f64_round_Fin) simp
  ultimately show ?thesis by simp
qed

lemma script_score_packed:
  assumes "0 \<le> n" and "n \<le> 9007199" and "0 \<le> p" and "p < 2 ^ 53"
  shows "script_score (Fin (of_int zsetScale)) (Fin (of_int n), Fin (of_int p)) = Fin (of_int (packed n (clamp_penalty p)))"
proof -
  have le: "f64_le (Fin (of_int zsetScale)) (Fin (of_int p)) \<longleftrightarrow> zsetScale \<le> p"
    by (auto simp: f64_le_def f64_eq_def of_int_less_iff)
  have s1: "f64_sub (Fin (of_int zsetScale)) (Fin 1) = Fin (of_int (zsetScale - 1))"
    using f64_sub_ints [of zsetScale 1] by (simp add: zsetScale_def)
  have m: "f64_mul (Fin (of_int n)) (Fin (of_int zsetScale)) = Fin (of_int (n * zsetScale))"
    using assms by (intro f64_mul_ints) (simp add: zsetScale_def)
  have "f64_sub (Fin (of_int (n * zsetScale))) (Fin (of_int (clamp_penalty p))) = Fin (of_int (packed n (clamp_penalty p)))"
    unfolding packed_def using assms clamp_penalty_range [of p] by (intro f64_sub_ints) (simp add: zsetScale_def)
  then show ?thesis using assms(3)
    by (simp add: script_score_def Let_def le s1 m clamp_penalty_def del: f64_mul.simps of_int_mult of_int_diff split: if_splits)
qed

text \<open>The rows a participant's hash holds.\<close>

definition hash_holds :: "'s redis \<Rightarrow> string \<Rightarrow> 's \<Rightarrow> (string \<times> int_row) list \<Rightarrow> bool" where
  "hash_holds R k s m \<longleftrightarrow> distinct (map fst m) \<and> (\<forall>f. HGET R k f s = map_option text_of (map_of m f))"

definition keep_best :: "('a \<Rightarrow> int) \<Rightarrow> string \<Rightarrow> 'a \<Rightarrow> (string \<times> 'a) list \<Rightarrow> (string \<times> 'a) list" where
  "keep_best cpu pid r m =
     (case map_of m pid of
        None \<Rightarrow> AList.update pid r m
      | Some old \<Rightarrow> if cpu old \<le> cpu r then m else AList.update pid r m)"

lemma keep_best_map: "keep_best cpu pid (g r) (map (\<lambda>(k, x). (k, g x)) m) = map (\<lambda>(k, x). (k, g x)) (keep_best (cpu \<circ> g) pid r m)"
proof -
  have "AList.update pid (g r) (map (\<lambda>(k, x). (k, g x)) m) = map (\<lambda>(k, x). (k, g x)) (AList.update pid r m)"
    by (induction m) auto
  then show ?thesis by (simp add: keep_best_def map_of_map split: option.split)
qed

lemma keep_best_distinct: "distinct (map fst m) \<Longrightarrow> distinct (map fst (keep_best cpu pid r m))"
  by (simp add: keep_best_def distinct_update split: option.split)

lemma keep_best_set: "set (keep_best cpu pid r m) \<subseteq> insert (pid, r) (set m)"
proof -
  have "set (AList.update pid r m) \<subseteq> insert (pid, r) (set m)" by (induction m) auto
  then show ?thesis by (auto simp: keep_best_def split: option.split)
qed

lemma keep_best_length: "length (keep_best cpu pid r m) \<le> Suc (length m)"
proof -
  have "length (AList.update pid r m) \<le> Suc (length m)" by (induction m) auto
  then show ?thesis by (auto simp: keep_best_def split: option.split)
qed

definition rows_score :: "string \<Rightarrow> (string \<times> int_row) list \<Rightarrow> f64" where
  "rows_score mode m = Fin (of_int (packed (int (length m)) (clamp_penalty (sum_list (map (row_cost mode \<circ> snd) m)))))"

definition rows_ok :: "(string \<times> int_row) list \<Rightarrow> bool" where
  "rows_ok m \<longleftrightarrow> list_all (row_ok \<circ> snd) m \<and> length m \<le> 2000"

context redis_hashes
begin

lemma num_itoa [simp]: "num R (itoa n) = f64_of_int n"
  by (simp add: num_def tonumber_itoa)

lemma script_cost_ints:
  assumes "row_ok r" and "0 \<le> p" and "p < 2 ^ 52"
  shows "script_cost R mode (strings_of r) (Fin (of_int p)) = Fin (of_int (p + row_cost mode r))"
proof -
  obtain cpu instr att mins where r: "r = (cpu, instr, att, mins)" by (cases r)
  have ok: "0 \<le> cpu" "cpu < 2 ^ 40" "0 \<le> instr" "instr < 2 ^ 53" "0 \<le> att" "att < 2 ^ 30" "0 \<le> mins" "mins < 2 ^ 40"
    using assms(1) by (simp_all add: r)
  have e: "f64_of_int cpu = Fin (of_int cpu)" "f64_of_int instr = Fin (of_int instr)" "f64_of_int att = Fin (of_int att)"
    "f64_of_int mins = Fin (of_int mins)" using ok by (simp_all add: f64_of_int_exact)
  have d: "0 \<le> instr div 1000000" "instr div 1000000 < 2 ^ 40" using ok(3,4) by simp_all
  have "f64_add (Fin (of_int p)) (Fin (of_int (instr div 1000000))) = Fin (of_int (p + instr div 1000000))"
    using d assms by (intro f64_add_ints) simp
  moreover have "f64_add (Fin (of_int p)) (Fin (of_int cpu)) = Fin (of_int (p + cpu))"
    using ok assms by (intro f64_add_ints) simp
  moreover have "f64_mul (Fin 20) (Fin (of_int att)) = Fin (of_int (20 * att))"
    using f64_mul_ints [of 20 att] ok by simp
  moreover have "f64_add (Fin (of_int p)) (Fin (of_int mins)) = Fin (of_int (p + mins))"
    using ok assms by (intro f64_add_ints) simp
  moreover have "f64_add (Fin (of_int (p + mins))) (Fin (of_int (20 * att))) = Fin (of_int (p + mins + 20 * att))"
    using ok assms by (intro f64_add_ints) simp
  ultimately show ?thesis using million_floor [OF ok(3,4)]
    by (simp add: r strings_of.simps script_cost_def e add.assoc del: f64_add.simps f64_mul.simps f64_div.simps f64_floor.simps)
qed

lemma script_fold:
  assumes "list_all (row_ok \<circ> snd) rows" and "0 \<le> n" and "n + int (length rows) < 2 ^ 50" and "0 \<le> p"
    and "p + int (length rows) * 2 ^ 41 < 2 ^ 52"
  shows "foldl (script_step R mode) (Fin (of_int n), Fin (of_int p)) (map (\<lambda>(k, r). (k, text_of r)) rows) =
    (Fin (of_int (n + int (length rows))), Fin (of_int (p + sum_list (map (row_cost mode \<circ> snd) rows))))"
  using assms
proof (induction rows arbitrary: n p)
  case (Cons kr rows)
  obtain k r where kr: "kr = (k, r)" by (cases kr)
  have ok: "row_ok r" using Cons.prems(1) by (simp add: kr)
  have b: "0 \<le> row_cost mode r" "row_cost mode r < 2 ^ 41" using row_cost_bounds [OF ok] by auto
  have "f64_add (Fin (of_int n)) (Fin 1) = Fin (of_int (n + 1))"
    using f64_add_ints [of n 1] Cons.prems(2,3) by simp
  moreover have "script_cost R mode (strings_of r) (Fin (of_int p)) = Fin (of_int (p + row_cost mode r))"
    using ok Cons.prems(4,5) by (intro script_cost_ints) auto
  ultimately have "script_step R mode (Fin (of_int n), Fin (of_int p)) (k, text_of r) =
      (Fin (of_int (n + 1)), Fin (of_int (p + row_cost mode r)))"
    by (simp add: script_step_def del: f64_add.simps)
  moreover have "foldl (script_step R mode) (Fin (of_int (n + 1)), Fin (of_int (p + row_cost mode r)))
      (map (\<lambda>(k, r). (k, text_of r)) rows) =
    (Fin (of_int (n + 1 + int (length rows))), Fin (of_int (p + row_cost mode r + sum_list (map (row_cost mode \<circ> snd) rows))))"
    using Cons.prems b by (intro Cons.IH) (auto simp: algebra_simps)
  ultimately show ?case by (simp add: kr algebra_simps o_def)
qed simp

lemma hgetall_rows:
  assumes "hash_holds R k s m"
  shows "\<exists>m'. HGETALL R k s = map (\<lambda>(f, r). (f, text_of r)) m' \<and> mset m' = mset m"
proof -
  let ?l = "HGETALL R k s" let ?m' = "map (\<lambda>(f, _). (f, the (map_of m f))) ?l"
  have d: "distinct (map fst m)" and h: "map_of ?l f = map_option text_of (map_of m f)" for f
    using assms hgetall [of k s] by (simp_all add: hash_holds_def)
  have dl: "distinct (map fst ?l)" by (rule hgetall_distinct)
  have l: "\<exists>r. map_of m f = Some r \<and> t = text_of r" if "(f, t) \<in> set ?l" for f t
    using h [of f] map_of_is_SomeI [OF dl that] by (cases "map_of m f") simp_all
  have eq: "?l = map (\<lambda>(f, r). (f, text_of r)) ?m'" 
  proof -
    have "text_of (the (map_of m f)) = t" if "(f, t) \<in> set ?l" for f t using l [OF that] by force
    then show ?thesis by (auto intro!: map_idI [symmetric])
  qed
  have "distinct (map fst ?m')" using dl by (simp add: o_def case_prod_unfold)
  then have dm: "distinct ?m'" by (rule iffD1 [OF distinct_map, THEN conjunct1])
  have "set ?m' = set m"
  proof (intro equalityI subsetI)
    fix x assume "x \<in> set ?m'"
    then show "x \<in> set m" using l by (force dest: map_of_SomeD)
  next
    fix x assume x: "x \<in> set m"
    then have "map_of m (fst x) = Some (snd x)" using d by simp
    then have "map_of ?l (fst x) = Some (text_of (snd x))" by (simp add: h)
    then have "(fst x, text_of (snd x)) \<in> set ?l" by (rule map_of_SomeD)
    then show "x \<in> set ?m'" using \<open>map_of m (fst x) = Some (snd x)\<close> by (force simp: image_iff)
  qed
  then have "mset ?m' = mset m" using dm iffD1 [OF distinct_map d, THEN conjunct1] set_eq_iff_mset_eq_distinct by blast
  then show ?thesis using eq by blast
qed

lemma script_total:
  assumes "hash_holds R k s m" and "rows_ok m"
  shows "script_score (num R (itoa zsetScale)) (foldl (script_step R mode) (Fin 0, Fin 0) (HGETALL R k s)) = rows_score mode m"
proof -
  obtain m' where m': "HGETALL R k s = map (\<lambda>(f, r). (f, text_of r)) m'" "mset m' = mset m"
    using hgetall_rows [OF assms(1)] by blast
  have len: "length m' = length m" using m'(2) by (rule mset_eq_length)
  have st: "set m' = set m" using m'(2) by (rule mset_eq_setD)
  have sm: "sum_list (map (row_cost mode \<circ> snd) m') = sum_list (map (row_cost mode \<circ> snd) m)"
    using m'(2) by (metis mset_map sum_mset_sum_list)
  have ok: "list_all (row_ok \<circ> snd) m'" using assms(2) st by (simp add: rows_ok_def list_all_iff)
  have l: "length m' \<le> 2000" using assms(2) len by (simp add: rows_ok_def)
  have f: "foldl (script_step R mode) (Fin 0, Fin 0) (HGETALL R k s) =
      (Fin (of_int (int (length m'))), Fin (of_int (sum_list (map (row_cost mode \<circ> snd) m'))))"
    using script_fold [OF ok, of 0 0 mode] l by (simp add: m'(1))
  have z: "num R (itoa zsetScale) = Fin (of_int zsetScale)" by (simp add: f64_of_int_exact zsetScale_def)
  show ?thesis unfolding f z
    using script_score_packed [of "int (length m')" "sum_list (map (row_cost mode \<circ> snd) m')"] sum_row_cost_bounds [OF ok, of mode] l
    by (simp add: rows_score_def len sm)
qed

lemma must_write_iff:
  assumes "hash_holds R k s m" and "rows_ok m" and "row_ok r"
  shows "must_write R (HGET R k pid s) (itoa (fst r)) \<longleftrightarrow>
    (case map_of m pid of None \<Rightarrow> True | Some old \<Rightarrow> \<not> fst old \<le> fst r)"
proof (cases "map_of m pid")
  case None
  then show ?thesis using assms(1) by (simp add: hash_holds_def must_write_def)
next
  case (Some old)
  obtain t where t: "lua_int (text_of old) = Some (itoa (fst old), t)" using lua_int_text by blast
  have "row_ok old" using assms(2) map_of_SomeD [OF Some] by (force simp: rows_ok_def list_all_iff)
  then have "f64_of_int (fst old) = Fin (of_int (fst old))" "f64_of_int (fst r) = Fin (of_int (fst r))"
    using assms(3) by (cases old; cases r; auto intro!: f64_of_int_exact)+
  then have "f64_le (num R (itoa (fst old))) (num R (itoa (fst r))) \<longleftrightarrow> fst old \<le> fst r"
    by (auto simp: f64_le_def f64_eq_def)
  then show ?thesis using assms(1) Some t by (simp add: hash_holds_def must_write_def)
qed

text \<open>What one or more executions of the script leave, compared with the state \<open>s\<^sub>0\<close> before.\<close>

definition applied :: "string \<Rightarrow> string \<Rightarrow> string \<Rightarrow> string \<Rightarrow> (string \<times> int_row) list \<Rightarrow> 's \<Rightarrow> 's \<Rightarrow> bool" where
  "applied sk zk uid mode m s\<^sub>0 s \<longleftrightarrow> hash_holds R sk s m \<and> ZSCORE R zk uid s = Some (rows_score mode m) \<and>
     (\<forall>k f. k \<notin> {sk, zk} \<longrightarrow> HGET R k f s = HGET R k f s\<^sub>0) \<and> (\<forall>u. u \<noteq> uid \<longrightarrow> ZSCORE R zk u s = ZSCORE R zk u s\<^sub>0)"

lemma script_applied:
  assumes "hash_holds R sk s m" and "rows_ok m" and "rows_ok (keep_best fst pid r m)" and "row_ok r" and "sk \<noteq> zk"
    and "\<forall>k f. k \<notin> {sk, zk} \<longrightarrow> HGET R k f s = HGET R k f s\<^sub>0" and "\<forall>u. u \<noteq> uid \<longrightarrow> ZSCORE R zk u s = ZSCORE R zk u s\<^sub>0"
  shows "applied sk zk uid mode (keep_best fst pid r m) s\<^sub>0 (snd (applyScript R sk zk uid pid (strings_of r) mode (itoa zsetScale) s))"
proof -
  let ?m = "keep_best fst pid r m"
  let ?s1 = "if must_write R (HGET R sk pid s) (itoa (fst r)) then HSET R sk pid (text_of r) s else s"
  have h1: "hash_holds R sk ?s1 ?m"
    using assms(1) must_write_iff [OF assms(1,2,4), of pid]
    by (auto simp: hash_holds_def keep_best_def hget_hset update_conv distinct_update split: option.splits)
  let ?s2 = "ZADD R zk (rows_score mode ?m) uid ?s1"
  have "applyScript R sk zk uid pid (strings_of r) mode (itoa zsetScale) s = (Inr (rows_score mode ?m), ?s2)"
    using script_total [OF h1 assms(3), of mode]
    by (cases r) (simp add: applyScript_def Let_def strings_of.simps text_of.simps split: if_splits)
  moreover have "hash_holds R sk ?s2 ?m" using h1 assms(5) by (simp add: hash_holds_def hget_zadd)
  moreover have "HGET R k f ?s2 = HGET R k f s\<^sub>0" if "k \<notin> {sk, zk}" for k f
    using that assms(6) by (simp add: hget_zadd hget_hset)
  moreover have "ZSCORE R zk u ?s2 = ZSCORE R zk u s\<^sub>0" if "u \<noteq> uid" for u
    using that assms(5,7) by (simp add: zscore_zadd zscore_hset)
  ultimately show ?thesis by (simp add: applied_def zscore_zadd)
qed

lemma keep_best_again: "keep_best cpu pid r (keep_best cpu pid r m) = keep_best cpu pid r m"
  by (auto simp: keep_best_def update_conv split: option.split)

lemma applied_again:
  assumes "applied sk zk uid mode (keep_best fst pid r m) s\<^sub>0 s" and "rows_ok (keep_best fst pid r m)" and "row_ok r" and "sk \<noteq> zk"
  shows "applied sk zk uid mode (keep_best fst pid r m) s\<^sub>0 (snd (applyScript R sk zk uid pid (strings_of r) mode (itoa zsetScale) s))"
  using script_applied [of sk s "keep_best fst pid r m" pid r zk s\<^sub>0 uid mode] assms
  by (simp add: applied_def keep_best_again)

lemma call_applied:
  assumes "hash_holds R sk (server c) m" and "rows_ok m" and "rows_ok (keep_best fst pid r m)" and "row_ok r" and "sk \<noteq> zk"
    and "call (applyScript R sk zk uid pid (strings_of r) mode (itoa zsetScale)) c = (Inr x, c1)"
  shows "applied sk zk uid mode (keep_best fst pid r m) (server c) (server c1)"
proof -
  let ?f = "applyScript R sk zk uid pid (strings_of r) mode (itoa zsetScale)"
  let ?P = "applied sk zk uid mode (keep_best fst pid r m) (server c)"
  have first: "?P (snd (?f (server c)))" by (rule script_applied [OF assms(1-5)]) simp_all
  have again: "?P s \<Longrightarrow> ?P (snd (?f s))" for s by (rule applied_again [OF _ assms(3-5)])
  have many: "?P (snd (?f (repeat n ?f (server c))))" for n
  proof (cases n)
    case (Suc k)
    have "?P (repeat k ?f (snd (?f (server c))))" using first by (rule repeat_keeps [rotated]) (rule again)
    then show ?thesis using again by (simp add: Suc)
  qed (simp add: first)
  obtain n where "fates c (calls c) = Replied n" using assms(6) by (auto simp: call_def Let_def split: fate.splits)
  then have "server c1 = snd (?f (repeat (min n MaxRetries) ?f (server c)))"
    using assms(6) by (auto simp: call_def Let_def split: prod.splits)
  then show ?thesis using many by simp
qed

lemma applied_expire: "applied sk zk uid mode m s\<^sub>0 s \<Longrightarrow> applied sk zk uid mode m s\<^sub>0 (EXPIRE R k t s)"
  by (simp add: applied_def hash_holds_def hget_expire zscore_expire)

lemma apply_applied:
  assumes "Solved st" and "row_of start st = strings_of r" and "sk = statsKey cid uid" and "zk = zKey cid"
    and "hash_holds R sk (server c) m" and "rows_ok m" and "rows_ok (keep_best fst pid r m)" and "row_ok r"
    and "Apply R cid uid pid st mode start c = (Inr (), c')"
  shows "applied sk zk uid mode (keep_best fst pid r m) (server c) (server c')"
proof -
  have ne: "sk \<noteq> zk" by (simp add: assms(3,4) statsKey_def zKey_def)
  let ?f = "applyScript R sk zk uid pid (strings_of r) mode (itoa zsetScale)"
  let ?e = "rupdate (\<lambda>s. EXPIRE R zk board_ttl (EXPIRE R sk board_ttl s))"
  let ?P = "applied sk zk uid mode (keep_best fst pid r m) (server c)"
  obtain x c1 where c1: "call ?f c = (Inr x, c1)" "call ?e c1 = (Inr (), c')"
    using assms(1-4,9) by (auto simp: Apply_def Let_def split: sum.splits prod.splits)
  have "?P (server c1)" by (rule call_applied [OF assms(5-8) ne c1(1)])
  then have "?P (server (snd (call ?e c1)))"
    by (rule call_keeps [rotated]) (simp add: rupdate_def applied_expire)
  then show ?thesis by (simp add: c1(2))
qed

end

subsection \<open>Rows and standings\<close>

definition ints_of :: "gotime \<Rightarrow> UserProblemStat \<Rightarrow> int_row" where
  "ints_of start st = (BestCPUms st, st_Instructions st, Attempts st, minutes_of start st)"

definition rows_of :: "gotime \<Rightarrow> (string \<times> UserProblemStat) list \<Rightarrow> (string \<times> int_row) list" where
  "rows_of start stats = map (\<lambda>(pid, st). (pid, ints_of start st)) stats"

text \<open>
  A solved problem whose readings are in the range the judge reports, solved during the
  contest and within \<open>2 ^ 17\<close> minutes of its start.
\<close>

definition stat_ok :: "gotime \<Rightarrow> UserProblemStat \<Rightarrow> bool" where
  "stat_ok start st \<longleftrightarrow> Solved st \<and> 0 \<le> BestCPUms st \<and> BestCPUms st < 2 ^ 40 \<and>
     0 \<le> st_Instructions st \<and> st_Instructions st < 2 ^ 53 \<and> 0 \<le> Attempts st \<and> Attempts st < 2 ^ 30 \<and>
     0 < start \<and> start \<le> SolvedAt st \<and> SolvedAt st - start < 2 ^ 17 * Minute_ns"

definition stats_ok :: "gotime \<Rightarrow> (string \<times> UserProblemStat) list \<Rightarrow> bool" where
  "stats_ok start stats \<longleftrightarrow> distinct (map fst stats) \<and> list_all (stat_ok start \<circ> snd) stats \<and> length stats \<le> 2000"

lemma row_of_ints: "row_of start st = strings_of (ints_of start st)"
  by (simp add: row_of_def ints_of_def strings_of.simps)

lemma minutes_of_ok:
  assumes "stat_ok start st"
  shows "minutes_of start st = f64_to_i64 (Minutes (time_Sub (SolvedAt st) start))"
    and "0 \<le> minutes_of start st" and "minutes_of start st < 2 ^ 17"
proof -
  let ?d = "SolvedAt st - start"
  have b: "0 \<le> ?d" "?d < 2 ^ 17 * Minute_ns" using assms by (simp_all add: stat_ok_def)
  then have "time_Sub (SolvedAt st) start = ?d" by (simp add: time_Sub_def)
  then have m: "f64_to_i64 (Minutes (time_Sub (SolvedAt st) start)) = ?d div Minute_ns" using minutes_trunc [OF b] by simp
  have q: "0 \<le> ?d div Minute_ns" "?d div Minute_ns < 2 ^ 17" using b by arith+
  have nz: "\<not> IsZero (SolvedAt st)" "\<not> IsZero start" using assms by (simp_all add: stat_ok_def IsZero_def)
  show e: "minutes_of start st = f64_to_i64 (Minutes (time_Sub (SolvedAt st) start))"
    using nz q m by (simp add: minutes_of_def Let_def)
  show "0 \<le> minutes_of start st" "minutes_of start st < 2 ^ 17" using e m q by simp_all
qed

lemma ints_of_ok:
  assumes "stat_ok start st" shows "row_ok (ints_of start st)"
  using assms minutes_of_ok [OF assms] by (simp add: stat_ok_def ints_of_def)

lemma cost_row_cost:
  assumes "stat_ok start st" and "mode = ModeSpeed \<or> mode = ModeICPC"
  shows "cost mode start st = row_cost mode (ints_of start st)"
  using assms minutes_of_ok(1) [OF assms(1)]
  by (auto simp: cost_def ints_of_def go_simps stat_ok_def sdiv_nonneg)

lemma rows_of_ok: "stats_ok start stats \<Longrightarrow> rows_ok (rows_of start stats)"
  by (auto simp: stats_ok_def rows_ok_def rows_of_def list_all_iff ints_of_ok)

lemma stats_score:
  assumes "stats_ok start stats" and "mode = ModeSpeed \<or> mode = ModeICPC"
  shows "rows_score mode (rows_of start stats) = RankScore mode stats start"
proof -
  have all: "filter Solved (map snd stats) = map snd stats"
    using assms(1) by (auto simp: stats_ok_def list_all_iff stat_ok_def filter_id_conv)
  have s: "sum_list (map (row_cost mode \<circ> snd) (rows_of start stats)) = total_cost mode start stats"
    unfolding total_cost_def solved_stats_def all
    using assms by (auto simp: rows_of_def stats_ok_def list_all_iff o_def case_prod_unfold cost_row_cost intro!: arg_cong [of _ _ sum_list])
  have "in_i64 (total_cost mode start stats)"
    using rows_of_ok [OF assms(1)] sum_row_cost_bounds [of "rows_of start stats" mode] s by (auto simp: rows_ok_def in_i64_def)
  then show ?thesis using assms(1) s all
    by (simp add: RankScore_packed stats_ok_def rows_score_def i64_id solved_stats_def rows_of_def)
qed

lemma keep_best_rows: "keep_best fst pid (ints_of start st) (rows_of start stats) = rows_of start (keep_best BestCPUms pid st stats)"
proof -
  have "(fst \<circ> ints_of start) = BestCPUms" by (auto simp: ints_of_def)
  then show ?thesis using keep_best_map [of fst pid "ints_of start" st stats] by (simp add: rows_of_def)
qed

lemma keep_best_ok:
  assumes "stats_ok start stats" and "stat_ok start st" and "length stats < 2000"
  shows "stats_ok start (keep_best BestCPUms pid st stats)"
proof -
  have "list_all (stat_ok start \<circ> snd) (keep_best BestCPUms pid st stats)"
    using assms keep_best_set [of BestCPUms pid st stats] by (auto simp: stats_ok_def list_all_iff)
  then show ?thesis using assms keep_best_length [of BestCPUms pid st stats]
    by (auto simp: stats_ok_def keep_best_distinct)
qed

context redis_hashes
begin

lemma hget_del_users:
  "HGET R k f (foldl (\<lambda>s (uid, _). DEL R (statsKey cid uid) s) s stats) =
     (if k \<in> statsKey cid ` fst ` set stats then None else HGET R k f s)"
  by (induction stats arbitrary: s) (auto simp: hget_del)

lemma zscore_del_users:
  "ZSCORE R k u (foldl (\<lambda>s (uid, _). DEL R (statsKey cid uid) s) s stats) =
     (if k \<in> statsKey cid ` fst ` set stats then None else ZSCORE R k u s)"
  by (induction stats arbitrary: s) (auto simp: zscore_del)

lemma statsKey_inject [simp]: "statsKey cid u = statsKey cid u' \<longleftrightarrow> u = u'" "statsKey cid u \<noteq> zKey cid"
  by (simp_all add: statsKey_def zKey_def)

text \<open>The board while it is rebuilt: each participant has the problems applied so far.\<close>

definition board :: "string \<Rightarrow> ScoreMode \<Rightarrow> gotime \<Rightarrow> string set \<Rightarrow> (string \<Rightarrow> (string \<times> UserProblemStat) list) \<Rightarrow> 's \<Rightarrow> bool" where
  "board cid mode start U D s \<longleftrightarrow>
     (\<forall>u \<in> U. hash_holds R (statsKey cid u) s (rows_of start (D u))) \<and>
     (\<forall>u. ZSCORE R (zKey cid) u s = (if D u = [] then None else Some (RankScore mode (D u) start)))"

lemma board_apply:
  assumes "board cid mode start U D (server c)" and "uid \<in> U" and "mode = ModeSpeed \<or> mode = ModeICPC"
    and "stats_ok start (D uid @ [(pid, st)])" and "Apply R cid uid pid st mode start c = (Inr (), c')"
  shows "board cid mode start U (D(uid := D uid @ [(pid, st)])) (server c')"
proof -
  let ?D = "D uid @ [(pid, st)]"
  have ok: "stats_ok start (D uid)" "stat_ok start st" using assms(4) by (auto simp: stats_ok_def)
  have "pid \<notin> fst ` set (D uid)" using assms(4) by (auto simp: stats_ok_def)
  then have kb: "keep_best BestCPUms pid st (D uid) = ?D"
    using map_of_eq_None_iff [of "D uid" pid] by (simp add: keep_best_def update_fresh)
  have "applied (statsKey cid uid) (zKey cid) uid mode (keep_best fst pid (ints_of start st) (rows_of start (D uid))) (server c) (server c')"
    by (rule apply_applied [OF _ row_of_ints refl refl _ rows_of_ok [OF ok(1)] _ ints_of_ok [OF ok(2)] assms(5)])
       (use assms(1,2) ok in \<open>auto simp: board_def stat_ok_def keep_best_rows kb intro!: rows_of_ok assms(4)\<close>)
  then have a: "applied (statsKey cid uid) (zKey cid) uid mode (rows_of start ?D) (server c) (server c')"
    by (simp add: keep_best_rows kb)
  show ?thesis using assms(1) a stats_score [OF assms(4,3)]
    by (auto simp: board_def applied_def hash_holds_def)
qed

lemma board_apply_all:
  assumes "board cid mode start U D (server c)" and "mode = ModeSpeed \<or> mode = ModeICPC"
    and "fst ` set L \<subseteq> U" and "\<And>u. stats_ok start (D u @ map snd (filter (\<lambda>(u', _). u' = u) L))"
    and "apply_all R cid L mode start c = (Inr (), c')"
  shows "board cid mode start U (\<lambda>u. D u @ map snd (filter (\<lambda>(u', _). u' = u) L)) (server c')"
  using assms(1,3-5)
proof (induction L arbitrary: D c)
  case (Cons x L)
  obtain uid pid st where x: "x = (uid, pid, st)" by (cases x)
  obtain c1 where c1: "Apply R cid uid pid st mode start c = (Inr (), c1)" "apply_all R cid L mode start c1 = (Inr (), c')"
    using Cons.prems(4) by (auto simp: x split: sum.splits prod.splits)
  let ?D = "D(uid := D uid @ [(pid, st)])"
  have "stats_ok start (D uid @ (pid, st) # map snd (filter (\<lambda>(u', _). u' = uid) L))"
    using Cons.prems(3) [of uid] by (simp add: x)
  then have ok: "stats_ok start (D uid @ [(pid, st)])" by (auto simp: stats_ok_def)
  have b1: "board cid mode start U ?D (server c1)"
    using Cons.prems(1,2) ok by (intro board_apply [OF _ _ assms(2) _ c1(1)]) (auto simp: x)
  have ok': "stats_ok start (?D u @ map snd (filter (\<lambda>(u', _). u' = u) L))" for u
    using Cons.prems(3) [of u] by (simp add: x split: if_splits)
  have eq: "(\<lambda>u. ?D u @ map snd (filter (\<lambda>(u', _). u' = u) L)) = (\<lambda>u. D u @ map snd (filter (\<lambda>(u', _). u' = u) (x # L)))"
    by (auto simp: x)
  have "fst ` set L \<subseteq> U" using Cons.prems(2) by simp
  from Cons.IH [OF b1 this ok' c1(2)] show ?case unfolding eq .
qed simp

end

lemma flatten_user:
  fixes stats :: standings
  assumes "distinct (map fst stats)" and "(uid, m) \<in> set stats"
  shows "map snd (filter (\<lambda>(u, _). u = uid) (concat (map (\<lambda>(u, m). map (\<lambda>(p, st). (u, p, st)) m) stats))) = m"
proof -
  have same: "map snd (filter (\<lambda>(u, _). u = uid) (map (Pair u) m)) = (if u = uid then m else [])"
    for u and m :: "(string \<times> UserProblemStat) list"
    by (induction m) auto
  have none: "concat (map (\<lambda>(u, m). if u = uid then m else []) xs) = []" if "uid \<notin> fst ` set xs" for xs :: standings
    using that by (induction xs) auto
  have "map snd (filter (\<lambda>(u, _). u = uid) (concat (map (\<lambda>(u, m). map (\<lambda>(p, st). (u, p, st)) m) stats))) =
      concat (map (\<lambda>(u, m). if u = uid then m else []) stats)"
    by (induction stats) (auto simp: same)
  also have "\<dots> = m" using assms by (induction stats) (auto simp: none image_iff split: if_splits)
  finally show ?thesis .
qed

lemma flatten_other:
  assumes "uid \<notin> fst ` set stats"
  shows "map snd (filter (\<lambda>(u, _). u = uid) (concat (map (\<lambda>(u, m). map (\<lambda>(p, st). (u, p, st)) m) stats))) = []"
  using assms by (induction stats) (auto simp: filter_empty_conv)

subsection \<open>Reading the solved count off the score\<close>

lemma solved_ceil:
  assumes "1 \<le> n" and "n \<le> 9007199" and "0 \<le> p" and "p < zsetScale"
  shows "f64_to_i64 (f64_ceil (f64_div (Fin (of_int (packed n p))) (f64_of_int zsetScale))) = n"
proof -
  let ?z = "packed n p" and ?x = "(of_int (packed n p) / of_int zsetScale :: rat)"
  have z: "0 \<le> ?z" "?z \<le> 9007199 * zsetScale" "zsetScale = 1000000000"
    using assms by (simp_all add: packed_def zsetScale_def)
  have x: "0 \<le> ?x" "?x < 2 ^ 24"
  proof -
    have "(of_int ?z :: rat) \<le> of_int (9007199 * zsetScale)" using z(2) by (simp only: of_int_le_iff)
    then show "?x < 2 ^ 24" by (simp add: z(3))
    show "0 \<le> ?x" using z by simp
  qed
  have r: "f64_round ?x = Fin (round_rat ?x)" using x by (intro f64_round_Fin) simp
  have "\<lceil>round_rat ?x\<rceil> = \<lceil>?x\<rceil>" by (rule round_quotient(2) [where k = 24]) (use z x in auto)
  also have "\<dots> = n"
  proof (rule ceiling_unique)
    have "(of_int (n - 1) * of_int zsetScale :: rat) < of_int ?z"
      unfolding of_int_mult [symmetric] of_int_less_iff using assms by (simp add: packed_def algebra_simps)
    then show "of_int n - 1 < ?x" by (simp add: z(3) field_simps)
    have "(of_int ?z :: rat) \<le> of_int n * of_int zsetScale"
      unfolding of_int_mult [symmetric] of_int_le_iff using assms by (simp add: packed_def)
    then show "?x \<le> of_int n" by (simp add: z(3) field_simps)
  qed
  finally have "f64_ceil (f64_div (Fin (of_int ?z)) (f64_of_int zsetScale)) = Fin (of_int n)"
    using r by (simp add: f64_of_int_exact z(3))
  then show ?thesis using assms by (simp add: Let_def in_i64_def)
qed

lemma RankScore_ceil:
  assumes "length stats \<le> 9007199" and "solved_stats stats \<noteq> []"
  shows "f64_to_i64 (f64_ceil (f64_div (RankScore mode stats start) (f64_of_int zsetScale))) = int (length (solved_stats stats))"
proof -
  have "length (solved_stats stats) \<le> 9007199" using length_solved_stats [of stats] assms(1) by linarith
  moreover have "1 \<le> length (solved_stats stats)" using assms(2) by (cases "solved_stats stats") auto
  ultimately show ?thesis using solved_ceil clamp_penalty_range by (simp add: RankScore_packed assms(1))
qed

definition entry_of :: "nat \<times> string \<times> f64 \<Rightarrow> RankEntry" where
  "entry_of = (\<lambda>(i, (uid, score)). \<lparr>e_Rank = int i + 1, e_UserID = uid, e_Handle = [], e_Score = score,
     e_Solved = f64_to_i64 (f64_ceil (f64_div score (f64_of_int zsetScale)))\<rparr>)"

lemma entries_fields:
  "map e_Score (map entry_of (enumerate k xs)) = map snd xs" "map e_UserID (map entry_of (enumerate k xs)) = map fst xs"
  by (induction xs arbitrary: k) (auto simp: entry_of_def)

lemma repeat_rpure: "repeat n (rpure f) s = s"
  by (induction n) (simp_all add: rpure_def)

lemma Top_entries:
  assumes "Top R cid n c = (Inr es, c')"
  shows "es = map entry_of (enumerate 0 (take (nat (if n \<le> 0 \<or> n > 500 then 100 else n)) (ZREVRANGE R (zKey cid) (server c))))"
  using assms by (auto simp: Top_def Let_def call_def repeat_rpure rpure_def entry_of_def split: sum.splits prod.splits fate.splits)

lemma Apply_refines:
  assumes "redis_hashes R" and "stats_ok start stats" and "length stats < 2000" and "stat_ok start st"
    and "mode = ModeSpeed \<or> mode = ModeICPC"
    and "hash_holds R (statsKey cid uid) (server c) (rows_of start stats)"
    and "Apply R cid uid pid st mode start c = (Inr (), c')"
  shows "hash_holds R (statsKey cid uid) (server c') (rows_of start (keep_best BestCPUms pid st stats)) \<and>
    ZSCORE R (zKey cid) uid (server c') = Some (RankScore mode (keep_best BestCPUms pid st stats) start) \<and>
    (u \<noteq> uid \<longrightarrow> ZSCORE R (zKey cid) u (server c') = ZSCORE R (zKey cid) u (server c))"
proof -
  have ok: "stats_ok start (keep_best BestCPUms pid st stats)" by (rule keep_best_ok [OF assms(2,4,3)])
  have "redis_hashes.applied R (statsKey cid uid) (zKey cid) uid mode
     (keep_best fst pid (ints_of start st) (rows_of start stats)) (server c) (server c')"
    by (rule redis_hashes.apply_applied [OF assms(1) _ row_of_ints refl refl assms(6) rows_of_ok [OF assms(2)] _ ints_of_ok [OF assms(4)] assms(7)])
       (use assms(4) rows_of_ok [OF ok] in \<open>simp_all add: keep_best_rows stat_ok_def\<close>)
  then show ?thesis using stats_score [OF ok assms(5)]
    by (auto simp: redis_hashes.applied_def [OF assms(1)] keep_best_rows)
qed

subsection \<open>Properties\<close>

text \<open>
  C12: a verdict applied to the board keeps the better of the old and the new run of that
  problem, and the score written for the participant is exactly the rank score the core
  computes from the standings kept, however often the client library repeats the call; no
  other participant's score changes.
\<close>

theorem Apply_refines_RankScore:
  assumes "redis_hashes R" and "stats_ok start stats" and "length stats < 2000" and "stat_ok start st"
    and "mode = ModeSpeed \<or> mode = ModeICPC"
    and "hash_holds R (statsKey cid uid) (server c) (rows_of start stats)"
    and "Apply R cid uid pid st mode start c = (Inr (), c')"
  shows "hash_holds R (statsKey cid uid) (server c') (rows_of start (keep_best BestCPUms pid st stats)) \<and>
    ZSCORE R (zKey cid) uid (server c') = Some (RankScore mode (keep_best BestCPUms pid st stats) start) \<and>
    (u \<noteq> uid \<longrightarrow> ZSCORE R (zKey cid) u (server c') = ZSCORE R (zKey cid) u (server c))"
  using Apply_refines [OF assms] .

definition sample_stat :: "int \<Rightarrow> UserProblemStat" where
  "sample_stat cpu = zero_UserProblemStat\<lparr>Solved := True, BestCPUms := cpu, SolvedAt := 1 + 3 * Minute_ns\<rparr>"

definition empty_board :: "ref_state rdb" where
  "empty_board = \<lparr>server = \<lparr>ref_hash = (\<lambda>_. []), ref_zset = (\<lambda>_. []), ref_held = [], ref_groups = [], ref_published = [], ref_time = 0\<rparr>,
     calls = 0, fates = (\<lambda>_. Replied 2)\<rparr>"

lemma sample_stat_ok: "0 \<le> cpu \<Longrightarrow> cpu < 2 ^ 40 \<Longrightarrow> stat_ok 1 (sample_stat cpu)"
  by (simp add: stat_ok_def sample_stat_def zero_UserProblemStat_def)

lemma call_replied: "fates c (calls c) = Replied n \<Longrightarrow> (\<And>s. is_ok (fst (f s))) \<Longrightarrow> \<exists>x c'. call f c = (Inr x, c') \<and> fates c' = fates c"
  by (auto simp: call_def Let_def split: prod.split) (metis fst_conv is_ok.elims(2))

lemma apply_replied: "fates c = (\<lambda>_. Replied n) \<Longrightarrow> \<exists>c'. Apply R cid uid pid st mode start c = (Inr (), c') \<and> fates c' = fates c"
proof -
  assume f: "fates c = (\<lambda>_. Replied n)"
  let ?f = "applyScript R (statsKey cid uid) (zKey cid) uid pid (row_of start st) mode (itoa zsetScale)"
  obtain x c1 where c1: "call ?f c = (Inr x, c1)" "fates c1 = fates c"
    using call_replied [of c n ?f] f by (auto simp: applyScript_def Let_def row_of_def)
  obtain y c2 where c2: "call (rupdate (\<lambda>s. EXPIRE R (zKey cid) board_ttl (EXPIRE R (statsKey cid uid) board_ttl s))) c1 = (Inr y, c2)"
      "fates c2 = fates c1"
    using call_replied [of c1 n "rupdate (\<lambda>s. EXPIRE R (zKey cid) board_ttl (EXPIRE R (statsKey cid uid) board_ttl s))"] f c1
    by (auto simp: rupdate_def)
  show ?thesis using c1 c2 by (auto simp: Apply_def Let_def)
qed

theorem Apply_refines_RankScore_witness:
  "\<exists>c'. Apply ref_redis ''c'' ''u'' ''p'' (sample_stat 12) ModeSpeed 1 empty_board = (Inr (), c') \<and>
     ZSCORE ref_redis (zKey ''c'') ''u'' (server c') = Some (RankScore ModeSpeed [(''p'', sample_stat 12)] 1)"
proof -
  obtain c' where c': "Apply ref_redis ''c'' ''u'' ''p'' (sample_stat 12) ModeSpeed 1 empty_board = (Inr (), c')"
    using apply_replied [of empty_board 2 ref_redis "''c''" "''u''" "''p''" "sample_stat 12" ModeSpeed 1]
    by (metis empty_board_def rdb.select_convs(3))
  have "hash_holds ref_redis (statsKey ''c'' ''u'') (server empty_board) (rows_of 1 [])"
    by (simp add: hash_holds_def rows_of_def ref_redis_def empty_board_def)
  then have "ZSCORE ref_redis (zKey ''c'') ''u'' (server c') = Some (RankScore ModeSpeed [(''p'', sample_stat 12)] 1)"
    using Apply_refines_RankScore [OF ref_hashes.redis_hashes_axioms _ _ sample_stat_ok _ _ c', of "[]"]
    by (simp add: stats_ok_def keep_best_def)
  then show ?thesis using c' by blast
qed

text \<open>
  C27: a rebuild from the database's standings leaves exactly those participants on the board,
  each with the rank score the core computes from their standings, whatever was in Redis
  before and however often calls are repeated.
\<close>

theorem Rebuild_exact:
  assumes "redis_hashes R" and "mode = ModeSpeed \<or> mode = ModeICPC" and "distinct (map fst stats)"
    and "list_all (\<lambda>(_, m). stats_ok start m \<and> m \<noteq> []) stats"
    and "Rebuild R cid stats mode start c = (Inr (), c')"
  shows "ZSCORE R (zKey cid) u (server c') = map_option (\<lambda>m. RankScore mode m start) (map_of stats u)"
proof -
  let ?del = "rupdate (\<lambda>s. foldl (\<lambda>s (uid, _). DEL R (statsKey cid uid) s) (DEL R (zKey cid) s) stats)"
  let ?L = "concat (map (\<lambda>(uid, byProblem). map (\<lambda>(pid, st). (uid, pid, st)) byProblem) stats)"
  let ?mine = "\<lambda>u. map snd (filter (\<lambda>(u', _). u' = u) ?L)" and ?U = "fst ` set stats"
  note laws = redis_hashes.hget_del_users [OF assms(1)] redis_hashes.zscore_del_users [OF assms(1)]
    redis_hashes.hget_del [OF assms(1)] redis_hashes.zscore_del [OF assms(1)] redis_hashes.statsKey_inject [OF assms(1)]
  obtain x c1 where c1: "call ?del c = (Inr x, c1)" "apply_all R cid ?L mode start c1 = (Inr (), c')"
    using assms(5) by (auto simp: Rebuild_def split: sum.splits prod.splits)
  obtain s where s: "server c1 = snd (?del s)"
    using c1(1) by (auto simp: call_def Let_def rupdate_def split: fate.splits)
  have z: "zKey cid \<notin> statsKey cid ` ?U" using laws(6) by (metis imageE)
  have b0: "redis_hashes.board R cid mode start ?U (\<lambda>_. []) (server c1)"
    using z unfolding redis_hashes.board_def [OF assms(1)] s
    by (auto simp: rupdate_def hash_holds_def rows_of_def laws)
  have mine: "?mine u = (case map_of stats u of None \<Rightarrow> [] | Some m \<Rightarrow> m)" for u
    using flatten_other [of u stats] flatten_user [OF assms(3)]
    by (auto split: option.split dest: map_of_SomeD simp: map_of_eq_None_iff)
  have ok: "stats_ok start ([] @ ?mine u)" for u
  proof (cases "map_of stats u")
    case (Some m)
    then have "stats_ok start m" using assms(4) by (auto simp: list_all_iff dest: map_of_SomeD)
    then show ?thesis using mine [of u] Some by simp
  qed (use mine [of u] in \<open>simp add: stats_ok_def\<close>)
  have "fst ` set ?L \<subseteq> ?U" by force
  from redis_hashes.board_apply_all [OF assms(1) b0 assms(2) this ok c1(2)]
  have "ZSCORE R (zKey cid) u (server c') = (if ?mine u = [] then None else Some (RankScore mode (?mine u) start))"
    by (simp add: redis_hashes.board_def [OF assms(1)])
  then show ?thesis using mine [of u] assms(4)
    by (auto simp: list_all_iff split: option.splits dest!: map_of_SomeD)
qed

theorem Rebuild_exact_witness:
  "\<exists>c'. Rebuild ref_redis ''c'' [(''u'', [(''p'', sample_stat 12), (''q'', sample_stat 30)])] ModeICPC 1 empty_board = (Inr (), c') \<and>
     ZSCORE ref_redis (zKey ''c'') ''u'' (server c') =
       Some (RankScore ModeICPC [(''p'', sample_stat 12), (''q'', sample_stat 30)] 1)"
proof -
  let ?m = "[(''p'', sample_stat 12), (''q'', sample_stat 30)]"
  let ?del = "rupdate (\<lambda>s. foldl (\<lambda>s (uid, _). DEL ref_redis (statsKey ''c'' uid) s) (DEL ref_redis (zKey ''c'') s) [(''u'', ?m)])"
  have f: "fates empty_board = (\<lambda>_. Replied 2)" by (simp add: empty_board_def)
  obtain x c1 where c1: "call ?del empty_board = (Inr x, c1)" "fates c1 = fates empty_board"
    using call_replied [of empty_board 2 ?del] f by (auto simp: rupdate_def)
  obtain c2 where c2: "Apply ref_redis ''c'' ''u'' ''p'' (sample_stat 12) ModeICPC 1 c1 = (Inr (), c2)" "fates c2 = fates c1"
    using apply_replied [of c1 2] f c1(2) by metis
  obtain c3 where c3: "Apply ref_redis ''c'' ''u'' ''q'' (sample_stat 30) ModeICPC 1 c2 = (Inr (), c3)"
    using apply_replied [of c2 2] f c1(2) c2(2) by metis
  have r: "Rebuild ref_redis ''c'' [(''u'', ?m)] ModeICPC 1 empty_board = (Inr (), c3)"
    using c1 c2 c3 by (simp add: Rebuild_def)
  have "list_all (\<lambda>(_, m). stats_ok 1 m \<and> m \<noteq> []) [(''u'', ?m)]"
    using sample_stat_ok [of 12] sample_stat_ok [of 30] by (simp add: stats_ok_def)
  from Rebuild_exact [OF ref_hashes.redis_hashes_axioms _ _ this r, of "''u''"] r show ?thesis by auto
qed

text \<open>
  C28: \<^verbatim>\<open>Top\<close> lists at most 500 distinct participants in the order of their scores, ranked from 1,
  and the solved count it derives from a score by dividing and rounding up is the number of
  problems the participant solved.
\<close>

theorem Top_spec:
  assumes "redis_hashes R" and "Top R cid n c = (Inr es, c')"
    and "e \<in> set es" and "e_Score e = RankScore mode stats start" and "length stats \<le> 9007199" and "solved_stats stats \<noteq> []"
  shows "e_Solved e = int (length (solved_stats stats)) \<and> ZSCORE R (zKey cid) (e_UserID e) (server c) = Some (e_Score e) \<and>
    sorted_wrt (\<lambda>a b. \<not> f64_lt (e_Score a) (e_Score b)) es \<and> distinct (map e_UserID es) \<and>
    length es \<le> 500 \<and> map e_Rank es = map (\<lambda>i. int i + 1) [0..<length es]"
proof -
  let ?z = "ZREVRANGE R (zKey cid) (server c)" and ?k = "nat (if n \<le> 0 \<or> n > 500 then 100 else n)"
  define zs where zs: "zs = take ?k ?z"
  have es: "es = map entry_of (enumerate 0 zs)" using Top_entries [OF assms(2)] by (simp only: zs)
  have "?k \<le> 500" by (simp add: nat_le_iff)
  then have len: "length zs \<le> 500" unfolding zs length_take by linarith
  have sc: "map e_Score es = map snd zs" "map e_UserID es = map fst zs" by (simp_all only: es entries_fields)
  obtain i where i: "i < length zs" "e = entry_of (i, zs ! i)" using assms(3) by (auto simp: es in_set_enumerate_eq)
  then obtain uid where iu: "e = entry_of (i, uid, e_Score e)" "(uid, e_Score e) \<in> set ?z"
    using nth_mem [OF i(1)] by (cases "zs ! i") (auto simp: entry_of_def zs dest: in_set_takeD)
  have "e_Solved e = int (length (solved_stats stats))"
    using RankScore_ceil [OF assms(5,6), of mode start] assms(4) iu(1) by (auto simp: entry_of_def)
  moreover have "ZSCORE R (zKey cid) (e_UserID e) (server c) = Some (e_Score e)"
    using iu redis_hashes.zrevrange [OF assms(1), of "zKey cid" "server c"] redis_hashes.zrevrange_distinct [OF assms(1)]
    by (metis (no_types, lifting) entry_of_def RankEntry.select_convs(2) map_of_is_SomeI old.prod.case)
  moreover have "sorted_wrt (\<lambda>a b. \<not> f64_lt (e_Score a) (e_Score b)) es"
  proof -
    have "sorted_wrt (\<lambda>a b. \<not> f64_lt (snd a) (snd b)) zs" unfolding zs
      using redis_hashes.zrevrange_sorted [OF assms(1)] by (rule sorted_wrt_take)
    then have "sorted_wrt (\<lambda>a b. \<not> f64_lt a b) (map e_Score es)" unfolding sc(1) by (simp add: sorted_wrt_map)
    then show ?thesis by (simp add: sorted_wrt_map)
  qed
  moreover have "distinct (map e_UserID es)"
    unfolding sc zs using redis_hashes.zrevrange_distinct [OF assms(1)] by (metis distinct_take take_map)
  moreover have "length es \<le> 500" using len by (simp add: es)
  moreover have "map e_Rank es = map (\<lambda>i. int i + 1) [0..<length es]"
    by (rule nth_equalityI) (simp_all add: es entry_of_def nth_enumerate_eq split: prod.split)
  ultimately show ?thesis by blast
qed

definition one_solved :: "(string \<times> UserProblemStat) list" where
  "one_solved = [(''p'', sample_stat 21)]"

theorem Top_spec_witness:
  "\<exists>e c'. Top ref_redis ''c'' 100 (empty_board\<lparr>server := (server empty_board)
      \<lparr>ref_zset := (\<lambda>k. if k = zKey ''c'' then [(''u'', RankScore ModeSpeed one_solved 1)] else [])\<rparr>\<rparr>) = (Inr [e], c') \<and>
     e_UserID e = ''u'' \<and> e_Solved e = 1"
proof -
  let ?c = "empty_board\<lparr>server := (server empty_board)
      \<lparr>ref_zset := (\<lambda>k. if k = zKey ''c'' then [(''u'', RankScore ModeSpeed one_solved 1)] else [])\<rparr>\<rparr>"
  let ?e = "entry_of (0, ''u'', RankScore ModeSpeed one_solved 1)"
  have "ZREVRANGE ref_redis (zKey ''c'') (server ?c) = [(''u'', RankScore ModeSpeed one_solved 1)]"
    by (simp add: ref_redis_def)
  then obtain c' where t: "Top ref_redis ''c'' 100 ?c = (Inr [?e], c')"
    by (simp add: Top_def Let_def call_def repeat_rpure rpure_def entry_of_def empty_board_def)
  have s: "length one_solved \<le> 9007199" "solved_stats one_solved \<noteq> []" "length (solved_stats one_solved) = 1"
    by (simp_all add: one_solved_def solved_stats_def sample_stat_def)
  have "e_Solved ?e = 1"
    using Top_spec [OF ref_hashes.redis_hashes_axioms t, of ?e ModeSpeed one_solved 1] s by (simp add: entry_of_def)
  then show ?thesis using t by (auto simp: entry_of_def)
qed

end
