(* ===== verification/RateLimit.thy ===== *)
theory RateLimit
  imports Redis GoTime
begin

section \<open>Rate limiting and the in-flight lock (\<^verbatim>\<open>internal/adapters/redisq/ratelimit.go\<close>)\<close>

text \<open>
  The token bucket script in Lua's binary64 arithmetic, on a hash with the fields
  \<^verbatim>\<open>tokens\<close> and \<^verbatim>\<open>ts\<close>, and the Go functions around it. The server's time in milliseconds,
  \<^verbatim>\<open>time.Now().UnixMilli()\<close>, is an argument. The lemmas show that the fill of a bucket is
  always between zero and its capacity and that spending a token is exact, so that the number
  of requests let through at one instant is the whole part of the fill.
\<close>

definition lua_max :: "f64 \<Rightarrow> f64 \<Rightarrow> f64" where
  "lua_max a b = (if f64_lt a b then b else a)"

definition lua_min :: "f64 \<Rightarrow> f64 \<Rightarrow> f64" where
  "lua_min a b = (if f64_lt b a then b else a)"

definition hash_number :: "'s redis \<Rightarrow> string \<Rightarrow> string \<Rightarrow> 's \<Rightarrow> f64 option" where
  "hash_number R k f s = Option.bind (HGET R k f s) (tonumber R)"

text \<open>The fill before the request is served: a new bucket is full, an old one is refilled.\<close>

definition refilled :: "f64 \<Rightarrow> f64 \<Rightarrow> f64 \<Rightarrow> f64 \<Rightarrow> f64 \<Rightarrow> f64" where
  "refilled rate burst now tokens ts =
     lua_min burst (f64_add tokens (f64_mul (f64_div (lua_max (Fin 0) (f64_sub now ts)) (Fin 1000)) rate))"

definition tokenBucket :: "'s redis \<Rightarrow> string \<Rightarrow> f64 \<Rightarrow> f64 \<Rightarrow> f64 \<Rightarrow> f64 \<Rightarrow> 's \<Rightarrow> (redis_error, bool \<times> int) result \<times> 's" where
  "tokenBucket R k rate burst now cost s =
     (case (case hash_number R k ''tokens'' s of
              None \<Rightarrow> Some (burst, now)
            | Some tokens \<Rightarrow> map_option (Pair tokens) (hash_number R k ''ts'' s)) of
        None \<Rightarrow> (Inl ScriptError, s)
      | Some (tokens, ts) \<Rightarrow>
          let tokens = refilled rate burst now tokens ts;
              allowed = f64_le cost tokens;
              retry = (if allowed then 0
                       else f64_to_i64 (f64_ceil (f64_mul (f64_div (f64_sub cost tokens) rate) (Fin 1000))));
              tokens = (if allowed then f64_sub tokens cost else tokens);
              s1 = HSET R k ''ts'' (number_arg R now) (HSET R k ''tokens'' (number_arg R tokens) s);
              ttl = f64_to_i64 (f64_add (f64_ceil (f64_mul (f64_div burst rate) (Fin 1000))) (Fin 60000))
          in (Inr (allowed, retry), EXPIRE R k ttl s1))"

definition Allow :: "'s redis \<Rightarrow> string \<Rightarrow> int \<Rightarrow> int \<Rightarrow> int \<Rightarrow> 's rdb \<Rightarrow> (bool \<times> duration) \<times> 's rdb" where
  "Allow R key ratePerMin burst now c =
     (if ratePerMin \<le> 0 then ((True, 0), c)
      else let burst = (if burst \<le> 0 then 1 else burst)
           in case call (tokenBucket R (''arena:rl:'' @ key) (f64_div (f64_of_int ratePerMin) (Fin 60))
                  (f64_of_int burst) (f64_of_int now) (Fin 1)) c of
                (Inl _, c') \<Rightarrow> ((True, 0), c')
              | (Inr (allowed, retryMs), c') \<Rightarrow> ((allowed, i64 (retryMs * 1000000)), c'))"

definition AcquireInFlight :: "'s redis \<Rightarrow> string \<Rightarrow> duration \<Rightarrow> ('s, bool) rcall" where
  "AcquireInFlight R userID ttl =
     call (\<lambda>s. case SETNX R (''arena:inflight:'' @ userID) ''1'' ttl s of (b, s') \<Rightarrow> (Inr b, s'))"

definition ReleaseInFlight :: "'s redis \<Rightarrow> string \<Rightarrow> ('s, unit) rcall" where
  "ReleaseInFlight R userID = call (rupdate (DEL R (''arena:inflight:'' @ userID)))"

text \<open>\<open>m\<close> requests in a row at one instant: which of them are let through.\<close>

fun allow_many :: "'s redis \<Rightarrow> string \<Rightarrow> int \<Rightarrow> int \<Rightarrow> int \<Rightarrow> nat \<Rightarrow> 's rdb \<Rightarrow> bool list \<times> 's rdb" where
  "allow_many R key ratePerMin burst now 0 c = ([], c)"
| "allow_many R key ratePerMin burst now (Suc m) c =
     (case Allow R key ratePerMin burst now c of
        ((b, _), c1) \<Rightarrow> (case allow_many R key ratePerMin burst now m c1 of (bs, c2) \<Rightarrow> (b # bs, c2)))"

subsection \<open>The fill of a bucket\<close>

text \<open>\<open>fill\<close> is the number of tokens a request at time \<open>now\<close> finds.\<close>

definition fill :: "'s redis \<Rightarrow> string \<Rightarrow> f64 \<Rightarrow> f64 \<Rightarrow> f64 \<Rightarrow> 's \<Rightarrow> f64 option" where
  "fill R k rate burst now s =
     (case hash_number R k ''tokens'' s of
        None \<Rightarrow> Some (refilled rate burst now burst now)
      | Some tokens \<Rightarrow> map_option (refilled rate burst now tokens) (hash_number R k ''ts'' s))"

lemma representable_pred:
  assumes "representable q" and "1 \<le> q" and "q < 2 ^ 53"
  shows "representable (q - 1)"
proof -
  obtain n k where nk: "\<bar>n\<bar> < 2 ^ 53" "- 1074 \<le> k" "q = of_int n * 2 powi k"
    using assms(1) by (auto simp: representable_def)
  have pos: "(0 :: rat) < 2 powi k" by simp
  show ?thesis
  proof (cases "k \<le> 0")
    case True
    define u where "u = (2 :: int) ^ nat (- k)"
    have "1 / (2 :: rat) powi k = of_int u" using powi2_neg_int [OF True, of 1] by (simp add: u_def)
    then have u: "of_int u * (2 :: rat) powi k = 1" using pos by (simp add: field_simps)
    have eq: "q - 1 = of_int (n - u) * 2 powi k" using u by (simp add: nk(3) left_diff_distrib)
    then have "(0 :: rat) \<le> of_int (n - u) * 2 powi k" using assms(2) by linarith
    then have "(0 :: rat) \<le> of_int (n - u)" using pos by (simp only: zero_le_mult_iff) auto
    then have "0 \<le> n - u" by (simp only: of_int_0_le_iff)
    moreover have "0 < u" by (simp add: u_def)
    ultimately have "\<bar>n - u\<bar> < 2 ^ 53" using nk(1) by linarith
    then show ?thesis using nk(2) by (rule representableI [OF eq])
  next
    case False
    then have "(2 :: rat) powi k = of_int (2 ^ nat k)" by (intro of_int_powi2) simp
    then have q: "q = of_int (n * 2 ^ nat k)" using nk(3) by simp
    then have "(of_int (n * 2 ^ nat k) :: rat) < of_int (2 ^ 53)" "of_int 1 \<le> (of_int (n * 2 ^ nat k) :: rat)"
      using assms(2,3) by simp_all
    then have "n * 2 ^ nat k < 2 ^ 53" "1 \<le> n * 2 ^ nat k" by (simp_all only: of_int_less_iff of_int_le_iff)
    then have "representable (of_int (n * 2 ^ nat k - 1))" by (intro representable_int) linarith
    then show ?thesis by (simp add: q)
  qed
qed

lemma round_representable: "representable q \<Longrightarrow> round_rat q = q"
  by (auto simp: representable_def round_rat_exact)

lemma f64_round_representable: "representable q \<Longrightarrow> \<bar>q\<bar> < 2 ^ 53 \<Longrightarrow> f64_round q = Fin q"
  by (simp add: f64_round_Fin round_representable)

definition nonneg :: "f64 \<Rightarrow> bool" where
  "nonneg x \<longleftrightarrow> x = PInf \<or> (\<exists>q. x = Fin q \<and> 0 \<le> q \<and> representable q)"

lemma nonneg_PInf [simp]: "nonneg PInf"
  by (simp add: nonneg_def)

lemma representable_0 [simp]: "representable 0"
  using representable_int [of 0] by simp

lemma nonneg_round: "0 \<le> x \<Longrightarrow> nonneg (f64_round x)"
proof -
  assume "0 \<le> x"
  then have "0 \<le> round_rat x" using round_rat_ge [of 0 x] by simp
  then show ?thesis using representable_round [of x] by (auto simp: nonneg_def f64_round_def Let_def)
qed

lemma nonneg_add: "nonneg x \<Longrightarrow> nonneg y \<Longrightarrow> nonneg (f64_add x y)"
  by (auto simp: nonneg_def [of x] nonneg_def [of y] intro!: nonneg_round)

lemma nonneg_mul: "nonneg x \<Longrightarrow> 0 < r \<Longrightarrow> nonneg (f64_mul x (Fin r))"
  by (auto simp: nonneg_def [of x] f64_inf_def intro!: nonneg_round)

lemma nonneg_div: "nonneg x \<Longrightarrow> 0 < r \<Longrightarrow> nonneg (f64_div x (Fin r))"
  by (auto simp: nonneg_def [of x] f64_inf_def intro!: nonneg_round)

lemma nonneg_max_round: "nonneg (lua_max (Fin 0) (f64_round x))"
proof (cases "f64_lt (Fin 0) (f64_round x)")
  case True
  then show ?thesis using representable_round [of x]
    by (auto simp: lua_max_def nonneg_def f64_round_def Let_def split: if_splits)
qed (simp add: lua_max_def nonneg_def)

lemma refilled_range:
  assumes "0 < r" and "1 \<le> b" and "b < 2 ^ 53" and "0 \<le> q" and "representable q"
  shows "\<exists>q'. refilled (Fin r) (Fin (of_int b)) (Fin t) (Fin q) (Fin u) = Fin q' \<and> 0 \<le> q' \<and> q' \<le> of_int b \<and> representable q'"
proof -
  have "nonneg (f64_add (Fin q) (f64_mul (f64_div (lua_max (Fin 0) (f64_sub (Fin t) (Fin u))) (Fin 1000)) (Fin r)))"
    using assms(1,4,5) nonneg_max_round [of "t - u"]
    by (intro nonneg_add nonneg_mul nonneg_div) (auto simp: nonneg_def [of "Fin q"] f64_sub_def)
  moreover have "representable (of_int b)" using assms(2,3) by (intro representable_int) simp
  ultimately show ?thesis using assms(2) unfolding refilled_def nonneg_def
    by (auto simp: lua_min_def not_less)
qed

lemma refilled_now:
  assumes "0 \<le> q" and "q \<le> of_int b" and "b < 2 ^ 53" and "representable q"
  shows "refilled (Fin r) (Fin (of_int b)) (Fin t) (Fin q) (Fin t) = Fin q"
proof -
  have "(of_int b :: rat) < of_int (2 ^ 53)" using assms(3) by (simp only: of_int_less_iff)
  then have "f64_round q = Fin q" using assms by (intro f64_round_representable) auto
  moreover have "f64_round 0 = Fin 0" by (simp add: f64_round_representable)
  ultimately show ?thesis using assms(2) by (auto simp: refilled_def f64_sub_def lua_max_def lua_min_def)
qed

context redis_hashes
begin

text \<open>What a bucket's hash may hold: nothing, or a fill in range and the time of the last request.\<close>

definition bucket_ok :: "string \<Rightarrow> int \<Rightarrow> 's \<Rightarrow> bool" where
  "bucket_ok k b s \<longleftrightarrow> hash_number R k ''tokens'' s = None \<or>
     (\<exists>q t. hash_number R k ''tokens'' s = Some (Fin q) \<and> 0 \<le> q \<and> q \<le> of_int b \<and> representable q \<and>
            hash_number R k ''ts'' s = Some (Fin t))"

lemma fill_range:
  assumes "bucket_ok k b s" and "0 < r" and "1 \<le> b" and "b < 2 ^ 53"
  shows "\<exists>q. fill R k (Fin r) (Fin (of_int b)) (Fin t) s = Some (Fin q) \<and> 0 \<le> q \<and> q \<le> of_int b \<and> representable q"
proof -
  have "representable (of_int b)" using assms(3,4) by (intro representable_int) simp
  then show ?thesis using assms(1) refilled_range [OF assms(2-4)] refilled_range [OF assms(2-4), of "of_int b" t t] assms(3)
    by (force simp: bucket_ok_def fill_def)
qed

lemma bucket_step:
  assumes "fill R k (Fin r) (Fin (of_int b)) (Fin (of_int now)) s = Some (Fin q)" and "0 \<le> q" and "q \<le> of_int b" and "representable q"
    and "b < 2 ^ 53" and "\<bar>now\<bar> < 2 ^ 53"
    and "tokenBucket R k (Fin r) (Fin (of_int b)) (Fin (of_int now)) (Fin 1) s = (x, s')"
  defines "q' \<equiv> if 1 \<le> q then q - 1 else q"
  shows "(\<exists>retry. x = Inr (1 \<le> q, retry)) \<and> bucket_ok k b s' \<and> 0 \<le> q' \<and> q' \<le> of_int b \<and> representable q' \<and>
    fill R k (Fin r) (Fin (of_int b)) (Fin (of_int now)) s' = Some (Fin q')"
proof -
  have "(of_int b :: rat) < of_int (2 ^ 53)" using assms(5) by (simp only: of_int_less_iff)
  then have q53: "q < 2 ^ 53" using assms(3) by simp
  have rep: "representable q'" using assms(4) representable_pred [OF assms(4) _ q53] by (simp add: q'_def)
  have range: "0 \<le> q'" "q' \<le> of_int b" using assms(2,3) by (simp_all add: q'_def)
  have le: "f64_le (Fin 1) (Fin q) \<longleftrightarrow> 1 \<le> q" by (auto simp: f64_le_def f64_eq_def)
  have sub: "f64_sub (Fin q) (Fin 1) = Fin (q - 1)" if "1 \<le> q"
    using that representable_pred [OF assms(4) that q53] q53 by (simp add: f64_sub_def f64_round_representable)
  have now: "tonumber R (number_arg R (Fin (of_int now))) = Some (Fin (of_int now))"
    using assms(6) by (intro tonumber_number_arg representable_int)
  have ex: "\<exists>tokens ts. (case hash_number R k ''tokens'' s of None \<Rightarrow> Some (Fin (of_int b), Fin (of_int now))
        | Some tokens \<Rightarrow> map_option (Pair tokens) (hash_number R k ''ts'' s)) = Some (tokens, ts) \<and>
      refilled (Fin r) (Fin (of_int b)) (Fin (of_int now)) tokens ts = Fin q"
    using assms(1) by (auto simp: fill_def split: option.splits)
  then obtain ttl retry where st: "x = Inr (1 \<le> q, retry)"
     "s' = EXPIRE R k ttl (HSET R k ''ts'' (number_arg R (Fin (of_int now))) (HSET R k ''tokens'' (number_arg R (Fin q')) s))"
    using assms(7) sub by (auto simp: tokenBucket_def Let_def le q'_def split: if_splits)
  have h: "hash_number R k ''tokens'' s' = Some (Fin q')" "hash_number R k ''ts'' s' = Some (Fin (of_int now))"
    using now tonumber_number_arg [OF rep] by (simp_all add: st(2) hash_number_def hget_expire hget_hset)
  have "fill R k (Fin r) (Fin (of_int b)) (Fin (of_int now)) s' = Some (Fin q')"
    using h refilled_now [OF range assms(5) rep] by (simp add: fill_def)
  then show ?thesis using st(1) h range rep by (auto simp: bucket_ok_def)
qed

lemma allow_count:
  assumes "online c" and "0 < rpm" and "1 \<le> b" and "f64_div (f64_of_int rpm) (Fin 60) = Fin r"
    and "f64_of_int b = Fin (of_int b)" and "f64_of_int now = Fin (of_int now)" and "b < 2 ^ 53" and "\<bar>now\<bar> < 2 ^ 53"
    and "k = ''arena:rl:'' @ key"
    and "fill R k (Fin r) (Fin (of_int b)) (Fin (of_int now)) (server c) = Some (Fin q)" and "0 \<le> q" and "q \<le> of_int b" and "representable q"
    and "bucket_ok k b (server c)"
  shows "length (filter (\<lambda>b. b) (fst (allow_many R key rpm b now m c))) = min m (nat \<lfloor>q\<rfloor>) \<and>
    bucket_ok k b (server (snd (allow_many R key rpm b now m c)))"
  using assms(1,10-14)
proof (induction m arbitrary: c q)
  case (Suc m)
  obtain x s' where x: "tokenBucket R k (Fin r) (Fin (of_int b)) (Fin (of_int now)) (Fin 1) (server c) = (x, s')" by fastforce
  let ?q = "if 1 \<le> q then q - 1 else q"
  note st = bucket_step [OF Suc.prems(2-5) assms(7,8) x]
  obtain retry where retry: "x = Inr (1 \<le> q, retry)" using st by blast
  let ?c = "c\<lparr>calls := Suc (calls c), server := s'\<rparr>"
  have "Allow R key rpm b now c = ((1 \<le> q, i64 (retry * 1000000)), ?c)"
    using assms(2,3,4,5,6,9) x retry Suc.prems(1) by (simp add: Allow_def Let_def call_online)
  moreover have "length (filter (\<lambda>b. b) (fst (allow_many R key rpm b now m ?c))) = min m (nat \<lfloor>?q\<rfloor>) \<and>
      bucket_ok k b (server (snd (allow_many R key rpm b now m ?c)))"
    using st Suc.prems(1) by (intro Suc.IH) auto
  moreover have "min (Suc m) (nat \<lfloor>q\<rfloor>) = (if 1 \<le> q then Suc (min m (nat \<lfloor>q - 1\<rfloor>)) else 0)"
  proof (cases "1 \<le> q")
    case True
    then have "nat \<lfloor>q\<rfloor> = Suc (nat \<lfloor>q - 1\<rfloor>)" by (simp add: Suc_nat_eq_nat_zadd1 le_floor_iff)
    then show ?thesis using True by simp
  next
    case False
    then have "\<lfloor>q\<rfloor> = 0" using Suc.prems(3) by (simp add: floor_eq_iff)
    then show ?thesis using False by simp
  qed
  moreover have "nat \<lfloor>q\<rfloor> = 0" if "\<not> 1 \<le> q" using that Suc.prems(3) by (simp add: floor_le_iff)
  ultimately show ?case by (auto simp: split_beta id_def)
qed simp

end

subsection \<open>Properties\<close>

text \<open>
  C33: the bucket bounds a burst: of any number of requests at one instant at most \<^verbatim>\<open>burst\<close> are
  let through, whatever the history of the bucket, and exactly the first \<^verbatim>\<open>burst\<close> of a new
  bucket, for every rate and in spite of rounding; and the fill stays between zero and
  \<^verbatim>\<open>burst\<close>.
\<close>

theorem Allow_burst:
  assumes "redis_hashes R" and "online c" and "0 < rpm" and "rpm < 2 ^ 53" and "1 \<le> b" and "b < 2 ^ 53" and "\<bar>now\<bar> < 2 ^ 53"
    and "redis_hashes.bucket_ok R (''arena:rl:'' @ key) b (server c)"
  shows "length (filter (\<lambda>b. b) (fst (allow_many R key rpm b now m c))) \<le> nat b \<and>
    (HGET R (''arena:rl:'' @ key) ''tokens'' (server c) = None \<longrightarrow>
       length (filter (\<lambda>b. b) (fst (allow_many R key rpm b now m c))) = min m (nat b)) \<and>
    redis_hashes.bucket_ok R (''arena:rl:'' @ key) b (server (snd (allow_many R key rpm b now m c)))"
proof -
  let ?k = "''arena:rl:'' @ key" and ?x = "of_int rpm / 60 :: rat"
  have "(of_int rpm :: rat) < of_int (2 ^ 53)" "of_int 1 \<le> (of_int rpm :: rat)"
    using assms(3,4) by (simp_all only: of_int_less_iff of_int_le_iff)
  then have x: "0 < ?x" "?x < 2 ^ 53" "2 powi (- 6) \<le> ?x" by (simp_all add: power_int_minus)
  have e: "f64_of_int rpm = Fin (of_int rpm)" "f64_of_int b = Fin (of_int b)" "f64_of_int now = Fin (of_int now)"
    using assms by (simp_all add: f64_of_int_exact)
  have "2 powi (- 6) \<le> round_rat ?x" using x(3) by (intro round_rat_ge representable_powi2) auto
  then have rate: "f64_div (f64_of_int rpm) (Fin 60) = Fin (round_rat ?x)" "0 < round_rat ?x"
    using x powi2_pos [of "- 6"] by (auto simp: e f64_round_Fin simp del: powi2_pos)
  obtain q where q: "fill R ?k (Fin (round_rat ?x)) (Fin (of_int b)) (Fin (of_int now)) (server c) = Some (Fin q)"
      "0 \<le> q" "q \<le> of_int b" "representable q"
    using redis_hashes.fill_range [OF assms(1,8) rate(2) assms(5,6)] by blast
  note cnt = redis_hashes.allow_count [OF assms(1,2,3,5) rate(1) e(2,3) assms(6,7) refl q assms(8), of m]
  have "\<lfloor>q\<rfloor> \<le> b" using q(3) by (simp add: floor_le_iff)
  moreover have "q = of_int b" if "HGET R ?k ''tokens'' (server c) = None"
  proof -
    have "fill R ?k (Fin (round_rat ?x)) (Fin (of_int b)) (Fin (of_int now)) (server c) = Some (Fin (of_int b))"
      using that assms(5,6) refilled_now [of "of_int b" b "round_rat ?x"] representable_int [of b]
      by (simp add: fill_def hash_number_def)
    then show ?thesis using q(1) by simp
  qed
  ultimately show ?thesis using cnt by auto
qed

theorem Allow_burst_witness:
  "length (filter (\<lambda>b. b) (fst (allow_many ref_redis ''submit:u'' 10 3 1700000000000 5
     \<lparr>server = \<lparr>ref_hash = (\<lambda>_. []), ref_zset = (\<lambda>_. []), ref_held = [], ref_groups = [], ref_published = [], ref_time = 0\<rparr>,
      calls = 0, fates = (\<lambda>_. Replied 0)\<rparr>))) = 3"
proof -
  let ?c = "\<lparr>server = \<lparr>ref_hash = (\<lambda>_. []), ref_zset = (\<lambda>_. []), ref_held = [], ref_groups = [], ref_published = [], ref_time = 0\<rparr>,
      calls = 0, fates = (\<lambda>_. Replied 0)\<rparr>"
  have "online ?c" by (simp add: online_def)
  moreover have n: "HGET ref_redis (''arena:rl:'' @ ''submit:u'') ''tokens'' (server ?c) = None" by (simp add: ref_redis_def)
  moreover have "ref_hashes.bucket_ok (''arena:rl:'' @ ''submit:u'') 3 (server ?c)"
    using n by (simp add: ref_hashes.bucket_ok_def hash_number_def)
  ultimately show ?thesis
    using Allow_burst [OF ref_hashes.redis_hashes_axioms, of ?c 10 3 1700000000000 "''submit:u''" 5] by simp
qed

end
