(* ===== verification/Api.thy ===== *)
theory Api
  imports Store Queue Board RateLimit Blob Langs Config
begin

section \<open>The API server: state, responses and side effects (\<^verbatim>\<open>internal/api\<close>)\<close>

text \<open>
  A handler is a function from the state of the world (database, Redis client, blob files,
  clock) to a response and the new state; it calls the operations of the other theories.
  What the sources only call is a field of the record \<open>ext\<close>: Redis, the JSON codecs, SHA-256,
  bcrypt and the JWT library. A server is configured by the record \<open>Server\<close>.

  Log lines and metrics have no effect on the state. A request's deadline shows as database
  statements and Redis calls that fail. The clock is read once per request.
\<close>

subsection \<open>Parameters and state\<close>

record Claims =
  cl_UserID :: string
  cl_Handle :: string
  cl_Role :: string
  cl_Subject :: string
  cl_IssuedAt :: gotime
  cl_ExpiresAt :: gotime
  cl_Issuer :: string

record submitReq =
  in_Language :: string
  in_Source :: string

record credReq =
  in_Handle :: string
  in_Email :: string
  in_Password :: string

record markJudgingReq =
  in_RunnerID :: string
  in_Attempt :: int

text \<open>The payloads of the event bus.\<close>

datatype event =
    JudgingEvent string
  | VerdictEvent string Status Verdict int int int string
  | FailedEvent string Status Verdict
  | BoardEvent string

text \<open>
  A request body is the bytes that arrive and whether an error follows them; a decoder
  returns \<open>None\<close> for an error. \<open>parse_jwt\<close> is \<^verbatim>\<open>jwt.ParseWithClaims\<close> with its key function,
  the accepted algorithms, the required issuer and the time.
\<close>

type_synonym reader = "string \<times> bool"

record 's ext =
  x_redis :: "'s redis"
  x_codec :: codec
  x_sha256 :: "string \<Rightarrow> string"
  x_limits_json :: "LimitSet \<Rightarrow> string"
  x_event_json :: "event \<Rightarrow> string option"
  x_submission_json :: "Submission \<Rightarrow> string"
  x_status_of_json :: "string \<Rightarrow> Status option"
  x_submit_body :: "reader \<Rightarrow> submitReq option"
  x_cred_body :: "reader \<Rightarrow> credReq option"
  x_mark_body :: "reader \<Rightarrow> markJudgingReq"
  x_result_body :: "reader \<Rightarrow> SubmissionResult option"
  x_metrics :: string
  x_tmp_name :: "fs \<Rightarrow> string"
  x_bcrypt :: "nat \<Rightarrow> string \<Rightarrow> string option"
  x_compare :: "string \<Rightarrow> string \<Rightarrow> bool"
  x_numeric_date :: "gotime \<Rightarrow> gotime"
  sign_jwt :: "string \<Rightarrow> string \<Rightarrow> Claims \<Rightarrow> string option"
  parse_jwt :: "string \<Rightarrow> (string \<Rightarrow> string option) \<Rightarrow> string list \<Rightarrow> string \<Rightarrow> gotime \<Rightarrow> Claims option"

record 's world =
  w_db :: db
  w_redis :: "'s rdb"
  w_fs :: fs
  w_now :: gotime
  w_salt :: nat

record Server =
  s_cfg :: Config
  s_queue :: Queue
  s_blobs :: path
  s_langs :: Registry

definition on_db :: "'a store \<Rightarrow> 's world \<Rightarrow> (store_error, 'a) result \<times> 's world" where
  "on_db f w = (case f (w_db w) of (r, d) \<Rightarrow> (r, w\<lparr>w_db := d\<rparr>))"

definition on_redis :: "('s rdb \<Rightarrow> 'a \<times> 's rdb) \<Rightarrow> 's world \<Rightarrow> 'a \<times> 's world" where
  "on_redis f w = (case f (w_redis w) of (r, c) \<Rightarrow> (r, w\<lparr>w_redis := c\<rparr>))"

definition on_fs :: "('e, 'a) io \<Rightarrow> 's world \<Rightarrow> ('e, 'a) result \<times> 's world" where
  "on_fs f w = (case f (w_fs w) of (r, s) \<Rightarrow> (r, w\<lparr>w_fs := s\<rparr>))"

subsection \<open>Responses\<close>

datatype message = Text string | OfStore store_error | OfRedis redis_error

datatype body =
    NoBody
  | ErrBody message
  | SubmissionBody Submission
  | SubmissionsBody "Submission list"
  | ContestBody Contest
  | ProblemBody Problem
  | ProblemsBody "Problem list"
  | LanguagesBody "Manifest list"
  | AuthBody string User
  | BoardBody string ScoreMode "RankEntry list"
  | RebuiltBody nat
  | QueueBody int int
  | ReadyBody
  | IndexBody
  | TextBody string
  | StreamBody "string list"

record response =
  status_code :: int
  retry_after :: "int option"
  resp_body :: body

definition writeJSON :: "int \<Rightarrow> body \<Rightarrow> response" where
  "writeJSON code v = \<lparr>status_code = code, retry_after = None, resp_body = v\<rparr>"

definition writeErr :: "int \<Rightarrow> string \<Rightarrow> response" where
  "writeErr code msg = writeJSON code (ErrBody (Text msg))"

definition no_content :: response where
  "no_content = writeJSON 204 NoBody"

type_synonym 's handler = "'s world \<Rightarrow> response \<times> 's world"

subsection \<open>The event bus (\<^verbatim>\<open>internal/adapters/redisq/bus.go\<close>)\<close>

definition Bus_Publish :: "'s redis \<Rightarrow> string \<Rightarrow> string \<Rightarrow> ('s, unit) rcall" where
  "Bus_Publish R topic payload = call (rupdate (PUBLISH R topic payload))"

definition TopicSubmission :: "string \<Rightarrow> string" where
  "TopicSubmission i = ''arena:sub:'' @ i"

definition TopicLeaderboard :: "string \<Rightarrow> string" where
  "TopicLeaderboard i = ''arena:lb:'' @ i"

definition publishEvent :: "'s ext \<Rightarrow> string \<Rightarrow> event \<Rightarrow> 's world \<Rightarrow> 's world" where
  "publishEvent X idOrTopic payload w =
     (let topic = (if length idOrTopic = 36 then TopicSubmission idOrTopic else idOrTopic)
      in case x_event_json X payload of
           None \<Rightarrow> w
         | Some b \<Rightarrow> snd (on_redis (Bus_Publish (x_redis X) topic b) w))"

subsection \<open>The verdict cache key\<close>

definition hex_digit :: "nat \<Rightarrow> char" where
  "hex_digit n = (if n < 10 then char_of (48 + n) else char_of (87 + n))"

definition EncodeToString :: "string \<Rightarrow> string" where
  "EncodeToString bs = concat (map (\<lambda>c. [hex_digit (of_char c div 16), hex_digit (of_char c mod 16)]) bs)"

definition VerdictCacheKey :: "'s ext \<Rightarrow> string \<Rightarrow> string \<Rightarrow> string \<Rightarrow> string \<Rightarrow> LimitSet \<Rightarrow> string" where
  "VerdictCacheKey X sourceHash lang img testdataVersion lims =
     EncodeToString (x_sha256 X (sourceHash @ ''|'' @ lang @ ''|'' @ img @ ''|'' @ testdataVersion @ ''|'' @ x_limits_json X lims))"

definition limits_for :: "Manifest \<Rightarrow> Problem \<Rightarrow> LimitSet" where
  "limits_for m p = \<lparr>Compile = EffectiveCompileLimits m, Run = ScaleRunLimits m (p_Limits p)\<rparr>"

subsection \<open>What follows a verdict\<close>

definition cache_verdict :: "'s ext \<Rightarrow> Server \<Rightarrow> Submission \<Rightarrow> SubmissionResult \<Rightarrow> Problem \<Rightarrow> 's world \<Rightarrow> 's world" where
  "cache_verdict X S sub res problem w =
     (if r_Verdict res = VerdictIE then w
      else case Langs.Get (s_langs S) (s_Language sub) of
          None \<Rightarrow> w
        | Some m \<Rightarrow>
            let img = (if r_ImageDigest res = [] then m_Image m else r_ImageDigest res);
                key = VerdictCacheKey X (s_SourceHash sub) (s_Language sub) img (p_TestdataVersion problem) (limits_for m problem)
            in snd (on_db (PutCachedVerdict key res) w))"

definition stat_of_result :: "SubmissionResult \<Rightarrow> UserProblemStat" where
  "stat_of_result res = zero_UserProblemStat\<lparr>Solved := True, BestCPUms := r_CPUms res, BestMemKB := r_MemKB res,
     st_Instructions := r_Instructions res, SolvedAt := r_JudgedAt res\<rparr>"

definition update_board :: "'s ext \<Rightarrow> Submission \<Rightarrow> SubmissionResult \<Rightarrow> Problem \<Rightarrow> 's world \<Rightarrow> 's world" where
  "update_board X sub res problem w =
     (if r_Verdict res \<noteq> VerdictAC then w
      else case on_db (GetContest (p_ContestID problem)) w of
          (Inl _, w1) \<Rightarrow> w1
        | (Inr c, w1) \<Rightarrow>
            let w2 = snd (on_redis (Board.Apply (x_redis X) (p_ContestID problem) (s_UserID sub) (p_ID problem)
                   (stat_of_result res) (c_ScoringMode c) (c_StartsAt c)) w1)
            in publishEvent X (TopicLeaderboard (p_ContestID problem)) (BoardEvent (p_ContestID problem)) w2)"

definition afterVerdict :: "'s ext \<Rightarrow> Server \<Rightarrow> Submission \<Rightarrow> SubmissionResult \<Rightarrow> Problem \<Rightarrow> 's world \<Rightarrow> 's world" where
  "afterVerdict X S sub res problem w =
     publishEvent X (s_ID sub)
       (VerdictEvent (s_ID sub) StatusDone (r_Verdict res) (r_CPUms res) (r_MemKB res) (r_FailedTest res) (r_CompileLog res))
       (update_board X sub res problem (cache_verdict X S sub res problem w))"

subsection \<open>Which part of the state an effect touches\<close>

lemma on_db_frame [simp]:
  "w_redis (snd (on_db f w)) = w_redis w" "w_fs (snd (on_db f w)) = w_fs w" "w_now (snd (on_db f w)) = w_now w"
  "w_db (snd (on_db f w)) = snd (f (w_db w))" "fst (on_db f w) = fst (f (w_db w))"
  by (simp_all add: on_db_def split: prod.split)

lemma on_redis_frame [simp]:
  "w_db (snd (on_redis g w)) = w_db w" "w_fs (snd (on_redis g w)) = w_fs w" "w_now (snd (on_redis g w)) = w_now w"
  "w_redis (snd (on_redis g w)) = snd (g (w_redis w))" "fst (on_redis g w) = fst (g (w_redis w))"
  by (simp_all add: on_redis_def split: prod.split)

lemma on_fs_frame [simp]:
  "w_db (snd (on_fs h w)) = w_db w" "w_redis (snd (on_fs h w)) = w_redis w" "w_now (snd (on_fs h w)) = w_now w"
  "w_fs (snd (on_fs h w)) = snd (h (w_fs w))" "fst (on_fs h w) = fst (h (w_fs w))"
  by (simp_all add: on_fs_def split: prod.split)

lemma publishEvent_frame [simp]:
  "w_db (publishEvent X t e w) = w_db w" "w_now (publishEvent X t e w) = w_now w" "w_fs (publishEvent X t e w) = w_fs w"
  by (simp_all add: publishEvent_def Let_def split: option.split)

text \<open>A statement that reads, or writes only other tables, keeps the submissions and their tests.\<close>

definition reads :: "'a store \<Rightarrow> bool" where
  "reads f \<longleftrightarrow> (\<forall>d. submissions (snd (f d)) = submissions d \<and> submission_tests (snd (f d)) = submission_tests d)"

named_theorems reads_intros \<open>statements that keep the submissions\<close>

lemma reads_query: "(\<And>d. submissions (snd (f d)) = submissions d \<and> submission_tests (snd (f d)) = submission_tests d) \<Longrightarrow> reads (query f)"
  by (simp add: reads_def query_def Let_def)

lemma reads_statements [reads_intros]:
  "reads (GetProblem i)" "reads (GetContest i)" "reads (ListTestCases i)" "reads (PutCachedVerdict key r)"
  "reads (CachedVerdict key)" "reads (GetContestBySlug i)" "reads (ListProblems i)" "reads (GetUserByHandle i)"
  "reads (ListSubmissions flt)" "reads (StuckSubmissions t n)" "reads (CreateUser usr)"
  unfolding GetProblem_def GetContest_def ListTestCases_def PutCachedVerdict_def CachedVerdict_def GetContestBySlug_def
    ListProblems_def GetUserByHandle_def ListSubmissions_def StuckSubmissions_def CreateUser_def
  by (rule reads_query, simp add: Let_def split: option.split)+

lemma reads_FindByIdempotencyKey [reads_intros]: "reads (FindByIdempotencyKey u key)"
  by (cases "key = []") (auto simp: FindByIdempotencyKey_def reads_def query_def Let_def)

lemma reads_GetSubmission [reads_intros]: "reads (GetSubmission i)"
  by (auto simp: reads_def GetSubmission_def query_def Let_def split: option.splits)

lemma reads_ContestStats [reads_intros]: "reads (ContestStats i)"
  by (auto simp: reads_def ContestStats_def query_def Let_def)

lemma reads_on_db: "reads f \<Longrightarrow> submissions (w_db (snd (on_db f w))) = submissions (w_db w)"
  by (simp add: reads_def)

lemma afterVerdict_submissions [simp]:
  "submissions (w_db (afterVerdict X S sub res p w)) = submissions (w_db w)"
  "submission_tests (w_db (afterVerdict X S sub res p w)) = submission_tests (w_db w)"
proof -
  have c: "submissions (w_db (cache_verdict X S sub res p w)) = submissions (w_db w) \<and>
      submission_tests (w_db (cache_verdict X S sub res p w)) = submission_tests (w_db w)" for w :: "'a world"
    using reads_statements(4) by (simp add: cache_verdict_def Let_def reads_def split: option.split)
  have u: "submissions (w_db (update_board X sub res p w)) = submissions (w_db w) \<and>
      submission_tests (w_db (update_board X sub res p w)) = submission_tests (w_db w)" for w :: "'a world"
  proof -
    obtain r w1 where o: "on_db (GetContest (p_ContestID p)) w = (r, w1)" by (cases "on_db (GetContest (p_ContestID p)) w")
    then have "submissions (w_db w1) = submissions (w_db w) \<and> submission_tests (w_db w1) = submission_tests (w_db w)"
      using reads_statements(2) [of "p_ContestID p"] on_db_frame(4) [of "GetContest (p_ContestID p)" w] by (simp add: reads_def)
    then show ?thesis using o by (cases r) (simp_all add: update_board_def Let_def)
  qed
  show "submissions (w_db (afterVerdict X S sub res p w)) = submissions (w_db w)"
    and "submission_tests (w_db (afterVerdict X S sub res p w)) = submission_tests (w_db w)"
    by (simp_all add: afterVerdict_def u c)
qed

end
