(* ===== verification/Effects.thy ===== *)
theory Effects
  imports Api
begin

section \<open>Handlers as sequences of database steps\<close>

text \<open>
  Every statement the API issues is a sequence of steps of the relation \<open>db_step\<close> of theory
  Store, so whatever holds along \<open>db_step\<close> holds across any number of requests: rows are
  never removed and keep their identifier, owner and idempotency key.
\<close>

subsection \<open>Statements\<close>

definition db_effect :: "'a store \<Rightarrow> bool" where
  "db_effect f \<longleftrightarrow> (\<forall>d. db_step\<^sup>*\<^sup>* d (snd (f d)))"

named_theorems effect_intros \<open>statements that are database steps\<close>

lemma clock_step: "db_step\<^sup>*\<^sup>* d (d\<lparr>db_clock := n\<rparr>)"
  by (simp add: db_step.read r_into_rtranclp)

lemma effect_read:
  assumes "\<And>d. snd (f d) = d"
  shows "db_effect (query f)"
  using clock_step assms by (simp add: db_effect_def query_def Let_def)

lemma effect_step: "(\<And>d. db_step d (snd (f d))) \<Longrightarrow> db_effect f"
  by (simp add: db_effect_def r_into_rtranclp)

lemma effect_writes [effect_intros]:
  "db_effect (CreateSubmission x)" "db_effect (MarkJudging i runner n)" "db_effect (SaveResult r)"
  "db_effect (BumpAttempt i)" "db_effect (CachedVerdict key)" "db_effect (PutCachedVerdict key r)" "db_effect (CreateUser usr)"
  by (rule effect_step, rule db_step.intros)+

lemma effect_reads [effect_intros]:
  "db_effect (GetProblem i)" "db_effect (GetContest i)" "db_effect (ListTestCases i)" "db_effect (GetContestBySlug i)"
  "db_effect (ListProblems i)" "db_effect (GetUserByHandle i)" "db_effect (ListSubmissions flt)" "db_effect (StuckSubmissions t n)"
  unfolding GetProblem_def GetContest_def ListTestCases_def GetContestBySlug_def ListProblems_def GetUserByHandle_def
    ListSubmissions_def StuckSubmissions_def
  by (rule effect_read, simp add: Let_def split: option.split)+

lemma effect_FindByIdempotencyKey [effect_intros]: "db_effect (FindByIdempotencyKey u key)"
proof (cases "key = []")
  case True
  then show ?thesis by (simp add: FindByIdempotencyKey_def db_effect_def)
next
  case False
  then show ?thesis unfolding FindByIdempotencyKey_def by (simp add: effect_read)
qed

lemma query_read_clock: "(\<And>d. snd (f d) = d) \<Longrightarrow> snd (query f d) = d\<lparr>db_clock := Suc (db_clock d)\<rparr>"
  by (simp add: query_def Let_def)

lemma effect_two_reads [effect_intros]: "db_effect (GetSubmission i)" "db_effect (ContestStats i)"
proof -
  have "\<exists>n. snd (GetSubmission i d) = d\<lparr>db_clock := n\<rparr>" for d
    by (auto simp: GetSubmission_def query_def Let_def split: option.split intro: exI)
  then show "db_effect (GetSubmission i)" using clock_step by (metis db_effect_def)
  have "\<exists>n. snd (ContestStats i d) = d\<lparr>db_clock := n\<rparr>" for d
    by (auto simp: ContestStats_def query_def Let_def intro: exI)
  then show "db_effect (ContestStats i)" using clock_step by (metis db_effect_def)
qed

subsection \<open>Handlers\<close>

text \<open>A step from one state of the world to another whose database part is a sequence of
  database steps.\<close>

definition evolves :: "'s world \<Rightarrow> 's world \<Rightarrow> bool" where
  "evolves w w' \<longleftrightarrow> db_step\<^sup>*\<^sup>* (w_db w) (w_db w')"

lemma evolves_refl [simp, intro]: "evolves w w"
  by (simp add: evolves_def)

lemma evolves_trans [trans]: "evolves w w' \<Longrightarrow> evolves w' w'' \<Longrightarrow> evolves w w''"
  unfolding evolves_def by (rule rtranclp_trans)

lemma evolves_same_db: "w_db w' = w_db w \<Longrightarrow> evolves w w'"
  by (simp add: evolves_def)

lemma evolves_db: "db_effect f \<Longrightarrow> evolves w (snd (on_db f w))"
  by (simp add: evolves_def db_effect_def)

lemma on_db_evolves: "on_db f w = (r, w') \<Longrightarrow> db_effect f \<Longrightarrow> evolves w w'"
  using evolves_db [of f w] by simp

lemma on_redis_evolves: "on_redis f w = (r, w') \<Longrightarrow> evolves w w'"
  using on_redis_frame(1) [of f w] by (simp add: evolves_def)

lemma publishEvent_evolves: "evolves w (publishEvent X t e w)"
  by (simp add: evolves_def)

lemma cache_verdict_evolves: "evolves w (cache_verdict X S sub res p w)"
  by (simp add: cache_verdict_def Let_def evolves_db effect_writes split: option.split)

lemma update_board_evolves: "evolves w (update_board X sub res p w)"
proof -
  obtain r w1 where 1: "on_db (GetContest (p_ContestID p)) w = (r, w1)" by (cases "on_db (GetContest (p_ContestID p)) w")
  have e: "evolves w w1" by (rule on_db_evolves [OF 1 effect_reads(2)])
  have "evolves w1 (publishEvent X t b (snd (on_redis f w1)))" for t b and f :: "'a rdb \<Rightarrow> (redis_error, unit) result \<times> 'a rdb"
    by (rule evolves_same_db) simp
  then show ?thesis using 1 e by (cases r) (auto simp: update_board_def Let_def intro: evolves_trans)
qed

lemma afterVerdict_evolves: "evolves w (afterVerdict X S sub res p w)"
  unfolding afterVerdict_def
  by (rule evolves_trans [OF evolves_trans [OF cache_verdict_evolves update_board_evolves] publishEvent_evolves])

subsection \<open>Rows are never lost\<close>

text \<open>A row of the user with the key, under the identifier \<open>i\<close>.\<close>

definition has_row :: "string \<Rightarrow> string option \<Rightarrow> string \<Rightarrow> db \<Rightarrow> bool" where
  "has_row uid key i d \<longleftrightarrow> (\<exists>r \<in> set (submissions d). row_id r = i \<and> row_user_id r = uid \<and> row_idempotency_key r = key)"

lemma has_row_cong: "submissions d' = submissions d \<Longrightarrow> has_row uid key i d' = has_row uid key i d"
  by (simp add: has_row_def)

lemma has_row_update:
  assumes "preserves_key f" and "has_row uid key i d"
  shows "has_row uid key i (update_sub k guard f d)"
proof -
  obtain r where r: "r \<in> set (submissions d)" "row_id r = i" "row_user_id r = uid" "row_idempotency_key r = key"
    using assms(2) by (auto simp: has_row_def)
  let ?g = "\<lambda>r. if row_id r = k \<and> guard r then f r else r"
  have "?g r \<in> set (submissions (update_sub k guard f d))" using r(1) by (auto simp: update_sub_def)
  moreover have "row_id (?g r) = i" "row_user_id (?g r) = uid" "row_idempotency_key (?g r) = key"
    using assms(1) r by (simp_all add: preserves_key_def)
  ultimately show ?thesis unfolding has_row_def by blast
qed

lemma has_row_query:
  assumes "has_row uid key i d" and "\<And>d'. has_row uid key i d' \<Longrightarrow> has_row uid key i (snd (f d'))"
  shows "has_row uid key i (snd (query f d))"
  using assms by (auto simp: query_def Let_def has_row_def)

lemma has_row_step: "db_step d d' \<Longrightarrow> has_row uid key i d \<Longrightarrow> has_row uid key i d'"
proof (induction rule: db_step.induct)
  case (create d x)
  then show ?case unfolding CreateSubmission_def by (rule has_row_query) (auto simp: Let_def has_row_def)
next
  case (mark d k runner n)
  then show ?case unfolding MarkJudging_def
    by (rule has_row_query) (auto intro!: has_row_update simp: preserves_key_def)
next
  case (save d res)
  show ?case unfolding SaveResult_def
  proof (rule has_row_query [OF save], goal_cases)
    case (1 d')
    have "has_row uid key i (update_sub (r_SubmissionID res) unfinished (result_row res (db_now d')) d')"
      using 1 by (intro has_row_update) (simp_all add: preserves_key_def result_row_def)
    then show ?case using 1 by (simp add: has_row_def)
  qed
next
  case (bump d k)
  then show ?case unfolding BumpAttempt_def
    by (rule has_row_query) (auto intro!: has_row_update simp: preserves_key_def split: option.split)
next
  case (cached d key')
  then show ?case unfolding CachedVerdict_def by (rule has_row_query) (auto simp: has_row_def split: option.split)
next
  case (put_cached d key' r)
  then show ?case unfolding PutCachedVerdict_def by (rule has_row_query) (auto simp: has_row_def)
next
  case (user d u)
  then show ?case unfolding CreateUser_def by (rule has_row_query) (auto simp: has_row_def Let_def)
qed (simp_all add: has_row_def)

lemma has_row_reach: "db_step\<^sup>*\<^sup>* d d' \<Longrightarrow> has_row uid key i d \<Longrightarrow> has_row uid key i d'"
  by (induction rule: rtranclp_induct) (auto intro: has_row_step)

lemma evolves_has_row: "evolves w w' \<Longrightarrow> has_row uid key i (w_db w) \<Longrightarrow> has_row uid key i (w_db w')"
  unfolding evolves_def by (rule has_row_reach)

lemma db_step_faults: "db_step d d' \<Longrightarrow> db_faults d' = db_faults d"
  by (induction rule: db_step.induct)
    (auto simp: CreateSubmission_def MarkJudging_def SaveResult_def BumpAttempt_def CachedVerdict_def PutCachedVerdict_def
      CreateUser_def query_def Let_def update_sub_def split: option.split)

lemma evolves_faults: "evolves w w' \<Longrightarrow> db_faults (w_db w') = db_faults (w_db w)"
  unfolding evolves_def by (induction rule: rtranclp_induct) (auto dest: db_step_faults)

lemma evolves_ok: "evolves w w' \<Longrightarrow> db_ok (w_db w) \<Longrightarrow> db_ok (w_db w')"
  unfolding evolves_def by (rule db_reach_ok)

text \<open>In a well-formed database a key names one row, and so does an identifier.\<close>

lemma has_row_key: "db_ok d \<Longrightarrow> has_row uid (Some key) i d \<Longrightarrow> has_row uid (Some key) j d \<Longrightarrow> i = j"
  using db_ok_key unfolding has_row_def same_key_def by fastforce

lemma has_row_id: "db_ok d \<Longrightarrow> has_row uid key i d \<Longrightarrow> has_row uid' key' i d \<Longrightarrow> uid = uid' \<and> key = key'"
  using db_ok_key unfolding has_row_def same_key_def by fastforce

end
