(* ===== verification/Submit.thy ===== *)
theory Submit
  imports Api
begin

section \<open>Submitting and reading submissions (\<^verbatim>\<open>internal/api/handlers_submissions.go\<close>)\<close>

text \<open>
  \<open>handleSubmit\<close> in the stages of the source: checks that need no service, the rate limit, the
  idempotency key, the catalogue, the source blob, the row, the verdict cache and the queue.
\<close>

subsection \<open>The stages\<close>

definition maxSourceBytes :: nat where "maxSourceBytes = 256 * 1024"

definition check_request :: "Server \<Rightarrow> submitReq option \<Rightarrow> (response, submitReq \<times> Manifest) result" where
  "check_request S inp =
     (case inp of
        None \<Rightarrow> Inl (writeErr 400 ''invalid json'')
      | Some i \<Rightarrow>
          if blank (in_Source i) then Inl (writeErr 400 ''empty source'')
          else if length (in_Source i) > maxSourceBytes
          then Inl (writeErr 413 (''source exceeds '' @ utoa maxSourceBytes @ '' bytes''))
          else case Langs.Get (s_langs S) (in_Language i) of
              None \<Rightarrow> Inl (writeErr 400 (''unsupported language: '' @ in_Language i))
            | Some m \<Rightarrow> Inr (i, m))"

text \<open>\<^verbatim>\<open>Time.UnixMilli\<close>: Go's zero time is 62135596800 seconds before the epoch.\<close>

definition UnixMilli :: "gotime \<Rightarrow> int" where
  "UnixMilli t = (t - 62135596800 * Second_ns) div 1000000"

definition rate_limit :: "'s ext \<Rightarrow> Server \<Rightarrow> Claims \<Rightarrow> 's world \<Rightarrow> response option \<times> 's world" where
  "rate_limit X S u w =
     (case on_redis (Allow (x_redis X) (''submit:'' @ cl_UserID u) (RLSubmitPerMin (s_cfg S)) (RLBurst (s_cfg S))
              (UnixMilli (w_now w))) w of
        ((allowed, retry), w1) \<Rightarrow>
          (if allowed then None
           else Some ((writeErr 429 ''too many submissions; slow down'')
                  \<lparr>retry_after := Some (f64_to_i64 (Seconds retry) + 1)\<rparr>), w1))"

fun normalize_newlines :: "string \<Rightarrow> string" where
  "normalize_newlines (a # b # s) =
     (if a = CHR 0x0D \<and> b = CHR 0x0A then CHR 0x0A # normalize_newlines s else a # normalize_newlines (b # s))"
| "normalize_newlines s = s"

definition source_hash :: "'s ext \<Rightarrow> string \<Rightarrow> string" where
  "source_hash X src = EncodeToString (x_sha256 X (normalize_newlines src))"

definition store_source :: "'s ext \<Rightarrow> Server \<Rightarrow> string \<Rightarrow> string \<Rightarrow> 's world \<Rightarrow> bool \<times> 's world" where
  "store_source X S ref src w =
     (case on_fs (Exists (s_blobs S) ref) w of
        (ex, w1) \<Rightarrow>
          if ex = Inr True then (True, w1)
          else case on_fs (Put (x_tmp_name X) (s_blobs S) ref (src, False)) w1 of
              (Inl _, w2) \<Rightarrow> (False, w2) | (Inr _, w2) \<Rightarrow> (True, w2))"

definition zero_Submission :: Submission where
  "zero_Submission =
     \<lparr>s_ID = [], s_UserID = [], s_Handle = [], s_ProblemID = [], s_ContestID = [], s_Language = [], s_SourceRef = [],
      s_SourceHash = [], s_Status = [], s_Verdict = [], s_CPUms = 0, s_WallMs = 0, s_MemKB = 0, s_Score = 0,
      s_FailedTest = 0, s_CompileLog = [], s_Attempt = 0, s_RunnerID = [], s_ImageDigest = [], s_TestdataVersion = [],
      s_IdempotencyKey = [], s_CreatedAt = 0, s_JudgedAt = None, s_Tests = []\<rparr>"

definition submission_for :: "Claims \<Rightarrow> Problem \<Rightarrow> Manifest \<Rightarrow> string \<Rightarrow> string \<Rightarrow> Submission" where
  "submission_for u p m srcHash idem = zero_Submission
     \<lparr>s_UserID := cl_UserID u, s_ProblemID := p_ID p, s_ContestID := p_ContestID p, s_Language := m_ID m,
      s_SourceRef := ''src/'' @ srcHash, s_SourceHash := srcHash, s_TestdataVersion := p_TestdataVersion p,
      s_IdempotencyKey := idem\<rparr>"

definition by_key :: "Claims \<Rightarrow> string \<Rightarrow> 's world \<Rightarrow> Submission option \<times> 's world" where
  "by_key u idem w =
     (case on_db (FindByIdempotencyKey (cl_UserID u) idem) w of
        (Inr (Some existing), w1) \<Rightarrow> (Some existing, w1) | (_, w1) \<Rightarrow> (None, w1))"

definition replayed :: "gotime \<Rightarrow> Submission \<Rightarrow> SubmissionResult \<Rightarrow> SubmissionResult" where
  "replayed now sub cached = cached\<lparr>r_SubmissionID := s_ID sub, r_JudgedAt := now, r_RunnerID := ''cache''\<rparr>"

text \<open>A cached verdict that is saved answers the request.\<close>

definition replay_cached :: "'s ext \<Rightarrow> Server \<Rightarrow> Submission \<Rightarrow> Manifest \<Rightarrow> Problem \<Rightarrow> 's world \<Rightarrow> response option \<times> 's world" where
  "replay_cached X S sub m p w =
     (let key = VerdictCacheKey X (s_SourceHash sub) (m_ID m) (m_Image m) (p_TestdataVersion p) (limits_for m p)
      in case on_db (CachedVerdict key) w of
           (Inr (Some cached), w1) \<Rightarrow>
             (let res = replayed (w_now w1) sub cached
              in case on_db (SaveResult res) w1 of
                   (Inl _, w2) \<Rightarrow> (None, w2)
                 | (Inr _, w2) \<Rightarrow>
                     (case on_db (GetSubmission (s_ID sub)) (afterVerdict X S sub res p w2) of
                        (full, w4) \<Rightarrow>
                          (Some (writeJSON 200 (SubmissionBody (case full of Inr x \<Rightarrow> x | Inl _ \<Rightarrow> zero_Submission))), w4)))
         | (_, w1) \<Rightarrow> (None, w1))"

definition job_for :: "Claims \<Rightarrow> Problem \<Rightarrow> Manifest \<Rightarrow> TestRef list \<Rightarrow> Submission \<Rightarrow> gotime \<Rightarrow> JobSpec" where
  "job_for u p m tests sub now =
     \<lparr>job_SubmissionID = s_ID sub, job_Attempt = 1, job_ContestID = p_ContestID p, job_ProblemID = p_ID p,
      job_UserID = cl_UserID u, job_Language = m_ID m, job_SourceRef = s_SourceRef sub,
      job_SourceHash = s_SourceHash sub, job_ImageDigest = m_Image m, job_TestdataVersion = p_TestdataVersion p,
      job_Tests = tests, job_Limits = limits_for m p, job_Checker = p_Checker p, job_Policy = DefaultPolicy,
      job_EnqueuedAt = now\<rparr>"

definition enqueue :: "'s ext \<Rightarrow> Server \<Rightarrow> JobSpec \<Rightarrow> 's world \<Rightarrow> 's world" where
  "enqueue X S job w = snd (on_redis (Publish (x_redis X) (x_codec X) (s_queue S) job) w)"

text \<open>The row, the cache and the queue, once the problem is known and the source stored.\<close>

definition admit :: "'s ext \<Rightarrow> Server \<Rightarrow> Claims \<Rightarrow> string \<Rightarrow> string \<Rightarrow> Manifest \<Rightarrow> Problem \<Rightarrow> TestRef list \<Rightarrow> 's handler" where
  "admit X S u idem srcHash m p tests w =
     (case on_db (CreateSubmission (submission_for u p m srcHash idem)) w of
        (Inl _, w1) \<Rightarrow>
          (case by_key u idem w1 of
             (Some existing, w2) \<Rightarrow> (writeJSON 200 (SubmissionBody existing), w2)
           | (None, w2) \<Rightarrow> (writeErr 500 ''could not create submission'', w2))
      | (Inr sub, w1) \<Rightarrow>
          (case replay_cached X S sub m p w1 of
             (Some answer, w2) \<Rightarrow> (answer, w2)
           | (None, w2) \<Rightarrow>
               (writeJSON 202 (SubmissionBody sub), enqueue X S (job_for u p m tests sub (w_now w2)) w2)))"

definition catalogue :: "string \<Rightarrow> 's world \<Rightarrow> (response, Problem \<times> TestRef list) result \<times> 's world" where
  "catalogue pid w =
     (case on_db (GetProblem pid) w of
        (Inl _, w1) \<Rightarrow> (Inl (writeErr 404 ''problem not found''), w1)
      | (Inr p, w1) \<Rightarrow>
          (case on_db (ListTestCases (p_ID p)) w1 of
             (Inl _, w2) \<Rightarrow> (Inl (writeErr 503 ''problem has no test data''), w2)
           | (Inr tests, w2) \<Rightarrow>
               if tests = [] then (Inl (writeErr 503 ''problem has no test data''), w2) else (Inr (p, tests), w2)))"

definition accept_source :: "'s ext \<Rightarrow> Server \<Rightarrow> Claims \<Rightarrow> string \<Rightarrow> string \<Rightarrow> submitReq \<Rightarrow> Manifest \<Rightarrow> 's handler" where
  "accept_source X S u pid idem i m w =
     (case catalogue pid w of
        (Inl err, w1) \<Rightarrow> (err, w1)
      | (Inr (p, tests), w1) \<Rightarrow>
          let srcHash = source_hash X (in_Source i)
          in case store_source X S (''src/'' @ srcHash) (normalize_newlines (in_Source i)) w1 of
               (False, w2) \<Rightarrow> (writeErr 500 ''could not store source'', w2)
             | (True, w2) \<Rightarrow> admit X S u idem srcHash m p tests w2)"

definition handleSubmit :: "'s ext \<Rightarrow> Server \<Rightarrow> Claims \<Rightarrow> string \<Rightarrow> string \<Rightarrow> submitReq option \<Rightarrow> 's handler" where
  "handleSubmit X S u pid idem inp w =
     (case check_request S inp of
        Inl err \<Rightarrow> (err, w)
      | Inr (i, m) \<Rightarrow>
          (case rate_limit X S u w of
             (Some err, w1) \<Rightarrow> (err, w1)
           | (None, w1) \<Rightarrow>
               (case (if idem = [] then (None, w1) else by_key u idem w1) of
                  (Some existing, w2) \<Rightarrow> (writeJSON 200 (SubmissionBody existing), w2)
                | (None, w2) \<Rightarrow> accept_source X S u pid idem i m w2)))"

subsection \<open>Reading\<close>

definition handleGetSubmission :: "Claims \<Rightarrow> string \<Rightarrow> 's handler" where
  "handleGetSubmission u i w =
     (case on_db (GetSubmission i) w of
        (Inl _, w1) \<Rightarrow> (writeErr 404 ''submission not found'', w1)
      | (Inr sub, w1) \<Rightarrow>
          if s_UserID sub \<noteq> cl_UserID u \<and> cl_Role u \<noteq> ''admin'' \<and> cl_Role u \<noteq> ''setter''
          then (writeErr 403 ''not your submission'', w1)
          else (writeJSON 200 (SubmissionBody sub), w1))"

text \<open>\<^verbatim>\<open>strconv.Atoi\<close> returns 0 for text that is not a number, and the nearest 64-bit number when
  it is out of range.\<close>

definition Atoi_value :: "string \<Rightarrow> int" where
  "Atoi_value s =
     (let (neg, t) = (case s of [] \<Rightarrow> (False, []) | c # t \<Rightarrow>
            if c = CHR ''-'' then (True, t) else if c = CHR ''+'' then (False, t) else (False, s));
          v = (if neg then - int (digits_value t) else int (digits_value t))
      in if t = [] \<or> \<not> list_all dec_digit t then 0 else max min_i64 (min max_i64 v))"

definition handleListSubmissions :: "Claims \<Rightarrow> (string \<Rightarrow> string) \<Rightarrow> 's handler" where
  "handleListSubmissions u get w =
     (let f = \<lparr>f_UserID = (if cl_Role u = ''admin'' \<and> get ''user'' \<noteq> [] then get ''user'' else cl_UserID u),
               f_ProblemID = get ''problem'', f_ContestID = get ''contest'',
               f_Limit = Atoi_value (get ''limit''), f_Offset = Atoi_value (get ''offset'')\<rparr>
      in case on_db (ListSubmissions f) w of
           (Inl _, w1) \<Rightarrow> (writeErr 500 ''query failed'', w1)
         | (Inr out, w1) \<Rightarrow> (writeJSON 200 (SubmissionsBody out), w1))"

subsection \<open>What a submission adds to the table\<close>

lemma query_cases: "query f d = (Inl Unavailable, d\<lparr>db_clock := Suc (db_clock d)\<rparr>) \<or> query f d = f (d\<lparr>db_clock := Suc (db_clock d)\<rparr>)"
  by (simp add: query_def Let_def)

lemma CreateSubmission_cases:
  obtains (refused) e where "fst (CreateSubmission x d) = Inl e" and "submissions (snd (CreateSubmission x d)) = submissions d"
  | (created) i t where "fst (CreateSubmission x d) = Inr (x\<lparr>s_ID := i, s_Status := StatusQueued, s_CreatedAt := t\<rparr>)"
      and "submissions (snd (CreateSubmission x d)) = submissions d @ [new_row x i t]"
      and "\<forall>q \<in> set (submissions d). row_id q \<noteq> i \<and>
        \<not> (nullStr (s_IdempotencyKey x) \<noteq> None \<and> row_user_id q = s_UserID x \<and> row_idempotency_key q = nullStr (s_IdempotencyKey x))"
proof (cases "fst (CreateSubmission x d)")
  case (Inl e)
  then have "submissions (snd (CreateSubmission x d)) = submissions d"
    by (auto simp: CreateSubmission_def query_def Let_def split: if_splits)
  with Inl refused show ?thesis by blast
next
  case (Inr s)
  then show ?thesis
    by (intro created [of "db_now d" "db_uuid d (Suc (db_clock d))"])
      (auto simp: CreateSubmission_def query_def Let_def new_row_def split: if_splits)
qed

lemma by_key_submissions: "submissions (w_db (snd (by_key u idem w))) = submissions (w_db w)"
  using reads_on_db [OF reads_FindByIdempotencyKey, of "cl_UserID u" idem w]
  by (cases "on_db (FindByIdempotencyKey (cl_UserID u) idem) w") (auto simp: by_key_def split: sum.split option.split)

lemma by_key_Some:
  "by_key u idem w = (Some sub, w') \<Longrightarrow>
     \<exists>r \<in> set (submissions (w_db w)). sub = scan_row r \<and> row_user_id r = cl_UserID u \<and> row_idempotency_key r = Some idem"
  by (auto simp: by_key_def on_db_def FindByIdempotencyKey_def query_def Let_def find_Some_iff
      split: if_splits sum.splits option.splits prod.splits)

lemma catalogue_frame:
  "catalogue pid w = (r, w') \<Longrightarrow> submissions (w_db w') = submissions (w_db w) \<and> w_now w' = w_now w \<and>
     w_redis w' = w_redis w \<and> w_fs w' = w_fs w"
proof -
  assume c: "catalogue pid w = (r, w')"
  obtain r1 w1 where 1: "on_db (GetProblem pid) w = (r1, w1)" by (cases "on_db (GetProblem pid) w")
  have f1: "submissions (w_db w1) = submissions (w_db w) \<and> w_now w1 = w_now w \<and> w_redis w1 = w_redis w \<and> w_fs w1 = w_fs w"
    using reads_on_db [OF reads_statements(1), of pid w] on_db_frame(1-3) [of "GetProblem pid" w] 1 by simp
  show ?thesis
  proof (cases r1)
    case (Inl e)
    then show ?thesis using c 1 f1 by (simp add: catalogue_def)
  next
    case (Inr p)
    obtain r2 w2 where 2: "on_db (ListTestCases (p_ID p)) w1 = (r2, w2)" by (cases "on_db (ListTestCases (p_ID p)) w1")
    have f2: "submissions (w_db w2) = submissions (w_db w1) \<and> w_now w2 = w_now w1 \<and> w_redis w2 = w_redis w1 \<and> w_fs w2 = w_fs w1"
      using reads_on_db [OF reads_statements(3), of "p_ID p" w1] on_db_frame(1-3) [of "ListTestCases (p_ID p)" w1] 2 by simp
    show ?thesis using c 1 2 Inr f1 f2 by (cases r2) (auto simp: catalogue_def split: if_splits)
  qed
qed

lemma store_source_frame:
  "store_source X S ref src w = (b, w') \<Longrightarrow> w_db w' = w_db w \<and> w_now w' = w_now w \<and> w_redis w' = w_redis w"
  by (auto simp: store_source_def on_fs_def split: prod.splits if_splits sum.splits)

lemma rate_limit_frame:
  "rate_limit X S u w = (r, w') \<Longrightarrow> w_db w' = w_db w \<and> w_now w' = w_now w \<and> w_fs w' = w_fs w"
  by (auto simp: rate_limit_def on_redis_def split: prod.splits if_splits)

text \<open>Saving a result for a new row touches that row only.\<close>

lemma SaveResult_new_row:
  assumes "\<forall>q \<in> set qs. row_id q \<noteq> r_SubmissionID res" and "submissions d = qs @ [r]"
  shows "\<exists>r'. submissions (snd (SaveResult res d)) = qs @ [r'] \<and> row_id r' = row_id r \<and>
     row_user_id r' = row_user_id r \<and> row_idempotency_key r' = row_idempotency_key r"
proof -
  have "map (\<lambda>q. if row_id q = r_SubmissionID res \<and> unfinished q then f q else q) qs = qs" for f
    using assms(1) by (intro map_idI) auto
  then show ?thesis using assms(2)
    by (auto simp: SaveResult_def query_def Let_def update_sub_def result_row_def)
qed

definition row_for :: "Claims \<Rightarrow> string \<Rightarrow> string \<Rightarrow> sub_row \<Rightarrow> bool" where
  "row_for u idem i r \<longleftrightarrow> row_id r = i \<and> row_user_id r = cl_UserID u \<and> row_idempotency_key r = nullStr idem"

text \<open>A response shows the caller's own submission, or the zero value when it could not be read.\<close>

definition owned :: "Claims \<Rightarrow> response \<Rightarrow> bool" where
  "owned u resp \<longleftrightarrow> (\<forall>sub. resp_body resp = SubmissionBody sub \<longrightarrow> sub = zero_Submission \<or> s_UserID sub = cl_UserID u)"

lemma GetSubmission_Inr:
  "fst (GetSubmission i d) = Inr s \<Longrightarrow> \<exists>q. find_row i d = Some q \<and> s_UserID s = row_user_id q"
  by (auto simp: GetSubmission_def query_def Let_def find_row_def scan_row_def split: if_splits option.splits)

lemma find_row_last: "submissions d = qs @ [r] \<Longrightarrow> \<forall>q \<in> set qs. row_id q \<noteq> row_id r \<Longrightarrow> find_row (row_id r) d = Some r"
proof -
  assume d: "submissions d = qs @ [r]" and n: "\<forall>q \<in> set qs. row_id q \<noteq> row_id r"
  have "find P (qs @ [r]) = Some r" if "\<forall>q \<in> set qs. \<not> P q" "P r" for P using that by (induction qs) auto
  then show ?thesis using n by (simp add: find_row_def d)
qed

lemma replay_cached_row:
  assumes "replay_cached X S sub m p w = (ans, w')" and "submissions (w_db w) = qs @ [r]" and "row_for u idem (s_ID sub) r"
    and "\<forall>q \<in> set qs. row_id q \<noteq> s_ID sub"
  shows "(\<exists>r'. submissions (w_db w') = qs @ [r'] \<and> row_for u idem (s_ID sub) r') \<and> (\<forall>a. ans = Some a \<longrightarrow> owned u a)"
proof -
  let ?key = "VerdictCacheKey X (s_SourceHash sub) (m_ID m) (m_Image m) (p_TestdataVersion p) (limits_for m p)"
  obtain c w1 where 1: "on_db (CachedVerdict ?key) w = (c, w1)" by (cases "on_db (CachedVerdict ?key) w")
  have s1: "submissions (w_db w1) = qs @ [r]"
    using reads_on_db [OF reads_statements(5), of ?key w] 1 assms(2) by simp
  show ?thesis
  proof (cases "\<exists>cached. c = Inr (Some cached)")
    case False
    then have "w' = w1" "ans = None" using assms(1) 1 by (auto simp: replay_cached_def Let_def split: sum.splits option.splits)
    then show ?thesis using s1 assms(3) by blast
  next
    case True
    then obtain cached where c: "c = Inr (Some cached)" by blast
    let ?res = "replayed (w_now w1) sub cached"
    obtain v w2 where 2: "on_db (SaveResult ?res) w1 = (v, w2)" by (cases "on_db (SaveResult ?res) w1")
    have "r_SubmissionID ?res = s_ID sub" by (simp add: replayed_def)
    then obtain r' where r': "submissions (w_db w2) = qs @ [r']" "row_for u idem (s_ID sub) r'"
      using SaveResult_new_row [of qs ?res "w_db w1" r] s1 assms(3,4) on_db_frame(4) [of "SaveResult ?res" w1] 2
      by (auto simp: row_for_def)
    let ?w3 = "afterVerdict X S sub ?res p w2"
    obtain g w4 where 4: "on_db (GetSubmission (s_ID sub)) ?w3 = (g, w4)" by (cases "on_db (GetSubmission (s_ID sub)) ?w3")
    have "submissions (w_db w4) = qs @ [r']"
      using reads_on_db [OF reads_GetSubmission, of "s_ID sub" ?w3] r'(1) 4 by simp
    moreover have "s_UserID full = cl_UserID u" if "g = Inr full" for full
    proof -
      have "row_id r' = s_ID sub" using r'(2) by (simp add: row_for_def)
      then have "find_row (s_ID sub) (w_db ?w3) = Some r'"
        using find_row_last [of "w_db ?w3" qs r'] r'(1) assms(4) by simp
      then show ?thesis using GetSubmission_Inr [of "s_ID sub" "w_db ?w3" full] on_db_frame(5) [of "GetSubmission (s_ID sub)" ?w3] 4 that r'(2)
        by (simp add: row_for_def)
    qed
    ultimately have "submissions (w_db w') = qs @ [r'] \<and> (\<forall>a. ans = Some a \<longrightarrow> owned u a)"
      using assms(1) 1 2 4 c r'(1) by (cases v; cases g) (auto simp: replay_cached_def Let_def owned_def writeJSON_def)
    then show ?thesis using r'(2) by blast
  qed
qed

lemma replay_cached_code: "replay_cached X S sub m p w = (Some ans, w') \<Longrightarrow> status_code ans = 200"
  by (auto simp: replay_cached_def Let_def writeJSON_def split: sum.splits option.splits prod.splits)

definition keyed :: "Claims \<Rightarrow> string \<Rightarrow> sub_row \<Rightarrow> bool" where
  "keyed u idem q \<longleftrightarrow> idem \<noteq> [] \<and> row_user_id q = cl_UserID u \<and> row_idempotency_key q = Some idem"

text \<open>What a request may do to the rows \<open>qs\<close>: nothing, or add one row of the caller under a new
  key and answer 200 or 202, 202 with the identifier of that row.\<close>

definition submit_effect :: "Claims \<Rightarrow> string \<Rightarrow> response \<Rightarrow> sub_row list \<Rightarrow> sub_row list \<Rightarrow> bool" where
  "submit_effect u idem resp qs qs' \<longleftrightarrow> owned u resp \<and>
     (qs' = qs \<and> status_code resp \<noteq> 202 \<or>
      (\<exists>i r. qs' = qs @ [r] \<and> row_for u idem i r \<and> status_code resp \<in> {200, 202} \<and>
         (status_code resp = 202 \<longrightarrow> (\<exists>sub. resp_body resp = SubmissionBody sub \<and> s_ID sub = i)) \<and>
         \<not> (\<exists>q \<in> set qs. keyed u idem q)))"

lemma owned_err [simp]: "owned u (writeErr c m)" "owned u (writeJSON c (ErrBody e))" "owned u (writeJSON c NoBody)"
  by (simp_all add: owned_def writeErr_def writeJSON_def)

lemma admit_rows:
  assumes "admit X S u idem h m p tests w = (resp, w')"
  shows "submit_effect u idem resp (submissions (w_db w)) (submissions (w_db w'))"
proof -
  let ?x = "submission_for u p m h idem"
  obtain c w1 where 1: "on_db (CreateSubmission ?x) w = (c, w1)" by (cases "on_db (CreateSubmission ?x) w")
  have f1: "fst (CreateSubmission ?x (w_db w)) = c" "snd (CreateSubmission ?x (w_db w)) = w_db w1"
    using on_db_frame(4,5) [of "CreateSubmission ?x" w] 1 by simp_all
  show ?thesis
  proof (cases rule: CreateSubmission_cases [of ?x "w_db w"])
    case (refused e)
    then have "submissions (w_db w1) = submissions (w_db w)" "c = Inl e" using f1 by simp_all
    moreover obtain b w2 where b: "by_key u idem w1 = (b, w2)" by (cases "by_key u idem w1")
    moreover have "s_UserID existing = cl_UserID u" if "b = Some existing" for existing
      using by_key_Some [of u idem w1 existing w2] b that by (auto simp: scan_row_def)
    ultimately show ?thesis using assms 1 by_key_submissions [of u idem w1]
      by (cases b) (auto simp: admit_def submit_effect_def owned_def writeJSON_def writeErr_def)
  next
    case (created i t)
    let ?sub = "?x\<lparr>s_ID := i, s_Status := StatusQueued, s_CreatedAt := t\<rparr>" let ?r = "new_row ?x i t"
    have c: "c = Inr ?sub" and s1: "submissions (w_db w1) = submissions (w_db w) @ [?r]" using created f1 by simp_all
    have r: "row_for u idem (s_ID ?sub) ?r" by (simp add: row_for_def new_row_def submission_for_def)
    have fr: "\<forall>q \<in> set (submissions (w_db w)). row_id q \<noteq> s_ID ?sub" using created(3) by simp
    have new: "\<not> (\<exists>q \<in> set (submissions (w_db w)). keyed u idem q)"
      using created(3) by (auto simp: submission_for_def nullStr_def keyed_def)
    obtain a w2 where 2: "replay_cached X S ?sub m p w1 = (a, w2)" by (cases "replay_cached X S ?sub m p w1")
    obtain r' where r': "submissions (w_db w2) = submissions (w_db w) @ [r']" "row_for u idem i r'" "\<forall>ans. a = Some ans \<longrightarrow> owned u ans"
      using replay_cached_row [OF 2 s1 r fr] by auto
    show ?thesis
    proof (cases a)
      case None
      then have "resp = writeJSON 202 (SubmissionBody ?sub)" "w_db w' = w_db w2"
        using assms 1 2 c by (auto simp: admit_def enqueue_def)
      moreover have "s_UserID ?sub = cl_UserID u" by (simp add: submission_for_def)
      ultimately show ?thesis using r' new by (auto simp: submit_effect_def owned_def writeJSON_def)
    next
      case (Some ans)
      then show ?thesis using assms 1 2 c r' new replay_cached_code [of X S ?sub m p w1 ans w2]
        by (auto simp: admit_def submit_effect_def)
    qed
  qed
qed

lemma accept_source_rows:
  assumes "accept_source X S u pid idem i m w = (resp, w')"
  shows "submit_effect u idem resp (submissions (w_db w)) (submissions (w_db w'))"
proof -
  obtain c w1 where 1: "catalogue pid w = (c, w1)" by (cases "catalogue pid w")
  have s1: "submissions (w_db w1) = submissions (w_db w)" using catalogue_frame [OF 1] by blast
  show ?thesis
  proof (cases c)
    case (Inl e)
    have "status_code e \<noteq> 202 \<and> owned u e" using 1 Inl
      by (auto simp: catalogue_def owned_def writeErr_def writeJSON_def split: sum.splits prod.splits if_splits)
    then show ?thesis using assms 1 Inl s1 by (simp add: accept_source_def submit_effect_def)
  next
    case (Inr pt)
    obtain p tests where pt: "pt = (p, tests)" by (cases pt)
    let ?h = "source_hash X (in_Source i)"
    obtain b w2 where 2: "store_source X S (''src/'' @ ?h) (normalize_newlines (in_Source i)) w1 = (b, w2)"
      by (cases "store_source X S (''src/'' @ ?h) (normalize_newlines (in_Source i)) w1")
    have s2: "submissions (w_db w2) = submissions (w_db w)" using store_source_frame [OF 2] s1 by simp
    show ?thesis
    proof (cases b)
      case False
      then show ?thesis using assms 1 2 Inr pt s2 by (auto simp: accept_source_def submit_effect_def owned_def writeErr_def writeJSON_def)
    next
      case True
      then have "admit X S u idem ?h m p tests w2 = (resp, w')" using assms 1 2 Inr pt by (simp add: accept_source_def)
      from admit_rows [OF this] show ?thesis unfolding s2 .
    qed
  qed
qed

lemma keyed_unique:
  assumes "db_ok d" and "q \<in> set (submissions d)" and "r \<in> set (submissions d)" and "keyed u idem q" and "keyed u idem r"
  shows "q = r"
  using assms by (intro db_ok_key) (auto simp: keyed_def same_key_def)

lemma by_key_found:
  assumes "db_ok (w_db w)" and "q \<in> set (submissions (w_db w))" and "keyed u idem q" and "\<not> db_faults (w_db w) (db_clock (w_db w))"
  shows "fst (by_key u idem w) = Some (scan_row q)"
proof -
  let ?d = "w_db w" let ?P = "\<lambda>r. row_user_id r = cl_UserID u \<and> row_idempotency_key r = Some idem"
  have "?P q" "idem \<noteq> []" using assms(3) by (simp_all add: keyed_def)
  then obtain r where r: "find ?P (submissions ?d) = Some r" "r \<in> set (submissions ?d)" "?P r"
    using assms(2) by (cases "find ?P (submissions ?d)") (auto simp: find_None_iff find_Some_iff)
  then have "r = q" using keyed_unique [OF assms(1) r(2) assms(2)] assms(3) by (simp add: keyed_def)
  then show ?thesis using r(1) assms(4) \<open>idem \<noteq> []\<close>
    by (simp add: by_key_def on_db_def FindByIdempotencyKey_def query_def Let_def)
qed

lemma handleSubmit_effect:
  assumes "handleSubmit X S u pid idem inp w = (resp, w')"
  shows "submit_effect u idem resp (submissions (w_db w)) (submissions (w_db w')) \<and>
    (\<forall>q \<in> set (submissions (w_db w)). keyed u idem q \<longrightarrow> submissions (w_db w') = submissions (w_db w) \<and>
      (check_request S inp = Inr im \<and> fst (rate_limit X S u w) = None \<and> db_ok (w_db w) \<and>
       \<not> db_faults (w_db w) (db_clock (w_db w)) \<longrightarrow> resp = writeJSON 200 (SubmissionBody (scan_row q))))"
proof (cases "check_request S inp")
  case (Inl e)
  have "status_code e \<noteq> 202 \<and> owned u e" using Inl
    by (auto simp: check_request_def owned_def writeErr_def writeJSON_def split: option.splits if_splits)
  then show ?thesis using assms Inl by (auto simp: handleSubmit_def submit_effect_def)
next
  case (Inr x)
  obtain i m where x: "x = (i, m)" by (cases x)
  obtain e w1 where 1: "rate_limit X S u w = (e, w1)" by (cases "rate_limit X S u w")
  have d1: "w_db w1 = w_db w" using rate_limit_frame [OF 1] by blast
  show ?thesis
  proof (cases e)
    case (Some err)
    have "status_code err = 429 \<and> owned u err" using 1 Some
      by (auto simp: rate_limit_def owned_def writeErr_def writeJSON_def split: prod.splits if_splits)
    then show ?thesis using assms Inr x 1 Some d1 by (auto simp: handleSubmit_def submit_effect_def)
  next
    case None
    obtain b w2 where 2: "(if idem = [] then (None, w1) else by_key u idem w1) = (b, w2)"
      by (cases "if idem = [] then (None, w1) else by_key u idem w1")
    have s2: "submissions (w_db w2) = submissions (w_db w)"
      using by_key_submissions [of u idem w1] 2 d1 by (cases "idem = []") simp_all
    have k: "b = Some (scan_row q)" if "q \<in> set (submissions (w_db w))" "keyed u idem q" "db_ok (w_db w)"
        "\<not> db_faults (w_db w) (db_clock (w_db w))" for q
      using by_key_found [of w1 q u idem] that 2 d1 by (simp add: keyed_def)
    show ?thesis
    proof (cases b)
      case (Some existing)
      then have r: "resp = writeJSON 200 (SubmissionBody existing)" "w' = w2"
        using assms Inr x 1 None 2 by (auto simp: handleSubmit_def)
      moreover have "s_UserID existing = cl_UserID u"
        using by_key_Some [of u idem w1 existing w2] 2 Some by (auto simp: scan_row_def split: if_splits)
      ultimately show ?thesis using s2 k Some by (auto simp: submit_effect_def owned_def writeJSON_def)
    next
      case n: None
      then have a: "accept_source X S u pid idem i m w2 = (resp, w')"
        using assms Inr x 1 None 2 by (auto simp: handleSubmit_def)
      show ?thesis using accept_source_rows [OF a] s2 k n by (auto simp: submit_effect_def)
    qed
  qed
qed

subsection \<open>Properties\<close>

text \<open>
  C6: a request adds at most one row, owned by the caller and carrying its idempotency key, and
  then answers 200 or 202; it answers 202 only with the row it added. A request whose key
  the caller has used before adds nothing, whatever fails on the way, and once it passes the
  checks and the rate limit and the database answers, it is given that submission.
\<close>

theorem submit_once:
  assumes "handleSubmit X S u pid idem inp w = (resp, w')"
  shows "submit_effect u idem resp (submissions (w_db w)) (submissions (w_db w')) \<and>
    (\<forall>q \<in> set (submissions (w_db w)). keyed u idem q \<longrightarrow> submissions (w_db w') = submissions (w_db w) \<and>
      (check_request S inp = Inr im \<and> fst (rate_limit X S u w) = None \<and> db_ok (w_db w) \<and>
       \<not> db_faults (w_db w) (db_clock (w_db w)) \<longrightarrow> resp = writeJSON 200 (SubmissionBody (scan_row q))))"
  by (rule handleSubmit_effect [OF assms])

definition sample_cfg :: Config where
  "sample_cfg = (from_env (\<lambda>_. None) (\<lambda>_. []))\<lparr>JWTSecret := ''secret'', RunnerToken := ''runner'', RLSubmitPerMin := 0\<rparr>"

definition sample_manifest :: Manifest where
  "sample_manifest = fresh_manifest\<lparr>m_ID := ''py'', m_Image := ''img'', m_SourceFile := ''a.py'', m_Run := [''python'']\<rparr>"

definition sample_server :: Server where
  "sample_server = \<lparr>s_cfg = sample_cfg, s_queue = sample_queue, s_blobs = [''blobs''], s_langs = [(''py'', sample_manifest)]\<rparr>"

definition sample_ext :: "ref_state ext" where
  "sample_ext = \<lparr>x_redis = ref_redis, x_codec = sample_codec, x_sha256 = (\<lambda>s. s), x_limits_json = (\<lambda>_. ''{}''),
     x_event_json = (\<lambda>_. Some ''{}''), x_submission_json = (\<lambda>s. s_Status s), x_status_of_json = (\<lambda>s. Some s),
     x_submit_body = (\<lambda>r. Some \<lparr>in_Language = ''py'', in_Source = fst r\<rparr>),
     x_cred_body = (\<lambda>_. None), x_mark_body = (\<lambda>_. \<lparr>in_RunnerID = ''r'', in_Attempt = 1\<rparr>), x_result_body = (\<lambda>_. None),
     x_metrics = [], x_tmp_name = (\<lambda>_. ''1''), x_bcrypt = (\<lambda>n p. Some p), x_compare = (=), x_numeric_date = (\<lambda>t. t),
     sign_jwt = (\<lambda>_ _ _. None), parse_jwt = (\<lambda>_ _ _ _ _. None)\<rparr>"

definition sample_claims :: Claims where
  "sample_claims = \<lparr>cl_UserID = ''u'', cl_Handle = ''h'', cl_Role = ''participant'', cl_Subject = ''u'', cl_IssuedAt = 0,
     cl_ExpiresAt = 1, cl_Issuer = ''arena''\<rparr>"

definition sample_world :: "db \<Rightarrow> ref_state world" where
  "sample_world d = \<lparr>w_db = d, w_redis = sample_rdb, w_fs = blank_fs, w_now = 0, w_salt = 0\<rparr>"

definition keyed_row :: sub_row where
  "keyed_row = new_row (sample_submission\<lparr>s_IdempotencyKey := ''k''\<rparr>) ''s'' 1"

theorem submit_once_witness:
  "fst (handleSubmit sample_ext sample_server sample_claims ''p'' ''k'' (Some \<lparr>in_Language = ''py'', in_Source = ''x''\<rparr>)
      (sample_world (empty_db\<lparr>submissions := [keyed_row]\<rparr>))) = writeJSON 200 (SubmissionBody (scan_row keyed_row))"
proof -
  let ?d = "empty_db\<lparr>submissions := [keyed_row]\<rparr>" let ?w = "sample_world ?d"
  let ?i = "Some \<lparr>in_Language = ''py'', in_Source = ''x''\<rparr>"
  have "\<not> blank ''x''" by (simp add: blank_def runes_unfold DecodeRune_decode isSpace_def)
  then have c: "check_request sample_server ?i = Inr (\<lparr>in_Language = ''py'', in_Source = ''x''\<rparr>, sample_manifest)"
    by (simp add: check_request_def maxSourceBytes_def sample_server_def Langs.Get_def)
  have r: "fst (rate_limit sample_ext sample_server sample_claims ?w) = None"
    by (simp add: rate_limit_def on_redis_def Allow_def sample_server_def sample_cfg_def)
  have k: "keyed sample_claims ''k'' keyed_row"
    by (simp add: keyed_def keyed_row_def new_row_def sample_claims_def sample_submission_def scan_row_def nullStr_def)
  have ok: "db_ok ?d" by (simp add: db_ok_def Store.row_ok_def finished_def keyed_row_def new_row_def go_simps)
  show ?thesis
    using submit_once [of sample_ext sample_server sample_claims "''p''" "''k''" ?i ?w _ _ "(\<lparr>in_Language = ''py'', in_Source = ''x''\<rparr>, sample_manifest)", OF prod.collapse [symmetric]]
      c r k ok by (simp add: sample_world_def empty_db_def)
qed

end
