(* ===== verification/Results.thy ===== *)
theory Results
  imports Submit
begin

section \<open>Results from the runners (\<^verbatim>\<open>internal/api/handlers_internal.go\<close>)\<close>

text \<open>
  \<open>handleMarkJudging\<close> and \<open>handleResult\<close>, through which runners report, and what a report does
  to the row, the verdict cache and the leaderboard.
\<close>

definition handleMarkJudging :: "'s ext \<Rightarrow> string \<Rightarrow> markJudgingReq \<Rightarrow> 's handler" where
  "handleMarkJudging X i inp w =
     (case on_db (MarkJudging i (in_RunnerID inp) (in_Attempt inp)) w of
        (Inl e, w1) \<Rightarrow> (writeJSON 500 (ErrBody (OfStore e)), w1)
      | (Inr _, w1) \<Rightarrow> (no_content, publishEvent X i (JudgingEvent i) w1))"

definition received :: "gotime \<Rightarrow> SubmissionResult \<Rightarrow> SubmissionResult" where
  "received now res = res\<lparr>r_Status := (if r_Status res = [] then StatusDone else r_Status res), r_JudgedAt := now\<rparr>"

definition finish_result :: "'s ext \<Rightarrow> Server \<Rightarrow> SubmissionResult \<Rightarrow> 's handler" where
  "finish_result X S res w =
     (case on_db (SaveResult res) w of
        (Inl e, w1) \<Rightarrow> (writeJSON 500 (ErrBody (OfStore e)), w1)
      | (Inr _, w1) \<Rightarrow>
          (case on_db (GetSubmission (r_SubmissionID res)) w1 of
             (Inl e, w2) \<Rightarrow> (writeJSON 500 (ErrBody (OfStore e)), w2)
           | (Inr sub, w2) \<Rightarrow>
               (case on_db (GetProblem (s_ProblemID sub)) w2 of
                  (Inl e, w3) \<Rightarrow> (writeJSON 500 (ErrBody (OfStore e)), w3)
                | (Inr p, w3) \<Rightarrow>
                    let w4 = afterVerdict X S sub res p w3
                    in (no_content, snd (on_redis (ReleaseInFlight (x_redis X) (s_UserID sub)) w4)))))"

definition handleResult :: "'s ext \<Rightarrow> Server \<Rightarrow> SubmissionResult option \<Rightarrow> 's handler" where
  "handleResult X S inp w =
     (case inp of
        None \<Rightarrow> (writeErr 400 ''invalid json'', w)
      | Some res \<Rightarrow>
          if r_SubmissionID res = [] then (writeErr 400 ''submission_id required'', w)
          else finish_result X S (received (w_now w) res) w)"

subsection \<open>The leaderboard after a report\<close>

text \<open>Everything the handler does to Redis besides \<open>Apply\<close> keeps the participants' hashes and
  scores.\<close>

definition board_of :: "'s redis \<Rightarrow> string \<Rightarrow> string \<Rightarrow> 's \<Rightarrow> (string \<Rightarrow> string option) \<times> (string \<Rightarrow> f64 option)" where
  "board_of R cid uid s = ((\<lambda>pid. HGET R (statsKey cid uid) pid s), (\<lambda>u. ZSCORE R (zKey cid) u s))"

lemma not_inflight: "statsKey cid uid \<noteq> ''arena:inflight:'' @ u" "zKey cid \<noteq> ''arena:inflight:'' @ u"
  by (simp_all add: statsKey_def zKey_def)

context redis_hashes
begin

lemma publish_board: "board_of R cid uid (server (snd (Bus_Publish R t b c))) = board_of R cid uid (server c)"
  unfolding Bus_Publish_def
  by (rule call_keeps [rotated]) (simp_all add: rupdate_def board_of_def hget_publish zscore_publish)

lemma release_board: "board_of R cid uid (server (snd (ReleaseInFlight R u c))) = board_of R cid uid (server c)"
  unfolding ReleaseInFlight_def
  by (rule call_keeps [rotated]) (simp_all add: rupdate_def board_of_def hget_del zscore_del not_inflight [simplified])

lemma publishEvent_board:
  assumes "x_redis X = R"
  shows "board_of R cid uid (server (w_redis (publishEvent X t e w))) = board_of R cid uid (server (w_redis w))"
  using publish_board assms by (simp add: publishEvent_def Let_def split: option.split)

end

lemma cache_verdict_frame [simp]:
  "w_redis (cache_verdict X S sub res p w) = w_redis w"
  "contests (w_db (cache_verdict X S sub res p w)) = contests (w_db w)"
  "db_faults (w_db (cache_verdict X S sub res p w)) = db_faults (w_db w)"
  by (simp_all add: cache_verdict_def Let_def PutCachedVerdict_def query_def split: option.split)

lemma afterVerdict_board:
  assumes "redis_hashes (x_redis X)" and "r_Verdict res = VerdictAC" and "db_faults (w_db w) = (\<lambda>_. False)"
    and "find (\<lambda>c. c_ID c = p_ContestID p) (contests (w_db w)) = Some k"
  shows "board_of (x_redis X) (p_ContestID p) uid (server (w_redis (afterVerdict X S sub res p w))) =
    board_of (x_redis X) (p_ContestID p) uid (server (snd (Board.Apply (x_redis X) (p_ContestID p) (s_UserID sub) (p_ID p)
       (stat_of_result res) (c_ScoringMode k) (c_StartsAt k) (w_redis w))))"
proof -
  let ?w1 = "cache_verdict X S sub res p w"
  have g: "on_db (GetContest (p_ContestID p)) ?w1 = (Inr k, snd (on_db (GetContest (p_ContestID p)) ?w1))"
    by (rule prod_eqI) (simp_all add: GetContest_def query_def Let_def assms(3,4))
  show ?thesis
    by (subst afterVerdict_def, subst update_board_def, subst g)
      (simp add: assms(2) Let_def redis_hashes.publishEvent_board [OF assms(1) refl])
qed

text \<open>A result for a finished submission is stored nowhere.\<close>

lemma SaveResult_done:
  assumes "db_ok d" and "find_row (r_SubmissionID res) d = Some r" and "row_status r = StatusDone"
  shows "submissions (snd (SaveResult res d)) = submissions d \<and> submission_tests (snd (SaveResult res d)) = submission_tests d"
proof -
  have "\<not> unfinished q" if "q \<in> set (submissions d)" "row_id q = r_SubmissionID res" for q
    using find_row_unique [OF assms(1,2) that] assms(3) by (simp add: unfinished_def)
  then show ?thesis by (auto simp: SaveResult_def query_def Let_def)
qed

lemma GetSubmission_row:
  assumes "db_faults d = (\<lambda>_. False)" and "find_row i d = Some r"
  shows "\<exists>n. GetSubmission i d = (Inr ((scan_row r)\<lparr>s_Tests := test_rows i d\<rparr>), d\<lparr>db_clock := n\<rparr>)"
  using assms by (intro exI [of _ "Suc (Suc (db_clock d))"]) (simp add: GetSubmission_def query_def Let_def find_row_def test_rows_def)

lemma GetProblem_row:
  assumes "db_faults d = (\<lambda>_. False)" and "find (\<lambda>p. p_ID p = i) (problems d) = Some p"
  shows "\<exists>n. GetProblem i d = (Inr (p\<lparr>p_Limits := Normalize (p_Limits p)\<rparr>), d\<lparr>db_clock := n\<rparr>)"
  using assms by (intro exI [of _ "Suc (db_clock d)"]) (simp add: GetProblem_def query_def Let_def scanProblem_def)

lemma SaveResult_noop:
  assumes "db_ok d" and "find_row (r_SubmissionID res) d = Some r" and "row_status r = StatusDone"
    and "db_faults d = (\<lambda>_. False)" and "result_args_ok res"
  shows "SaveResult res d = (Inr (), d\<lparr>db_clock := Suc (db_clock d)\<rparr>)"
proof -
  have "\<not> unfinished q" if "q \<in> set (submissions d)" "row_id q = r_SubmissionID res" for q
    using find_row_unique [OF assms(1,2) that] assms(3) by (simp add: unfinished_def)
  then show ?thesis using assms(4,5) by (auto simp: SaveResult_def query_def Let_def)
qed

text \<open>The three statements before the side effects succeed and change only the statement count.\<close>

lemma finish_result_done:
  assumes "db_ok (w_db w)" and "db_faults (w_db w) = (\<lambda>_. False)" and "find_row (r_SubmissionID res) (w_db w) = Some r"
    and "row_status r = StatusDone" and "result_args_ok res"
    and "find (\<lambda>p. p_ID p = row_problem_id r) (problems (w_db w)) = Some p"
  shows "\<exists>n. let w3 = w\<lparr>w_db := (w_db w)\<lparr>db_clock := n\<rparr>\<rparr>; sub = (scan_row r)\<lparr>s_Tests := test_rows (r_SubmissionID res) (w_db w)\<rparr>;
       w4 = afterVerdict X S sub res (p\<lparr>p_Limits := Normalize (p_Limits p)\<rparr>) w3
     in finish_result X S res w = (no_content, snd (on_redis (ReleaseInFlight (x_redis X) (row_user_id r)) w4))"
proof -
  let ?d = "w_db w" let ?i = "r_SubmissionID res" let ?sub = "(scan_row r)\<lparr>s_Tests := test_rows ?i ?d\<rparr>"
  have 1: "on_db (SaveResult res) w = (Inr (), w\<lparr>w_db := ?d\<lparr>db_clock := Suc (db_clock ?d)\<rparr>\<rparr>)"
    using SaveResult_noop [OF assms(1,3,4,2,5)] by (simp add: on_db_def)
  let ?d1 = "?d\<lparr>db_clock := Suc (db_clock ?d)\<rparr>"
  have "db_faults ?d1 = (\<lambda>_. False)" "find_row ?i ?d1 = Some r" using assms(2,3) by (simp_all add: find_row_def)
  then obtain n where "GetSubmission ?i ?d1 = (Inr ((scan_row r)\<lparr>s_Tests := test_rows ?i ?d1\<rparr>), ?d1\<lparr>db_clock := n\<rparr>)"
    using GetSubmission_row [of ?d1 ?i r] by auto
  then have 2: "on_db (GetSubmission ?i) (w\<lparr>w_db := ?d1\<rparr>) = (Inr ?sub, w\<lparr>w_db := ?d\<lparr>db_clock := n\<rparr>\<rparr>)"
    by (simp add: on_db_def test_rows_def)
  let ?d2 = "?d\<lparr>db_clock := n\<rparr>"
  have "db_faults ?d2 = (\<lambda>_. False)" "find (\<lambda>p. p_ID p = row_problem_id r) (problems ?d2) = Some p" using assms(2,6) by simp_all
  then obtain m where "GetProblem (row_problem_id r) ?d2 = (Inr (p\<lparr>p_Limits := Normalize (p_Limits p)\<rparr>), ?d2\<lparr>db_clock := m\<rparr>)"
    using GetProblem_row [of ?d2 "row_problem_id r" p] by auto
  then have 3: "on_db (GetProblem (row_problem_id r)) (w\<lparr>w_db := ?d2\<rparr>) =
      (Inr (p\<lparr>p_Limits := Normalize (p_Limits p)\<rparr>), w\<lparr>w_db := ?d\<lparr>db_clock := m\<rparr>\<rparr>)"
    by (simp add: on_db_def)
  have "s_UserID (scan_row r) = row_user_id r" "s_ProblemID (scan_row r) = row_problem_id r" by (simp_all add: scan_row_def)
  then show ?thesis by (intro exI [of _ m]) (simp add: finish_result_def Let_def 1 2 3)
qed

subsection \<open>The verdict cache across submissions\<close>

lemma afterVerdict_faults [simp]: "db_faults (w_db (afterVerdict X S sub res p w)) = db_faults (w_db w)"
proof -
  have "db_faults (w_db (update_board X sub res p w)) = db_faults (w_db w)" for w :: "'a world"
    by (auto simp: update_board_def on_db_def GetContest_def query_def Let_def split: option.split)
  then show ?thesis by (simp add: afterVerdict_def)
qed

lemma afterVerdict_cache: "verdict_cache (w_db (afterVerdict X S sub res p w)) = verdict_cache (w_db (cache_verdict X S sub res p w))"
proof -
  have "verdict_cache (w_db (update_board X sub res p w)) = verdict_cache (w_db w)" for w :: "'a world"
    by (auto simp: update_board_def on_db_def GetContest_def query_def Let_def split: option.split)
  then show ?thesis by (simp add: afterVerdict_def)
qed

text \<open>What a result must satisfy for the database to take it, both as a row of the cache and, under
  another submission's name, as a result.\<close>

definition cacheable :: "SubmissionResult \<Rightarrow> bool" where
  "cacheable res \<longleftrightarrow> r_Verdict res \<noteq> VerdictIE \<and> result_ok res \<and> result_args_ok res \<and> list_all test_ok (r_Tests res) \<and>
     distinct (map t_Index (r_Tests res))"

lemma cacheable_replayed: "cacheable res \<Longrightarrow> result_ok (replayed t sub res) \<and> result_args_ok (replayed t sub res)"
  by (auto simp: cacheable_def replayed_def result_ok_def result_args_ok_def intro!: valid_text_ascii)

definition cache_key :: "'s ext \<Rightarrow> string \<Rightarrow> Manifest \<Rightarrow> Problem \<Rightarrow> string" where
  "cache_key X h m p = VerdictCacheKey X h (m_ID m) (m_Image m) (p_TestdataVersion p) (limits_for m p)"

lemma hex_ascii: "c < 16 \<Longrightarrow> 0 < (of_char (hex_digit c) :: nat) \<and> of_char (hex_digit c) < (128 :: nat)"
  by (auto simp: hex_digit_def)

lemma cache_key_text: "valid_text (cache_key X h m p)"
proof -
  have "(of_char c :: nat) div 16 < 16" for c :: char by (rule less_mult_imp_div_less) simp
  then show ?thesis unfolding cache_key_def VerdictCacheKey_def EncodeToString_def
    by (intro valid_text_ascii) (auto simp: list_all_iff hex_ascii)
qed

lemma cache_filled:
  assumes "db_faults (w_db w) = (\<lambda>_. False)" and "cacheable res" and "Langs.Get (s_langs S) (m_ID m) = Some m"
    and "s_Language sub = m_ID m" and "r_ImageDigest res = [] \<or> r_ImageDigest res = m_Image m"
    and "map_of (verdict_cache (w_db w)) (cache_key X (s_SourceHash sub) m p) = None"
  shows "map_of (verdict_cache (w_db (afterVerdict X S sub res p w))) (cache_key X (s_SourceHash sub) m p) = Some (res, 0)"
proof -
  have img: "(if r_ImageDigest res = [] then m_Image m else r_ImageDigest res) = m_Image m" using assms(5) by auto
  have c: "cache_verdict X S sub res p w = snd (on_db (PutCachedVerdict (cache_key X (s_SourceHash sub) m p) res) w)"
    using assms(2,3,4) by (simp add: cache_verdict_def cacheable_def img cache_key_def Let_def)
  have "valid_text (r_Verdict res)" "valid_text (Store.truncate (r_CompileLog res) 8000)" "fits_int4 (r_Score res)" "fits_int4 (r_FailedTest res)"
    using assms(2) by (simp_all add: cacheable_def result_args_ok_def)
  moreover have "map_of (xs @ [(k, v)]) k = Some v" if "map_of xs k = None" for xs :: "(string \<times> SubmissionResult \<times> int) list" and k v
    using that by (simp add: map_of_append map_add_def)
  ultimately show ?thesis using assms(1,6) cache_key_text [of X "s_SourceHash sub" m p]
    by (simp add: afterVerdict_cache c PutCachedVerdict_def query_def Let_def)
qed

text \<open>A cached result answers a new row.\<close>

lemma replay_answer:
  assumes "db_ok (w_db w)" and "db_faults (w_db w) = (\<lambda>_. False)" and "cacheable res"
    and "map_of (verdict_cache (w_db w)) (cache_key X (s_SourceHash sub) m p) = Some (res, hits)"
    and "find_row (s_ID sub) (w_db w) = Some r" and "row_status r = StatusQueued" and "test_rows (s_ID sub) (w_db w) = []"
  shows "\<exists>w' t. replay_cached X S sub m p w = (Some (writeJSON 200 (SubmissionBody
     ((scan_row (result_row (replayed (w_now w) sub res) t r))\<lparr>s_Tests := sort_key t_Index (map test_row (r_Tests res))\<rparr>))), w')"
proof -
  let ?k = "cache_key X (s_SourceHash sub) m p" let ?res = "replayed (w_now w) sub res"
  define d1 where "d1 = (w_db w)\<lparr>db_clock := Suc (db_clock (w_db w)), verdict_cache := AList.update ?k (res, hits + 1) (verdict_cache (w_db w))\<rparr>"
  have 1: "on_db (CachedVerdict ?k) w = (Inr (Some res), w\<lparr>w_db := d1\<rparr>)"
    using assms(2,4) by (simp add: on_db_def CachedVerdict_def query_def Let_def d1_def)
  have id: "r_SubmissionID ?res = s_ID sub" "r_Tests ?res = r_Tests res" by (simp_all add: replayed_def)
  obtain v d2 where sv: "SaveResult ?res d1 = (v, d2)" by (cases "SaveResult ?res d1")
  have "v = Inr () \<and> find_row (r_SubmissionID ?res) d2 = Some (result_row ?res (db_now d1) r) \<and>
      test_rows (r_SubmissionID ?res) d2 = sort_key t_Index (map test_row (r_Tests ?res))"
  proof (rule SaveResult_rows [OF _ _ _ _ _ _ _ _ sv])
    show "db_ok d1" using assms(1) by (simp add: d1_def)
    show "find_row (r_SubmissionID ?res) d1 = Some r" using assms(5) by (simp add: d1_def id find_row_def)
    show "row_status r \<noteq> StatusDone" using assms(6) by (simp add: go_simps)
    show "result_ok ?res \<and> result_args_ok ?res" by (rule cacheable_replayed [OF assms(3)])
    show "list_all test_ok (r_Tests ?res)" "distinct (map t_Index (r_Tests ?res))" using assms(3) by (simp_all add: id cacheable_def)
    show "\<not> db_faults d1 (db_clock d1)" using assms(2) by (simp add: d1_def)
    show "test_rows (r_SubmissionID ?res) d1 = []" using assms(7) by (simp add: d1_def id test_rows_def)
  qed
  then have row: "v = Inr ()" "find_row (s_ID sub) d2 = Some (result_row ?res (db_now d1) r)"
    "test_rows (s_ID sub) d2 = sort_key t_Index (map test_row (r_Tests res))" by (simp_all add: id)
  have flt: "db_faults d2 = (\<lambda>_. False)"
    using sv assms(2) by (auto simp: SaveResult_def query_def Let_def update_sub_def d1_def split: if_splits)
  let ?w3 = "afterVerdict X S sub ?res p (w\<lparr>w_db := d2\<rparr>)"
  have "find_row (s_ID sub) (w_db ?w3) = Some (result_row ?res (db_now d1) r)"
    "test_rows (s_ID sub) (w_db ?w3) = sort_key t_Index (map test_row (r_Tests res))" "db_faults (w_db ?w3) = (\<lambda>_. False)"
    using row flt by (simp_all add: find_row_def test_rows_def)
  then obtain n where "GetSubmission (s_ID sub) (w_db ?w3) =
      (Inr ((scan_row (result_row ?res (db_now d1) r))\<lparr>s_Tests := sort_key t_Index (map test_row (r_Tests res))\<rparr>), (w_db ?w3)\<lparr>db_clock := n\<rparr>)"
    using GetSubmission_row by metis
  then show ?thesis using 1 sv row(1)
    by (simp add: replay_cached_def cache_key_def [symmetric] Let_def on_db_def) blast
qed

text \<open>A result for a finished submission changes no row and does to the leaderboard what \<open>Apply\<close> does.\<close>

lemma handleResult_done:
  assumes "redis_hashes (x_redis X)" and "db_ok (w_db w)" and "db_faults (w_db w) = (\<lambda>_. False)"
    and "find_row (r_SubmissionID res) (w_db w) = Some r" and "row_status r = StatusDone"
    and "r_SubmissionID res \<noteq> []" and "result_args_ok (received (w_now w) res)" and "r_Verdict res = VerdictAC"
    and "find (\<lambda>p. p_ID p = row_problem_id r) (problems (w_db w)) = Some p"
    and "find (\<lambda>c. c_ID c = p_ContestID p) (contests (w_db w)) = Some k"
    and "handleResult X S (Some res) w = (resp, w')"
    and "Board.Apply (x_redis X) (p_ContestID p) (row_user_id r) (p_ID p) (stat_of_result (received (w_now w) res))
       (c_ScoringMode k) (c_StartsAt k) (w_redis w) = (ok, c')"
  shows "resp = no_content \<and>
    board_of (x_redis X) (p_ContestID p) (row_user_id r) (server (w_redis w')) = board_of (x_redis X) (p_ContestID p) (row_user_id r) (server c') \<and>
    submissions (w_db w') = submissions (w_db w) \<and> submission_tests (w_db w') = submission_tests (w_db w)"
proof -
  let ?res = "received (w_now w) res" let ?R = "x_redis X" let ?p = "p\<lparr>p_Limits := Normalize (p_Limits p)\<rparr>"
  let ?cid = "p_ContestID p" and ?uid = "row_user_id r"
  let ?sub = "(scan_row r)\<lparr>s_Tests := test_rows (r_SubmissionID res) (w_db w)\<rparr>"
  have id: "r_SubmissionID ?res = r_SubmissionID res" "r_Verdict ?res = VerdictAC" using assms(8) by (simp_all add: received_def)
  have u: "s_UserID ?sub = ?uid" by (simp add: scan_row_def)
  obtain m where fin: "finish_result X S ?res w =
      (no_content, snd (on_redis (ReleaseInFlight ?R ?uid) (afterVerdict X S ?sub ?res ?p (w\<lparr>w_db := (w_db w)\<lparr>db_clock := m\<rparr>\<rparr>))))"
    using finish_result_done [OF assms(2,3) _ assms(5,7,9), of X S] assms(4) unfolding id Let_def by blast
  let ?w3 = "w\<lparr>w_db := (w_db w)\<lparr>db_clock := m\<rparr>\<rparr>" let ?w4 = "afterVerdict X S ?sub ?res ?p ?w3"
  have r: "resp = no_content" "w' = snd (on_redis (ReleaseInFlight ?R ?uid) ?w4)"
    using assms(6,11) fin by (simp_all add: handleResult_def)
  have "board_of ?R ?cid ?uid (server (w_redis w')) = board_of ?R ?cid ?uid (server (w_redis ?w4))"
    by (simp add: r redis_hashes.release_board [OF assms(1)])
  also have "\<dots> = board_of ?R ?cid ?uid (server c')"
    using afterVerdict_board [OF assms(1) id(2), of ?w3 ?p k ?uid S ?sub] assms(3,10,12) by (simp add: u)
  finally show ?thesis using r by simp
qed

subsection \<open>Properties\<close>

text \<open>
  C20: a result reported for a submission that is already \<^verbatim>\<open>DONE\<close> is acknowledged and changes
  neither the submissions nor their tests. On the leaderboard an accepted report counts as
  one more candidate for the participant's best run, and the score is \<^verbatim>\<open>core.RankScore\<close> of the
  standings that result; when the participant already has a run of that problem that is at
  least as fast, as after a repeated report, the standings and the score stay.
\<close>

theorem duplicate_result:
  assumes "redis_hashes (x_redis X)" and "db_ok (w_db w)" and "db_faults (w_db w) = (\<lambda>_. False)"
    and "find_row (r_SubmissionID res) (w_db w) = Some r" and "row_status r = StatusDone"
    and "r_SubmissionID res \<noteq> []" and "result_args_ok (received (w_now w) res)" and "r_Verdict res = VerdictAC"
    and "find (\<lambda>p. p_ID p = row_problem_id r) (problems (w_db w)) = Some p"
    and "find (\<lambda>c. c_ID c = p_ContestID p) (contests (w_db w)) = Some k"
    and "c_ScoringMode k = ModeSpeed \<or> c_ScoringMode k = ModeICPC"
    and "stats_ok (c_StartsAt k) stats" and "length stats < 2000"
    and "stat_ok (c_StartsAt k) (stat_of_result (received (w_now w) res))"
    and "hash_holds (x_redis X) (statsKey (p_ContestID p) (row_user_id r)) (server (w_redis w)) (rows_of (c_StartsAt k) stats)"
    and "fates (w_redis w) = (\<lambda>_. Replied n)"
    and "handleResult X S (Some res) w = (resp, w')"
  shows "status_code resp = 204 \<and> submissions (w_db w') = submissions (w_db w) \<and> submission_tests (w_db w') = submission_tests (w_db w) \<and>
    (let stats' = (case map_of stats (p_ID p) of
           Some old \<Rightarrow> if BestCPUms old \<le> r_CPUms res then stats
             else AList.update (p_ID p) (stat_of_result (received (w_now w) res)) stats
         | None \<Rightarrow> AList.update (p_ID p) (stat_of_result (received (w_now w) res)) stats)
     in hash_holds (x_redis X) (statsKey (p_ContestID p) (row_user_id r)) (server (w_redis w')) (rows_of (c_StartsAt k) stats') \<and>
        ZSCORE (x_redis X) (zKey (p_ContestID p)) (row_user_id r) (server (w_redis w')) =
          Some (RankScore (c_ScoringMode k) stats' (c_StartsAt k)))"
proof -
  let ?R = "x_redis X" let ?cid = "p_ContestID p" and ?uid = "row_user_id r" let ?st = "stat_of_result (received (w_now w) res)"
  obtain c' where ap: "Board.Apply ?R ?cid ?uid (p_ID p) ?st (c_ScoringMode k) (c_StartsAt k) (w_redis w) = (Inr (), c')"
    using apply_replied [OF assms(16)] by metis
  have r: "resp = no_content" and b: "board_of ?R ?cid ?uid (server (w_redis w')) = board_of ?R ?cid ?uid (server c')"
    and rows: "submissions (w_db w') = submissions (w_db w)" "submission_tests (w_db w') = submission_tests (w_db w)"
    using handleResult_done [OF assms(1-10,17) ap] by blast+
  have hg: "HGET ?R (statsKey ?cid ?uid) pid (server (w_redis w')) = HGET ?R (statsKey ?cid ?uid) pid (server c')" for pid
    using b by (auto simp: board_of_def dest: fun_cong)
  have zs: "ZSCORE ?R (zKey ?cid) ?uid (server (w_redis w')) = ZSCORE ?R (zKey ?cid) ?uid (server c')"
    using b by (auto simp: board_of_def dest: fun_cong)
  have k: "hash_holds ?R (statsKey ?cid ?uid) (server c') (rows_of (c_StartsAt k) (keep_best BestCPUms (p_ID p) ?st stats)) \<and>
      ZSCORE ?R (zKey ?cid) ?uid (server c') = Some (RankScore (c_ScoringMode k) (keep_best BestCPUms (p_ID p) ?st stats) (c_StartsAt k))"
    using Apply_refines [OF assms(1,12,13,14,11,15) ap] by blast
  have "BestCPUms ?st = r_CPUms res" by (simp add: stat_of_result_def received_def)
  then have "keep_best BestCPUms (p_ID p) ?st stats = (case map_of stats (p_ID p) of
           Some old \<Rightarrow> if BestCPUms old \<le> r_CPUms res then stats else AList.update (p_ID p) ?st stats
         | None \<Rightarrow> AList.update (p_ID p) ?st stats)"
    by (simp add: keep_best_def split: option.split)
  then show ?thesis using k hg zs r rows unfolding Let_def
    by (simp add: hash_holds_def no_content_def writeJSON_def)
qed

definition sample_problem :: Problem where
  "sample_problem = \<lparr>p_ID = ''p'', p_ContestID = ''c'', p_Slug = ''a'', p_Title = ''A'', p_StatementMD = [], p_Limits = DefaultRunLimits,
     p_Checker = \<lparr>chk_Type = ''token'', chk_Epsilon = Fin 0\<rparr>, p_TestdataVersion = ''v'', p_Points = 100\<rparr>"

definition sample_contest :: Contest where
  "sample_contest = \<lparr>c_ID = ''c'', c_Slug = ''c'', c_Title = ''C'', c_StartsAt = 1, c_EndsAt = 2, c_ScoringMode = ModeSpeed\<rparr>"

definition judged_world :: "ref_state world" where
  "judged_world = (sample_world (empty_db\<lparr>submissions := [done_row\<lparr>row_verdict := Some VerdictWA\<rparr>],
     problems := [sample_problem], contests := [sample_contest]\<rparr>))\<lparr>w_redis := empty_board, w_now := 1 + 3 * Minute_ns\<rparr>"

text \<open>The row of the witness says \<^verbatim>\<open>WA\<close>; a later report says \<^verbatim>\<open>AC\<close>.\<close>

theorem duplicate_result_witness:
  "let res = zero_SubmissionResult\<lparr>r_SubmissionID := ''s'', r_Verdict := VerdictAC, r_CPUms := 12\<rparr>;
       (resp, w') = handleResult sample_ext sample_server (Some res) judged_world
   in status_code resp = 204 \<and> submissions (w_db w') = [done_row\<lparr>row_verdict := Some VerdictWA\<rparr>] \<and>
      ZSCORE ref_redis (zKey ''c'') ''u'' (server (w_redis w')) =
        Some (RankScore ModeSpeed [(''p'', stat_of_result (received (1 + 3 * Minute_ns) res))] 1)"
proof -
  let ?res = "zero_SubmissionResult\<lparr>r_SubmissionID := ''s'', r_Verdict := VerdictAC, r_CPUms := 12\<rparr>"
  let ?r = "done_row\<lparr>row_verdict := Some VerdictWA\<rparr>" let ?w = judged_world
  have X: "x_redis sample_ext = ref_redis" by (simp add: sample_ext_def)
  have d: "w_db ?w = empty_db\<lparr>submissions := [?r], problems := [sample_problem], contests := [sample_contest]\<rparr>"
    "w_now ?w = 1 + 3 * Minute_ns" "w_redis ?w = empty_board" by (simp_all add: judged_world_def sample_world_def)
  have row: "row_id ?r = ''s''" "row_status ?r = StatusDone" "row_problem_id ?r = ''p''" "row_user_id ?r = ''u''"
    by (simp_all add: done_row_def new_row_def sample_submission_def scan_row_def)
  have ok: "db_ok (w_db ?w)"
    by (simp add: d db_ok_def Store.row_ok_def finished_def done_row_def new_row_def known_verdicts_def go_simps)
  have args: "result_args_ok (received (w_now ?w) ?res)"
    by (auto simp: result_args_ok_def received_def zero_SubmissionResult_def Store.truncate_def fits_int4_def go_simps intro!: valid_text_ascii)
  have h: "hash_holds ref_redis (statsKey ''c'' ''u'') (server empty_board) (rows_of 1 [])"
    by (simp add: hash_holds_def rows_of_def ref_redis_def empty_board_def)
  have so: "stat_ok 1 (stat_of_result (received (1 + 3 * Minute_ns) ?res))"
    by (simp add: stat_ok_def stat_of_result_def received_def zero_UserProblemStat_def zero_SubmissionResult_def)
  obtain resp w' where run: "handleResult sample_ext sample_server (Some ?res) ?w = (resp, w')"
    by (cases "handleResult sample_ext sample_server (Some ?res) ?w")
  have a1: "redis_hashes (x_redis sample_ext)" by (simp add: X ref_hashes.redis_hashes_axioms)
  have a2: "db_faults (w_db ?w) = (\<lambda>_. False)" "find_row (r_SubmissionID ?res) (w_db ?w) = Some ?r" "r_SubmissionID ?res \<noteq> []"
      "r_Verdict ?res = VerdictAC" "find (\<lambda>p. p_ID p = row_problem_id ?r) (problems (w_db ?w)) = Some sample_problem"
      "find (\<lambda>c. c_ID c = p_ContestID sample_problem) (contests (w_db ?w)) = Some sample_contest"
    using row by (simp_all add: d empty_db_def find_row_def sample_problem_def sample_contest_def)
  have a3: "c_ScoringMode sample_contest = ModeSpeed \<or> c_ScoringMode sample_contest = ModeICPC"
      "stats_ok (c_StartsAt sample_contest) []" "length ([] :: (string \<times> UserProblemStat) list) < 2000"
      "stat_ok (c_StartsAt sample_contest) (stat_of_result (received (w_now ?w) ?res))"
      "hash_holds (x_redis sample_ext) (statsKey (p_ContestID sample_problem) (row_user_id ?r)) (server (w_redis ?w)) (rows_of (c_StartsAt sample_contest) [])"
      "fates (w_redis ?w) = (\<lambda>_. Replied 2)"
    using so h row(4) by (simp_all add: X d stats_ok_def sample_problem_def sample_contest_def empty_board_def)
  note duplicate_result [OF a1 ok a2(1,2) row(2) a2(3) args a2(4-6) a3 run]
  then show ?thesis using run row(4) by (simp add: Let_def X d sample_problem_def sample_contest_def)
qed

text \<open>
  C19: identical code is judged once: after a verdict other than \<^verbatim>\<open>IE\<close> for a source, the next
  submission of the same source in the same language to the same problem, by anyone, is
  answered at once with that verdict and its readings and tests, and never reaches the queue.
  The key the result is stored under is the key the next submission is looked up under.
\<close>

theorem resubmission_replayed:
  assumes "db_ok (w_db w)" and "db_faults (w_db w) = (\<lambda>_. False)" and "cacheable res"
    and "Langs.Get (s_langs S) (m_ID m) = Some m" and "s_Language sub = m_ID m" and "s_SourceHash sub = h"
    and "r_ImageDigest res = [] \<or> r_ImageDigest res = m_Image m"
    and "map_of (verdict_cache (w_db w)) (cache_key X h m p) = None"
    and "w1 = afterVerdict X S sub res p w"
    and "fst (CreateSubmission (submission_for u p m h idem) (w_db w1)) = Inr sub2" and "test_rows (s_ID sub2) (w_db w1) = []"
  shows "\<exists>full w2. admit X S u idem h m p tests w1 = (writeJSON 200 (SubmissionBody full), w2) \<and>
    s_ID full = s_ID sub2 \<and> s_UserID full = cl_UserID u \<and> s_Status full = r_Status res \<and> s_Verdict full = r_Verdict res \<and>
    s_CPUms full = r_CPUms res \<and> s_MemKB full = r_MemKB res \<and> s_Score full = r_Score res \<and>
    s_FailedTest full = r_FailedTest res \<and> s_Tests full = sort_key t_Index (map test_row (r_Tests res))"
proof -
  let ?x = "submission_for u p m h idem"
  have ok1: "db_ok (w_db w1)" using assms(1) by (simp add: assms(9) db_ok_def)
  have f1: "db_faults (w_db w1) = (\<lambda>_. False)" using assms(2) by (simp add: assms(9))
  have c1: "map_of (verdict_cache (w_db w1)) (cache_key X h m p) = Some (res, 0)"
    using cache_filled [OF assms(2-5,7)] assms(6,8,9) by simp
  obtain d2 where cr: "CreateSubmission ?x (w_db w1) = (Inr sub2, d2)" using assms(10) by (cases "CreateSubmission ?x (w_db w1)") simp
  have d2: "verdict_cache d2 = verdict_cache (w_db w1)" "db_faults d2 = db_faults (w_db w1)"
      "submission_tests d2 = submission_tests (w_db w1)"
    using cr by (auto simp: CreateSubmission_def query_def Let_def split: if_splits)
  have ok2: "db_ok d2" using CreateSubmission_ok [OF ok1, of ?x] cr by simp
  obtain i t where i: "sub2 = ?x\<lparr>s_ID := i, s_Status := StatusQueued, s_CreatedAt := t\<rparr>"
      "submissions d2 = submissions (w_db w1) @ [new_row ?x i t]"
    by (cases rule: CreateSubmission_cases [of ?x "w_db w1"]) (use cr in auto)
  have "new_row ?x i t \<in> set (submissions d2)" "row_id (new_row ?x i t) = i" using i(2) by (simp_all add: new_row_def)
  then obtain q where q: "find_row i d2 = Some q" by (cases "find_row i d2") (auto simp: find_row_def find_None_iff)
  then have row: "find_row (s_ID sub2) d2 = Some (new_row ?x i t)"
    using find_row_unique [OF ok2 q, of "new_row ?x i t"] i by (simp add: new_row_def)
  let ?w = "w1\<lparr>w_db := d2\<rparr>"
  have sh: "s_SourceHash sub2 = h" by (simp add: i(1) submission_for_def)
  obtain w' s where rp: "replay_cached X S sub2 m p ?w = (Some (writeJSON 200 (SubmissionBody
     ((scan_row (result_row (replayed (w_now ?w) sub2 res) s (new_row ?x i t)))\<lparr>s_Tests := sort_key t_Index (map test_row (r_Tests res))\<rparr>))), w')"
    using replay_answer [of ?w res X sub2 m p 0 "new_row ?x i t" S] ok2 f1 assms(3) c1 row sh d2 assms(11)
    by (auto simp: new_row_def test_rows_def)
  have "on_db (CreateSubmission ?x) w1 = (Inr sub2, ?w)" using cr by (simp add: on_db_def)
  then have "admit X S u idem h m p tests w1 = (writeJSON 200 (SubmissionBody
     ((scan_row (result_row (replayed (w_now ?w) sub2 res) s (new_row ?x i t)))\<lparr>s_Tests := sort_key t_Index (map test_row (r_Tests res))\<rparr>)), w')"
    by (simp add: admit_def rp)
  then show ?thesis
    by (intro exI conjI) (assumption, simp_all add: scan_row_def result_row_def replayed_def new_row_def i(1) submission_for_def)
qed

definition catalogue_db :: db where
  "catalogue_db = empty_db\<lparr>users := [\<lparr>u_ID = ''u'', u_Handle = ''h'', u_Email = [], u_PasswordHash = [], u_Role = ''participant'', u_CreatedAt = 0\<rparr>],
     contests := [sample_contest], problems := [sample_problem]\<rparr>"

lemma CreateSubmission_first:
  "submissions d = [] \<Longrightarrow> db_faults d = (\<lambda>_. False) \<Longrightarrow> texts_ok x \<Longrightarrow> references_ok (d\<lparr>db_clock := Suc (db_clock d)\<rparr>) x \<Longrightarrow>
     \<exists>s. fst (CreateSubmission x d) = Inr s"
  by (simp add: CreateSubmission_def query_def Let_def)

theorem resubmission_replayed_witness:
  "let sub = zero_Submission\<lparr>s_Language := ''py'', s_SourceHash := ''68''\<rparr>;
       res = zero_SubmissionResult\<lparr>r_Verdict := VerdictWA, r_Status := StatusDone, r_CPUms := 12\<rparr>;
       w1 = afterVerdict sample_ext sample_server sub res sample_problem (sample_world catalogue_db)
   in \<exists>full w2. admit sample_ext sample_server sample_claims [] ''68'' sample_manifest sample_problem [] w1 =
        (writeJSON 200 (SubmissionBody full), w2) \<and> s_Verdict full = VerdictWA \<and> s_CPUms full = 12"
proof -
  let ?sub = "zero_Submission\<lparr>s_Language := ''py'', s_SourceHash := ''68''\<rparr>"
  let ?res = "zero_SubmissionResult\<lparr>r_Verdict := VerdictWA, r_Status := StatusDone, r_CPUms := 12\<rparr>"
  let ?w = "sample_world catalogue_db" let ?w1 = "afterVerdict sample_ext sample_server ?sub ?res sample_problem ?w"
  let ?x = "submission_for sample_claims sample_problem sample_manifest ''68'' []"
  have ok: "db_ok (w_db ?w)" by (simp add: sample_world_def catalogue_db_def empty_db_def db_ok_def)
  have f: "db_faults (w_db ?w) = (\<lambda>_. False)" by (simp add: sample_world_def catalogue_db_def empty_db_def)
  have ca: "cacheable ?res"
    by (auto simp: cacheable_def result_ok_def result_args_ok_def zero_SubmissionResult_def known_verdicts_def Store.truncate_def
      fits_int4_def go_simps intro!: valid_text_ascii)
  have g: "Langs.Get (s_langs sample_server) (m_ID sample_manifest) = Some sample_manifest"
    by (simp add: Langs.Get_def sample_server_def sample_manifest_def)
  have fr: "users (w_db ?w1) = users catalogue_db \<and> problems (w_db ?w1) = problems catalogue_db \<and> contests (w_db ?w1) = contests catalogue_db"
    by (simp add: afterVerdict_def update_board_def cache_verdict_def go_simps Let_def sample_world_def on_db_def PutCachedVerdict_def query_def
      split: option.split)
  have tx: "texts_ok ?x"
    by (auto simp: texts_ok_def submission_for_def zero_Submission_def sample_problem_def sample_manifest_def intro!: valid_text_ascii)
  have rf: "references_ok (w_db ?w1\<lparr>db_clock := n\<rparr>) ?x" for n
    using fr by (simp add: references_ok_def submission_for_def sample_claims_def sample_problem_def catalogue_db_def sample_contest_def)
  have none: "submissions (w_db ?w1) = []" "submission_tests (w_db ?w1) = []" "db_faults (w_db ?w1) = (\<lambda>_. False)"
    by (simp_all add: sample_world_def catalogue_db_def empty_db_def)
  obtain sub2 where cr: "fst (CreateSubmission ?x (w_db ?w1)) = Inr sub2"
    using CreateSubmission_first [OF none(1,3) tx rf] by blast
  have m: "s_Language ?sub = m_ID sample_manifest" "r_ImageDigest ?res = [] \<or> r_ImageDigest ?res = m_Image sample_manifest"
    "map_of (verdict_cache (w_db ?w)) (cache_key sample_ext ''68'' sample_manifest sample_problem) = None"
    by (simp_all add: sample_manifest_def zero_SubmissionResult_def sample_world_def catalogue_db_def empty_db_def)
  have s: "s_SourceHash ?sub = ''68''" by simp
  have "test_rows (s_ID sub2) (w_db ?w1) = []" unfolding test_rows_def none by simp
  from resubmission_replayed [OF ok f ca g m(1) s m(2,3) refl cr this, of "[]"] show ?thesis
    unfolding Let_def by (elim exE conjE) (intro exI conjI, assumption, simp_all)
qed

end
