(* ===== verification/Race.thy ===== *)
theory Race
  imports Results Effects
begin

section \<open>Submissions that race (\<^verbatim>\<open>internal/api/handlers_submissions.go\<close>)\<close>

text \<open>
  \<open>handleSubmit\<close> again, cut where the handler calls a service: one step of a request is one
  call of the store, of Redis or of the blob directory, so that the steps of any number of
  requests, on any number of API processes, may be interleaved with each other and with
  everything else that changes the database. Run alone, the steps are \<open>handleSubmit\<close>.
\<close>

subsection \<open>The handler in steps\<close>

record submission_request =
  sr_user :: Claims
  sr_problem :: string
  sr_key :: string
  sr_body :: "submitReq option"

datatype stage =
    Checking
  | LookingUp submitReq Manifest
  | ReadingProblem submitReq Manifest
  | ReadingTests submitReq Manifest Problem
  | Storing submitReq Manifest Problem "TestRef list"
  | Inserting Manifest Problem "TestRef list" string
  | Refused store_error
  | AskingCache Manifest Problem "TestRef list" Submission
  | SavingCached Manifest Problem "TestRef list" Submission SubmissionResult
  | Caching Problem Submission SubmissionResult
  | Ranking Problem Submission SubmissionResult
  | Announcing Submission SubmissionResult
  | Rereading Submission
  | Enqueueing Manifest Problem "TestRef list" Submission
  | Answered response

fun submit_step :: "'s ext \<Rightarrow> Server \<Rightarrow> submission_request \<Rightarrow> stage \<Rightarrow> 's world \<Rightarrow> stage \<times> 's world" where
  "submit_step X S q Checking w =
     (case check_request S (sr_body q) of
        Inl err \<Rightarrow> (Answered err, w)
      | Inr (i, m) \<Rightarrow>
          (case rate_limit X S (sr_user q) w of
             (Some err, w1) \<Rightarrow> (Answered err, w1)
           | (None, w1) \<Rightarrow> (if sr_key q = [] then ReadingProblem i m else LookingUp i m, w1)))"
| "submit_step X S q (LookingUp i m) w =
     (case by_key (sr_user q) (sr_key q) w of
        (Some existing, w1) \<Rightarrow> (Answered (writeJSON 200 (SubmissionBody existing)), w1)
      | (None, w1) \<Rightarrow> (ReadingProblem i m, w1))"
| "submit_step X S q (ReadingProblem i m) w =
     (case on_db (GetProblem (sr_problem q)) w of
        (Inl _, w1) \<Rightarrow> (Answered (writeErr 404 ''problem not found''), w1)
      | (Inr p, w1) \<Rightarrow> (ReadingTests i m p, w1))"
| "submit_step X S q (ReadingTests i m p) w =
     (case on_db (ListTestCases (p_ID p)) w of
        (Inl _, w1) \<Rightarrow> (Answered (writeErr 503 ''problem has no test data''), w1)
      | (Inr tests, w1) \<Rightarrow>
          (if tests = [] then Answered (writeErr 503 ''problem has no test data'') else Storing i m p tests, w1))"
| "submit_step X S q (Storing i m p tests) w =
     (let srcHash = source_hash X (in_Source i)
      in case store_source X S (''src/'' @ srcHash) (normalize_newlines (in_Source i)) w of
           (False, w1) \<Rightarrow> (Answered (writeErr 500 ''could not store source''), w1)
         | (True, w1) \<Rightarrow> (Inserting m p tests srcHash, w1))"
| "submit_step X S q (Inserting m p tests srcHash) w =
     (case on_db (CreateSubmission (submission_for (sr_user q) p m srcHash (sr_key q))) w of
        (Inl e, w1) \<Rightarrow> (Refused e, w1)
      | (Inr sub, w1) \<Rightarrow> (AskingCache m p tests sub, w1))"
| "submit_step X S q (Refused e) w =
     (case by_key (sr_user q) (sr_key q) w of
        (Some existing, w1) \<Rightarrow> (Answered (writeJSON 200 (SubmissionBody existing)), w1)
      | (None, w1) \<Rightarrow> (Answered (writeErr 500 ''could not create submission''), w1))"
| "submit_step X S q (AskingCache m p tests sub) w =
     (case on_db (CachedVerdict (VerdictCacheKey X (s_SourceHash sub) (m_ID m) (m_Image m) (p_TestdataVersion p) (limits_for m p))) w of
        (Inr (Some cached), w1) \<Rightarrow> (SavingCached m p tests sub cached, w1)
      | (_, w1) \<Rightarrow> (Enqueueing m p tests sub, w1))"
| "submit_step X S q (SavingCached m p tests sub cached) w =
     (let res = replayed (w_now w) sub cached
      in case on_db (SaveResult res) w of
           (Inl _, w1) \<Rightarrow> (Enqueueing m p tests sub, w1)
         | (Inr _, w1) \<Rightarrow> (Caching p sub res, w1))"
| "submit_step X S q (Caching p sub res) w = (Ranking p sub res, cache_verdict X S sub res p w)"
| "submit_step X S q (Ranking p sub res) w = (Announcing sub res, update_board X sub res p w)"
| "submit_step X S q (Announcing sub res) w =
     (Rereading sub, publishEvent X (s_ID sub)
        (VerdictEvent (s_ID sub) StatusDone (r_Verdict res) (r_CPUms res) (r_MemKB res) (r_FailedTest res) (r_CompileLog res)) w)"
| "submit_step X S q (Rereading sub) w =
     (case on_db (GetSubmission (s_ID sub)) w of
        (full, w1) \<Rightarrow>
          (Answered (writeJSON 200 (SubmissionBody (case full of Inr x \<Rightarrow> x | Inl _ \<Rightarrow> zero_Submission))), w1))"
| "submit_step X S q (Enqueueing m p tests sub) w =
     (Answered (writeJSON 202 (SubmissionBody sub)), enqueue X S (job_for (sr_user q) p m tests sub (w_now w)) w)"
| "submit_step X S q (Answered resp) w = (Answered resp, w)"

fun submit_steps :: "nat \<Rightarrow> 's ext \<Rightarrow> Server \<Rightarrow> submission_request \<Rightarrow> stage \<times> 's world \<Rightarrow> stage \<times> 's world" where
  "submit_steps 0 X S q c = c"
| "submit_steps (Suc n) X S q c = submit_steps n X S q (submit_step X S q (fst c) (snd c))"

lemma submit_steps_Answered [simp]: "submit_steps n X S q (Answered resp, w) = (Answered resp, w)"
  by (induction n) simp_all

text \<open>
  The processes \<open>S n\<close> that serve the requests \<open>qs n\<close>, and everything else: any statement of
  another request, of the reconciler or of a result, on the database, and any change of the
  other services.
\<close>

inductive race :: "'s ext \<Rightarrow> (nat \<Rightarrow> Server) \<Rightarrow> (nat \<Rightarrow> submission_request) \<Rightarrow>
    's world \<times> (nat \<Rightarrow> stage) \<Rightarrow> 's world \<times> (nat \<Rightarrow> stage) \<Rightarrow> bool"
  for X S qs where
  request: "submit_step X (S n) (qs n) (st n) w = (s', w') \<Longrightarrow> race X S qs (w, st) (w', st(n := s'))"
| others: "db_step (w_db w) (w_db w') \<Longrightarrow> race X S qs (w, st) (w', st)"

subsection \<open>Run alone, the steps are the handler\<close>

lemma submit_steps_numeral:
  "submit_steps (numeral k) X S q (s, w) = submit_steps (pred_numeral k) X S q (submit_step X S q s w)"
  by (simp add: numeral_eq_Suc)

lemma submit_steps_more:
  "submit_steps n X S q c = (Answered resp, w') \<Longrightarrow> submit_steps (n + k) X S q c = (Answered resp, w')"
  by (induction n arbitrary: c) (auto simp: surjective_pairing [of c])

lemma steps_from_cache:
  assumes "replay_cached X S sub m p w = (ans, w')"
  shows "submit_steps 6 X S q (AskingCache m p tests sub, w) =
    (case ans of Some a \<Rightarrow> (Answered a, w')
     | None \<Rightarrow> (Answered (writeJSON 202 (SubmissionBody sub)), enqueue X S (job_for (sr_user q) p m tests sub (w_now w')) w'))"
proof -
  let ?key = "VerdictCacheKey X (s_SourceHash sub) (m_ID m) (m_Image m) (p_TestdataVersion p) (limits_for m p)"
  obtain c w1 where 1: "on_db (CachedVerdict ?key) w = (c, w1)" by (cases "on_db (CachedVerdict ?key) w")
  show ?thesis
  proof (cases "\<exists>cached. c = Inr (Some cached)")
    case False
    then have "ans = None \<and> w' = w1" and "submit_step X S q (AskingCache m p tests sub) w = (Enqueueing m p tests sub, w1)"
      using assms 1 by (auto simp: replay_cached_def split: sum.splits option.splits)
    then show ?thesis by (simp add: submit_steps_numeral)
  next
    case True
    then obtain cached where c: "c = Inr (Some cached)" by blast
    let ?res = "replayed (w_now w1) sub cached"
    obtain v w2 where 2: "on_db (SaveResult ?res) w1 = (v, w2)" by (cases "on_db (SaveResult ?res) w1")
    obtain g w4 where 4: "on_db (GetSubmission (s_ID sub)) (afterVerdict X S sub ?res p w2) = (g, w4)"
      by (cases "on_db (GetSubmission (s_ID sub)) (afterVerdict X S sub ?res p w2)")
    have "submit_steps 6 X S q (AskingCache m p tests sub, w) = submit_steps 4 X S q (submit_step X S q (SavingCached m p tests sub cached) w1)"
      using 1 c by (simp add: submit_steps_numeral del: submit_step.simps(9))
    also have "\<dots> = (case v of Inl _ \<Rightarrow> (Answered (writeJSON 202 (SubmissionBody sub)), enqueue X S (job_for (sr_user q) p m tests sub (w_now w2)) w2)
        | Inr _ \<Rightarrow> (Answered (writeJSON 200 (SubmissionBody (case g of Inr x \<Rightarrow> x | Inl _ \<Rightarrow> zero_Submission))), w4))"
      using 2 4 unfolding afterVerdict_def by (cases v) (simp_all add: submit_steps_numeral)
    finally show ?thesis using assms 1 2 4 c by (cases v) (auto simp: replay_cached_def Let_def)
  qed
qed

lemma steps_from_insert:
  assumes "admit X S (sr_user q) (sr_key q) h m p tests w = (resp, w')"
  shows "submit_steps 7 X S q (Inserting m p tests h, w) = (Answered resp, w')"
proof -
  let ?x = "submission_for (sr_user q) p m h (sr_key q)"
  obtain c w1 where 1: "on_db (CreateSubmission ?x) w = (c, w1)" by (cases "on_db (CreateSubmission ?x) w")
  show ?thesis
  proof (cases c)
    case (Inl e)
    obtain b w2 where b: "by_key (sr_user q) (sr_key q) w1 = (b, w2)" by (cases "by_key (sr_user q) (sr_key q) w1")
    show ?thesis using assms 1 Inl b by (cases b) (auto simp: admit_def submit_steps_numeral)
  next
    case (Inr sub)
    obtain a w2 where a: "replay_cached X S sub m p w1 = (a, w2)" by (cases "replay_cached X S sub m p w1")
    have "submit_steps 7 X S q (Inserting m p tests h, w) = submit_steps 6 X S q (AskingCache m p tests sub, w1)"
      using 1 Inr by (subst submit_steps_numeral) simp
    then show ?thesis using assms 1 Inr a steps_from_cache [OF a, of q tests] by (cases a) (auto simp: admit_def)
  qed
qed

lemma steps_from_problem:
  assumes "accept_source X S (sr_user q) (sr_problem q) (sr_key q) i m w = (resp, w')"
  shows "submit_steps 10 X S q (ReadingProblem i m, w) = (Answered resp, w')"
proof -
  obtain c w1 where 1: "catalogue (sr_problem q) w = (c, w1)" by (cases "catalogue (sr_problem q) w")
  obtain r1 v1 where p: "on_db (GetProblem (sr_problem q)) w = (r1, v1)" by (cases "on_db (GetProblem (sr_problem q)) w")
  have three: "(10::nat) = Suc (Suc (Suc 7))" by simp
  show ?thesis
  proof (cases c)
    case (Inl e)
    have "resp = e \<and> w' = w1" using assms 1 Inl by (simp add: accept_source_def)
    then have "submit_steps 2 X S q (ReadingProblem i m, w) = (Answered resp, w')"
      using 1 Inl p by (auto simp: catalogue_def submit_steps_numeral split: sum.splits prod.splits if_splits)
    from submit_steps_more [OF this, of 8] show ?thesis by simp
  next
    case (Inr pt)
    obtain p' tests where pt: "pt = (p', tests)" by (cases pt)
    let ?h = "source_hash X (in_Source i)"
    obtain b w2 where 2: "store_source X S (''src/'' @ ?h) (normalize_newlines (in_Source i)) w1 = (b, w2)"
      by (cases "store_source X S (''src/'' @ ?h) (normalize_newlines (in_Source i)) w1")
    have "submit_step X S q (ReadingProblem i m) w = (ReadingTests i m p', v1) \<and>
        submit_step X S q (ReadingTests i m p') v1 = (Storing i m p' tests, w1)"
      using 1 Inr pt p by (auto simp: catalogue_def split: sum.splits prod.splits if_splits)
    then have "submit_steps 10 X S q (ReadingProblem i m, w) = submit_steps 7 X S q (submit_step X S q (Storing i m p' tests) w1)"
      unfolding three submit_steps.simps fst_conv snd_conv by (simp only: fst_conv snd_conv)
    then show ?thesis using assms 1 2 Inr pt steps_from_insert [of X S q ?h m p' tests w2 resp w']
      by (cases b) (auto simp: accept_source_def Let_def)
  qed
qed

lemma steps_are_handler:
  assumes "handleSubmit X S (sr_user q) (sr_problem q) (sr_key q) (sr_body q) w = (resp, w')"
  shows "submit_steps 12 X S q (Checking, w) = (Answered resp, w')"
proof -
  have n: "(12::nat) = Suc (10 + 1)" "(12::nat) = Suc (Suc 10)" by simp_all
  show ?thesis
  proof (cases "check_request S (sr_body q)")
    case (Inl e)
    then show ?thesis using assms by (simp add: handleSubmit_def submit_steps_numeral)
  next
    case (Inr x)
    obtain i m where x: "x = (i, m)" by (cases x)
    obtain e w1 where 1: "rate_limit X S (sr_user q) w = (e, w1)" by (cases "rate_limit X S (sr_user q) w")
    show ?thesis
    proof (cases e)
      case (Some err)
      then show ?thesis using assms Inr x 1 by (simp add: handleSubmit_def submit_steps_numeral)
    next
      case None
      show ?thesis
      proof (cases "sr_key q = []")
        case True
        then have "accept_source X S (sr_user q) (sr_problem q) (sr_key q) i m w1 = (resp, w')"
          using assms Inr x 1 None by (simp add: handleSubmit_def)
        from submit_steps_more [OF steps_from_problem [OF this], of 1] show ?thesis
          using Inr x 1 None True unfolding n(1) submit_steps.simps by simp
      next
        case False
        obtain b w2 where 2: "by_key (sr_user q) (sr_key q) w1 = (b, w2)" by (cases "by_key (sr_user q) (sr_key q) w1")
        have "submit_steps 12 X S q (Checking, w) = submit_steps 10 X S q (submit_step X S q (LookingUp i m) w1)"
          unfolding n(2) submit_steps.simps using Inr x 1 None False by simp
        then show ?thesis using assms Inr x 1 None False 2 steps_from_problem [of X S q i m w2 resp w']
          by (cases b) (auto simp: handleSubmit_def)
      qed
    qed
  qed
qed

subsection \<open>What a request has obtained\<close>

text \<open>The row a request has inserted, and the submission its answer shows.\<close>

fun created :: "stage \<Rightarrow> Submission option" where
  "created (AskingCache m p tests sub) = Some sub"
| "created (SavingCached m p tests sub cached) = Some sub"
| "created (Caching p sub res) = Some sub"
| "created (Ranking p sub res) = Some sub"
| "created (Announcing sub res) = Some sub"
| "created (Rereading sub) = Some sub"
| "created (Enqueueing m p tests sub) = Some sub"
| "created (Answered resp) = (case resp_body resp of SubmissionBody sub \<Rightarrow> if status_code resp = 202 then Some sub else None | _ \<Rightarrow> None)"
| "created _ = None"

fun answer :: "stage \<Rightarrow> Submission option" where
  "answer (Answered resp) = (case resp_body resp of SubmissionBody sub \<Rightarrow> Some sub | _ \<Rightarrow> None)"
| "answer _ = None"

lemma answer_shows: "answer (Answered resp) = Some sub \<longleftrightarrow> resp_body resp = SubmissionBody sub"
  by (simp split: body.split)

abbreviation own_row :: "submission_request \<Rightarrow> string \<Rightarrow> db \<Rightarrow> bool" where
  "own_row q i d \<equiv> has_row (cl_UserID (sr_user q)) (nullStr (sr_key q)) i d"

definition stage_ok :: "submission_request \<Rightarrow> db \<Rightarrow> stage \<Rightarrow> bool" where
  "stage_ok q d s \<longleftrightarrow> (\<forall>sub. created s = Some sub \<longrightarrow> own_row q (s_ID sub) d) \<and>
     (\<forall>sub. answer s = Some sub \<longrightarrow> sub = zero_Submission \<or> own_row q (s_ID sub) d)"

lemma stage_ok_mono: "stage_ok q d s \<Longrightarrow> db_step\<^sup>*\<^sup>* d d' \<Longrightarrow> stage_ok q d' s"
  using has_row_reach unfolding stage_ok_def by blast

lemma stage_ok_error [simp]: "stage_ok q d (Answered (writeErr c m))"
  by (simp add: stage_ok_def writeErr_def writeJSON_def)

lemma stage_ok_show: "own_row q (s_ID sub) d \<Longrightarrow> stage_ok q d (Answered (writeJSON c (SubmissionBody sub)))"
  by (simp add: stage_ok_def writeJSON_def)

lemma by_key_own:
  assumes "by_key (sr_user q) (sr_key q) w = (Some sub, w')"
  shows "own_row q (s_ID sub) (w_db w) \<and> submissions (w_db w') = submissions (w_db w)"
proof -
  have "sr_key q \<noteq> []" using assms by (auto simp: by_key_def on_db_def FindByIdempotencyKey_def)
  moreover obtain r where "r \<in> set (submissions (w_db w))" "sub = scan_row r" "row_user_id r = cl_UserID (sr_user q)"
      "row_idempotency_key r = Some (sr_key q)"
    using by_key_Some [OF assms] by blast
  ultimately have "own_row q (s_ID sub) (w_db w)" by (auto simp: has_row_def nullStr_def scan_row_def)
  then show ?thesis using by_key_submissions [of "sr_user q" "sr_key q" w] assms by simp
qed

lemma by_key_evolves: "by_key u idem w = (b, w') \<Longrightarrow> evolves w w'"
  by (auto simp: by_key_def effect_intros split: prod.splits sum.splits option.splits dest: on_db_evolves)

lemma rate_limit_evolves: "rate_limit X S u w = (e, w') \<Longrightarrow> evolves w w'"
  by (drule rate_limit_frame) (auto intro: evolves_same_db)

lemma store_source_evolves: "store_source X S ref src w = (b, w') \<Longrightarrow> evolves w w'"
  by (drule store_source_frame) (auto intro: evolves_same_db)

lemma enqueue_evolves: "evolves w (enqueue X S job w)"
  by (rule evolves_same_db) (simp add: enqueue_def)

lemmas stage_evolves = by_key_evolves rate_limit_evolves store_source_evolves

lemma submit_step_evolves: "submit_step X S q s w = (s', w') \<Longrightarrow> evolves w w'"
  by (cases s)
    (auto simp: Let_def effect_intros cache_verdict_evolves update_board_evolves publishEvent_evolves enqueue_evolves
      split: prod.splits sum.splits option.splits bool.splits dest: on_db_evolves stage_evolves)

text \<open>A request obtains a row only by inserting it, under a new identifier and a new key.\<close>

definition inserted :: "submission_request \<Rightarrow> string \<Rightarrow> db \<Rightarrow> db \<Rightarrow> bool" where
  "inserted q i d d' \<longleftrightarrow> own_row q i d' \<and> (\<forall>r \<in> set (submissions d). row_id r \<noteq> i) \<and>
     \<not> (\<exists>r \<in> set (submissions d). keyed (sr_user q) (sr_key q) r)"

lemma insert_created:
  assumes "on_db (CreateSubmission (submission_for (sr_user q) p m h (sr_key q))) w = (Inr sub, w')"
  shows "inserted q (s_ID sub) (w_db w) (w_db w')"
proof -
  let ?x = "submission_for (sr_user q) p m h (sr_key q)"
  have f: "fst (CreateSubmission ?x (w_db w)) = Inr sub" "snd (CreateSubmission ?x (w_db w)) = w_db w'"
    using on_db_frame(4,5) [of "CreateSubmission ?x" w] assms by simp_all
  show ?thesis
  proof (cases rule: CreateSubmission_cases [of ?x "w_db w"])
    case (refused e)
    then show ?thesis using f by simp
  next
    case (created i t)
    then show ?thesis using f
      by (auto simp: inserted_def has_row_def new_row_def submission_for_def keyed_def nullStr_def)
  qed
qed

lemma submit_step_created:
  assumes "submit_step X S q s w = (s', w')" and "created s' = Some sub"
  shows "created s = Some sub \<or> inserted q (s_ID sub) (w_db w) (w_db w')"
proof (cases "\<exists>m p tests h. s = Inserting m p tests h")
  case True
  then obtain m p tests h where s: "s = Inserting m p tests h" by blast
  have "on_db (CreateSubmission (submission_for (sr_user q) p m h (sr_key q))) w = (Inr sub, w')"
    using assms unfolding s by (auto split: prod.splits sum.splits)
  then show ?thesis by (blast dest: insert_created)
next
  case False
  show ?thesis
  proof (cases s)
    case Checking
    have "status_code e \<noteq> 202" if "check_request S (sr_body q) = Inl e" for e
      using that by (auto simp: check_request_def writeErr_def writeJSON_def split: option.splits if_splits)
    moreover have "status_code e \<noteq> 202" if "rate_limit X S (sr_user q) w = (Some e, w1)" for e w1
      using that by (auto simp: rate_limit_def writeErr_def writeJSON_def split: prod.splits if_splits)
    ultimately show ?thesis using assms Checking
      by (auto split: sum.splits prod.splits option.splits if_splits body.splits)
  qed (use False assms in \<open>auto simp: Let_def writeErr_def writeJSON_def split: sum.splits prod.splits option.splits if_splits bool.splits\<close>)
qed

lemma GetSubmission_id: "fst (GetSubmission i d) = Inr s \<Longrightarrow> s_ID s = i"
  by (auto simp: GetSubmission_def query_def Let_def find_row_def find_Some_iff scan_row_def split: if_splits option.splits)

lemma error_no_submission:
  "check_request S inp = Inl e \<Longrightarrow> resp_body e \<noteq> SubmissionBody sub"
  "rate_limit X S u w = (Some e, w') \<Longrightarrow> resp_body e \<noteq> SubmissionBody sub"
  by (auto simp: check_request_def rate_limit_def writeErr_def writeJSON_def split: option.splits prod.splits if_splits)

lemma submit_step_answer:
  assumes "submit_step X S q s w = (s', w')" and "stage_ok q (w_db w) s" and "answer s' = Some sub"
  shows "sub = zero_Submission \<or> own_row q (s_ID sub) (w_db w)"
proof (cases s)
  case Checking
  have "\<exists>e. s' = Answered e \<and> (check_request S (sr_body q) = Inl e \<or> (\<exists>w1. rate_limit X S (sr_user q) w = (Some e, w1)))"
    using assms(1,3) Checking by (auto split: sum.splits prod.splits option.splits if_splits)
  then show ?thesis using assms(3) error_no_submission answer_shows by metis
next
  case (LookingUp i m)
  then show ?thesis using assms(1,3) by (auto simp: writeJSON_def split: prod.splits option.splits dest: by_key_own)
next
  case (Refused e)
  then show ?thesis using assms(1,3) by (auto simp: writeJSON_def writeErr_def split: prod.splits option.splits dest: by_key_own)
next
  case (Rereading x)
  obtain full w1 where g: "on_db (GetSubmission (s_ID x)) w = (full, w1)" by (cases "on_db (GetSubmission (s_ID x)) w")
  have x: "own_row q (s_ID x) (w_db w)" using assms(2) Rereading by (simp add: stage_ok_def)
  have "sub = (case full of Inr y \<Rightarrow> y | Inl _ \<Rightarrow> zero_Submission)" using assms(1,3) Rereading g by (auto simp: writeJSON_def)
  then show ?thesis using GetSubmission_id [of "s_ID x" "w_db w" sub] on_db_frame(5) [of "GetSubmission (s_ID x)" w] g x
    by (cases full) simp_all
qed (use assms in \<open>auto simp: Let_def stage_ok_def writeErr_def writeJSON_def split: sum.splits prod.splits option.splits if_splits bool.splits\<close>)

lemma submit_step_ok:
  assumes "submit_step X S q s w = (s', w')" and "stage_ok q (w_db w) s"
  shows "stage_ok q (w_db w') s'"
proof -
  note later = evolves_has_row [OF submit_step_evolves [OF assms(1)]]
  have "own_row q (s_ID sub) (w_db w')" if "created s' = Some sub" for sub
    using submit_step_created [OF assms(1) that] assms(2) later by (auto simp: stage_ok_def inserted_def)
  moreover have "sub = zero_Submission \<or> own_row q (s_ID sub) (w_db w')" if "answer s' = Some sub" for sub
    using submit_step_answer [OF assms that] later by blast
  ultimately show ?thesis by (simp add: stage_ok_def)
qed

subsection \<open>The invariant of a race\<close>

definition race_ok :: "(nat \<Rightarrow> submission_request) \<Rightarrow> 's world \<times> (nat \<Rightarrow> stage) \<Rightarrow> bool" where
  "race_ok qs = (\<lambda>(w, st). db_ok (w_db w) \<and> (\<forall>n. stage_ok (qs n) (w_db w) (st n)) \<and>
     (\<forall>n m a b. n \<noteq> m \<longrightarrow> created (st n) = Some a \<longrightarrow> created (st m) = Some b \<longrightarrow> s_ID a \<noteq> s_ID b))"

lemma race_okD:
  assumes "race_ok qs (w, st)"
  shows "db_ok (w_db w)" and "stage_ok (qs n) (w_db w) (st n)"
    and "n \<noteq> m \<Longrightarrow> created (st n) = Some a \<Longrightarrow> created (st m) = Some b \<Longrightarrow> s_ID a \<noteq> s_ID b"
  using assms by (simp_all add: race_ok_def)

text \<open>Requests that have inserted nothing and are not answered, such as those that just arrived.\<close>

definition unserved :: "(nat \<Rightarrow> stage) \<Rightarrow> bool" where
  "unserved st \<longleftrightarrow> (\<forall>n. created (st n) = None \<and> answer (st n) = None)"

lemma unserved_arrived: "unserved (\<lambda>_. Checking)"
  by (simp add: unserved_def)

lemma race_ok_start: "db_ok (w_db w) \<Longrightarrow> unserved st \<Longrightarrow> race_ok qs (w, st)"
  by (simp add: race_ok_def stage_ok_def unserved_def)

lemma race_ok_request:
  assumes "race_ok qs (w, st)" and "submit_step X S (qs n) (st n) w = (s', w')"
  shows "race_ok qs (w', st(n := s'))"
proof -
  have e: "evolves w w'" by (rule submit_step_evolves [OF assms(2)])
  have ok: "db_ok (w_db w)" "stage_ok (qs m) (w_db w) (st m)" for m by (rule race_okD [OF assms(1)])+
  have d: "db_ok (w_db w')" by (rule evolves_ok [OF e ok(1)])
  have s: "stage_ok (qs m) (w_db w') ((st(n := s')) m)" for m
    using submit_step_ok [OF assms(2) ok(2)] stage_ok_mono [OF ok(2)] e by (simp add: evolves_def)
  have new: "s_ID a \<noteq> s_ID b" if "m \<noteq> n" "created s' = Some a" "created (st m) = Some b" for m a b
  proof -
    have "own_row (qs m) (s_ID b) (w_db w)" using ok(2) [of m] that(3) by (simp add: stage_ok_def)
    then have "s_ID a \<noteq> s_ID b" if "inserted (qs n) (s_ID a) (w_db w) (w_db w')" using that by (auto simp: inserted_def has_row_def)
    moreover have "s_ID a \<noteq> s_ID b" if "created (st n) = Some a"
      using race_okD(3) [OF assms(1)] that \<open>m \<noteq> n\<close> \<open>created (st m) = Some b\<close> by metis
    ultimately show ?thesis using submit_step_created [OF assms(2) that(2)] by blast
  qed
  have "s_ID a \<noteq> s_ID b" if "k \<noteq> m" "created ((st(n := s')) k) = Some a" "created ((st(n := s')) m) = Some b" for k m a b
  proof -
    consider "k = n" "m \<noteq> n" | "k \<noteq> n" "m = n" | "k \<noteq> n" "m \<noteq> n" using \<open>k \<noteq> m\<close> by blast
    then show ?thesis
    proof cases
      case 1
      then show ?thesis using new [of m a b] that(2,3) by simp
    next
      case 2
      then show ?thesis using new [of k b a] that(2,3) by fastforce
    next
      case 3
      then show ?thesis using race_okD(3) [OF assms(1) that(1)] that(2,3) by simp
    qed
  qed
  with d s show ?thesis unfolding race_ok_def prod.case by blast
qed

lemma race_ok_step: "race X S qs c c' \<Longrightarrow> race_ok qs c \<Longrightarrow> race_ok qs c'"
proof (induction rule: race.induct)
  case (request n st w s' w')
  then show ?case using race_ok_request by blast
next
  case (others w w' st)
  then have "db_step\<^sup>*\<^sup>* (w_db w) (w_db w')" by simp
  then show ?case using others db_reach_ok stage_ok_mono unfolding race_ok_def by blast
qed

lemma race_ok_reach: "(race X S qs)\<^sup>*\<^sup>* (w, st) c \<Longrightarrow> db_ok (w_db w) \<Longrightarrow> unserved st \<Longrightarrow> race_ok qs c"
  by (induction rule: rtranclp_induct) (auto intro: race_ok_start race_ok_step)

text \<open>Two requests of one user with one key have the same row.\<close>

definition same_request :: "submission_request \<Rightarrow> submission_request \<Rightarrow> bool" where
  "same_request q q' \<longleftrightarrow> cl_UserID (sr_user q) = cl_UserID (sr_user q') \<and> sr_key q = sr_key q' \<and> sr_key q \<noteq> []"

lemma same_request_row:
  "db_ok d \<Longrightarrow> same_request q q' \<Longrightarrow> own_row q i d \<Longrightarrow> own_row q' j d \<Longrightarrow> i = j"
  by (auto simp: same_request_def nullStr_def dest: has_row_key)

lemma refused_finds_winner:
  assumes "db_ok (w_db w)" and "same_request q q'" and "own_row q' i (w_db w)" and "\<not> db_faults (w_db w) (db_clock (w_db w))"
  shows "\<exists>sub w'. by_key (sr_user q) (sr_key q) w = (Some sub, w') \<and> s_ID sub = i"
proof -
  obtain r where r: "r \<in> set (submissions (w_db w))" "row_id r = i" "keyed (sr_user q) (sr_key q) r"
    using assms(2,3) by (auto simp: has_row_def same_request_def keyed_def nullStr_def)
  from by_key_found [OF assms(1) r(1,3) assms(4)] r(2) show ?thesis
    by (cases "by_key (sr_user q) (sr_key q) w") (auto simp: scan_row_def)
qed

subsection \<open>Every request is answered\<close>

text \<open>One request, with the state of the world it finds at each of its steps.\<close>

fun interleaved :: "'s ext \<Rightarrow> Server \<Rightarrow> submission_request \<Rightarrow> stage \<Rightarrow> 's world list \<Rightarrow> stage" where
  "interleaved X S q s [] = s"
| "interleaved X S q s (w # ws) = interleaved X S q (fst (submit_step X S q s w)) ws"

fun remaining :: "stage \<Rightarrow> nat" where
  "remaining Checking = 12"
| "remaining (LookingUp i m) = 11"
| "remaining (ReadingProblem i m) = 10"
| "remaining (ReadingTests i m p) = 9"
| "remaining (Storing i m p tests) = 8"
| "remaining (Inserting m p tests h) = 7"
| "remaining (AskingCache m p tests sub) = 6"
| "remaining (SavingCached m p tests sub cached) = 5"
| "remaining (Caching p sub res) = 4"
| "remaining (Ranking p sub res) = 3"
| "remaining (Announcing sub res) = 2"
| "remaining (Rereading sub) = 1"
| "remaining (Enqueueing m p tests sub) = 1"
| "remaining (Refused e) = 1"
| "remaining (Answered resp) = 0"

lemma remaining_0: "remaining s = 0 \<longleftrightarrow> (\<exists>resp. s = Answered resp)"
  by (cases s) simp_all

lemma submit_step_progress: "remaining (fst (submit_step X S q s w)) \<le> remaining s - 1"
  by (cases s) (auto simp: Let_def split: sum.splits prod.splits option.splits if_splits bool.splits)

lemma interleaved_answered: "remaining s \<le> length ws \<Longrightarrow> \<exists>resp. interleaved X S q s ws = Answered resp"
proof (induction ws arbitrary: s)
  case Nil
  then show ?case by (simp add: remaining_0)
next
  case (Cons w ws)
  then show ?case using submit_step_progress [of X S q s w] by simp
qed

subsection \<open>Properties\<close>



text \<open>
  C7: requests that race with the same idempotency key, on any number of API processes and
  interleaved call by call with each other and with every other statement: all answers that
  show a submission show the same one, it is in the table and belongs to the caller, at most
  one of the requests has inserted a row, and a request that looks for its key, before or
  after its own insert was refused, is answered with the row of the one that won.
\<close>

theorem submit_race:
  assumes "(race X S qs)\<^sup>*\<^sup>* (w0, st0) (w, st)" and "db_ok (w_db w0)" and "unserved st0" and "same_request (qs n) (qs m)"
  shows "(answer (st n) = Some a \<and> a \<noteq> zero_Submission \<longrightarrow> own_row (qs n) (s_ID a) (w_db w) \<and>
       (answer (st m) = Some b \<and> b \<noteq> zero_Submission \<longrightarrow> s_ID a = s_ID b)) \<and>
    (created (st m) = Some b \<longrightarrow> (created (st n) \<noteq> None \<longrightarrow> n = m) \<and>
       (st n \<in> {Refused e, LookingUp i l} \<and> \<not> db_faults (w_db w) (db_clock (w_db w)) \<longrightarrow>
          (\<exists>sub w'. submit_step X (S n) (qs n) (st n) w = (Answered (writeJSON 200 (SubmissionBody sub)), w') \<and> s_ID sub = s_ID b)))"
proof -
  note ok = race_okD [OF race_ok_reach [OF assms(1-3)]]
  have shown: "own_row (qs k) (s_ID x) (w_db w)" if "answer (st k) = Some x" "x \<noteq> zero_Submission" for k x
    using ok(2) [of k] that by (auto simp: stage_ok_def)
  have made: "own_row (qs k) (s_ID x) (w_db w)" if "created (st k) = Some x" for k x
    using ok(2) [of k] that by (auto simp: stage_ok_def)
  have once: "n = m" if "created (st m) = Some b" "created (st n) = Some x" for x
    using ok(3) [of n m x b] that same_request_row [OF ok(1) assms(4) made [OF that(2)] made [OF that(1)]] by blast
  have found: "\<exists>sub w'. submit_step X (S n) (qs n) (st n) w = (Answered (writeJSON 200 (SubmissionBody sub)), w') \<and> s_ID sub = s_ID b"
    if "created (st m) = Some b" "st n \<in> {Refused e, LookingUp i l}" "\<not> db_faults (w_db w) (db_clock (w_db w))"
    using refused_finds_winner [OF ok(1) assms(4) made [OF that(1)] that(3)] that(2) by auto
  have one: "s_ID a = s_ID b" if "answer (st n) = Some a" "a \<noteq> zero_Submission" "answer (st m) = Some b" "b \<noteq> zero_Submission"
    by (rule same_request_row [OF ok(1) assms(4) shown [OF that(1,2)] shown [OF that(3,4)]])
  show ?thesis
  proof ((intro conjI impI; (elim conjE)?), goal_cases)
    case 3
    then show ?case using once by blast
  qed (rule shown one found; assumption)+
qed

text \<open>Two requests with the key \<^verbatim>\<open>k\<close> insert one after the other; the second is refused and given the
  submission of the first.\<close>

theorem submit_race_witness:
  "let q = \<lparr>sr_user = sample_claims, sr_problem = ''p'', sr_key = ''k'', sr_body = None\<rparr>;
       s = Inserting sample_manifest sample_problem [] ''68'';
       (s0, w1) = submit_step sample_ext sample_server q s (sample_world catalogue_db);
       (s1, w2) = submit_step sample_ext sample_server q s w1
   in s1 = Refused UniqueViolation \<and>
      (\<exists>sub w'. submit_step sample_ext sample_server q s1 w2 = (Answered (writeJSON 200 (SubmissionBody sub)), w') \<and>
         map_option s_ID (created s0) = Some (s_ID sub))"
proof -
  let ?q = "\<lparr>sr_user = sample_claims, sr_problem = ''p'', sr_key = ''k'', sr_body = None\<rparr>"
  let ?s = "Inserting sample_manifest sample_problem [] ''68''"
  let ?x = "submission_for sample_claims sample_problem sample_manifest ''68'' ''k''" let ?d = catalogue_db
  have tx: "texts_ok ?x"
    by (auto simp: texts_ok_def submission_for_def zero_Submission_def sample_problem_def sample_manifest_def intro!: valid_text_ascii)
  have rf: "references_ok (?d\<lparr>db_clock := n\<rparr>) ?x" for n
    by (simp add: references_ok_def submission_for_def sample_claims_def sample_problem_def catalogue_db_def sample_contest_def)
  let ?sub = "?x\<lparr>s_ID := db_uuid ?d 1, s_Status := StatusQueued, s_CreatedAt := db_now ?d\<rparr>"
  let ?d1 = "?d\<lparr>db_clock := 1, submissions := [new_row ?x (db_uuid ?d 1) (db_now ?d)]\<rparr>" let ?d2 = "?d1\<lparr>db_clock := 2\<rparr>"
  have d: "submissions ?d = []" "db_faults ?d = (\<lambda>_. False)" "db_clock ?d = 0" by (simp_all add: catalogue_db_def empty_db_def)
  have c1: "CreateSubmission ?x ?d = (Inr ?sub, ?d1)" using tx rf by (simp add: CreateSubmission_def query_def Let_def d)
  have c2: "CreateSubmission ?x ?d1 = (Inl UniqueViolation, ?d2)"
    using tx by (simp add: CreateSubmission_def query_def Let_def d new_row_def submission_for_def nullStr_def)
  let ?w = "sample_world ?d" let ?w1 = "?w\<lparr>w_db := ?d1\<rparr>" let ?w2 = "?w\<lparr>w_db := ?d2\<rparr>"
  let ?a = "AskingCache sample_manifest sample_problem [] ?sub"
  have s1: "submit_step sample_ext sample_server ?q ?s ?w = (?a, ?w1)" using c1 by (simp add: on_db_def sample_world_def)
  have s2: "submit_step sample_ext sample_server ?q ?s ?w1 = (Refused UniqueViolation, ?w2)" using c2 by (simp add: on_db_def)
  let ?st1 = "(\<lambda>_. ?s)(0 := ?a)" let ?st2 = "?st1(1 := Refused UniqueViolation)"
  have r: "(race sample_ext (\<lambda>_. sample_server) (\<lambda>_. ?q))\<^sup>*\<^sup>* (?w, \<lambda>_. ?s) (?w2, ?st2)"
    using race.request [of sample_ext "\<lambda>_. sample_server" 0 "\<lambda>_. ?q" "\<lambda>_. ?s" ?w ?a ?w1] s1
      race.request [of sample_ext "\<lambda>_. sample_server" 1 "\<lambda>_. ?q" ?st1 ?w1 "Refused UniqueViolation" ?w2] s2
    by (simp del: submit_step.simps)
  have ok: "db_ok (w_db ?w)" by (simp add: sample_world_def db_ok_def d)
  have "unserved (\<lambda>_. ?s)" "same_request ?q ?q" by (simp_all add: unserved_def same_request_def)
  from submit_race [OF r ok this(1), where n = 1 and m = 0 and b = ?sub and e = UniqueViolation] this(2)
  have "\<exists>sub w'. submit_step sample_ext sample_server ?q (Refused UniqueViolation) ?w2 = (Answered (writeJSON 200 (SubmissionBody sub)), w') \<and>
      s_ID sub = s_ID ?sub" by (simp add: d del: submit_step.simps)
  then show ?thesis unfolding Let_def s1 prod.case s2 by (simp del: submit_step.simps) (metis (no_types, lifting))
qed

end
