(* ===== verification/Reconciler.thy ===== *)
theory Reconciler
  imports Results
begin

section \<open>The reconciler (\<^verbatim>\<open>internal/api/reconciler.go\<close>)\<close>

text \<open>
  \<open>reconcileOnce\<close> is one tick of the background loop: it re-publishes submissions that are
  stuck and gives up on those that were attempted too often. The ticker and its goroutine are
  a list of ticks in \<open>reconciler_run\<close>.
\<close>

definition gave_up :: "string \<Rightarrow> SubmissionResult" where
  "gave_up i = zero_SubmissionResult\<lparr>r_SubmissionID := i, r_Status := StatusFailed, r_Verdict := VerdictIE, r_FailedTest := - 1,
     r_CompileLog := ''judge could not complete this submission after repeated attempts; please resubmit''\<rparr>"

definition retry_job :: "Submission \<Rightarrow> int \<Rightarrow> Problem \<Rightarrow> TestRef list \<Rightarrow> Manifest \<Rightarrow> gotime \<Rightarrow> JobSpec" where
  "retry_job sub n p tests m now =
     \<lparr>job_SubmissionID = s_ID sub, job_Attempt = n + 1, job_ContestID = s_ContestID sub, job_ProblemID = s_ProblemID sub,
      job_UserID = s_UserID sub, job_Language = s_Language sub, job_SourceRef = s_SourceRef sub, job_SourceHash = s_SourceHash sub,
      job_ImageDigest = m_Image m, job_TestdataVersion = p_TestdataVersion p, job_Tests = tests, job_Limits = limits_for m p,
      job_Checker = p_Checker p, job_Policy = DefaultPolicy, job_EnqueuedAt = now\<rparr>"

definition republish :: "'s ext \<Rightarrow> Server \<Rightarrow> Submission \<Rightarrow> int \<Rightarrow> 's world \<Rightarrow> 's world" where
  "republish X S sub n w =
     (case on_db (GetProblem (s_ProblemID sub)) w of
        (Inl _, w1) \<Rightarrow> w1
      | (Inr p, w1) \<Rightarrow>
          (case on_db (ListTestCases (p_ID p)) w1 of
             (Inl _, w2) \<Rightarrow> w2
           | (Inr tests, w2) \<Rightarrow>
               (case Langs.Get (s_langs S) (s_Language sub) of
                  None \<Rightarrow> w2
                | Some m \<Rightarrow> enqueue X S (retry_job sub n p tests m (w_now w2)) w2)))"

definition reconcile_one :: "'s ext \<Rightarrow> Server \<Rightarrow> 's world \<Rightarrow> Submission \<Rightarrow> 's world" where
  "reconcile_one X S w sub =
     (case on_db (BumpAttempt (s_ID sub)) w of
        (Inl _, w1) \<Rightarrow> w1
      | (Inr n, w1) \<Rightarrow>
          if MaxAttempts (s_cfg S) \<le> n
          then publishEvent X (s_ID sub) (FailedEvent (s_ID sub) StatusFailed VerdictIE)
                 (snd (on_db (SaveResult (gave_up (s_ID sub))) w1))
          else republish X S sub n w1)"

definition reconcileOnce :: "'s ext \<Rightarrow> Server \<Rightarrow> duration \<Rightarrow> 's world \<Rightarrow> 's world" where
  "reconcileOnce X S stuckAfter w =
     (case on_db (StuckSubmissions stuckAfter 100) w of
        (Inl _, w1) \<Rightarrow> w1
      | (Inr stuck, w1) \<Rightarrow> foldl (reconcile_one X S) w1 stuck)"

text \<open>Ticks at the given times of the database's clock.\<close>

fun reconciler_run :: "'s ext \<Rightarrow> Server \<Rightarrow> duration \<Rightarrow> gotime list \<Rightarrow> 's world \<Rightarrow> 's world" where
  "reconciler_run X S stuckAfter [] w = w"
| "reconciler_run X S stuckAfter (t # ts) w =
     reconciler_run X S stuckAfter ts (reconcileOnce X S stuckAfter (w\<lparr>w_db := (w_db w)\<lparr>db_now := t\<rparr>\<rparr>))"

subsection \<open>What a tick does to one row\<close>

definition is_pending :: "sub_row \<Rightarrow> bool" where
  "is_pending r \<longleftrightarrow> row_status r \<in> {StatusQueued, StatusJudging}"

text \<open>A step that keeps the row \<open>i\<close>, the invariant and the clock, and makes no row pending.\<close>

definition calm :: "string \<Rightarrow> db \<Rightarrow> db \<Rightarrow> bool" where
  "calm i d d' \<longleftrightarrow> db_ok d' \<and> db_faults d' = db_faults d \<and> db_now d' = db_now d \<and>
     length (filter is_pending (submissions d')) \<le> length (filter is_pending (submissions d)) \<and> find_row i d' = find_row i d"

lemma calm_trans: "calm i d d' \<Longrightarrow> calm i d' d'' \<Longrightarrow> calm i d d''"
  by (auto simp: calm_def)

lemma calm_clock [simp]: "calm i d (d'\<lparr>db_clock := n\<rparr>) = calm i d d'" "calm i (d\<lparr>db_clock := n\<rparr>) d' = calm i d d'"
  by (auto simp: calm_def find_row_def)

lemma calm_refl: "db_ok d \<Longrightarrow> calm i d d"
  by (simp add: calm_def)

lemma pending_map:
  "(\<And>r. is_pending (f r) \<Longrightarrow> is_pending r) \<Longrightarrow> length (filter is_pending (map f xs)) \<le> length (filter is_pending xs)"
  by (induction xs) (auto simp: le_SucI)

lemma pending_update:
  assumes "\<And>r. is_pending (f r) \<Longrightarrow> is_pending r"
  shows "length (filter is_pending (submissions (update_sub j guard f d))) \<le> length (filter is_pending (submissions d))"
proof -
  have "submissions (update_sub j guard f d) = map (\<lambda>r. if row_id r = j \<and> guard r then f r else r) (submissions d)"
    by (simp add: update_sub_def)
  then show ?thesis using assms by (simp only: pending_map split: if_splits)
qed

lemma calm_update:
  assumes "db_ok (update_sub j guard f d)" and "preserves_key f" and "\<And>r. is_pending (f r) \<Longrightarrow> is_pending r" and "i \<noteq> j"
  shows "calm i d (update_sub j guard f d)"
proof -
  have "length (filter is_pending (submissions (update_sub j guard f d))) \<le> length (filter is_pending (submissions d))"
    by (rule pending_update [OF assms(3)])
  moreover have "find_row i (update_sub j guard f d) = find_row i d"
    using find_row_update [OF assms(2), of i j guard d] assms(4) by (simp add: option.map_ident)
  ultimately show ?thesis using assms(1) by (simp add: calm_def update_sub_def)
qed

lemma query_calm:
  assumes "db_ok d" and "\<And>d'. db_ok d' \<Longrightarrow> calm i d' (snd (f d'))"
  shows "calm i d (snd (query f d))"
proof -
  have "calm i (d\<lparr>db_clock := Suc (db_clock d)\<rparr>) (snd (f (d\<lparr>db_clock := Suc (db_clock d)\<rparr>)))"
    using assms by (intro assms(2)) simp
  then show ?thesis using query_state [of f d] calm_refl [OF assms(1)] by auto
qed

lemma BumpAttempt_calm: "db_ok d \<Longrightarrow> i \<noteq> j \<Longrightarrow> calm i d (snd (BumpAttempt j d))"
  unfolding BumpAttempt_def
proof (rule query_calm, assumption)
  fix d' assume ok: "db_ok d'" and ij: "i \<noteq> j"
  have "db_ok (update_sub j (\<lambda>_. True) (\<lambda>q. q\<lparr>row_attempt := row_attempt q + 1\<rparr>) d')"
    using ok by (intro update_sub_ok) (auto simp: preserves_key_def Store.row_ok_def finished_def)
  then have "calm i d' (update_sub j (\<lambda>_. True) (\<lambda>q. q\<lparr>row_attempt := row_attempt q + 1\<rparr>) d')"
    using ij by (intro calm_update) (auto simp: preserves_key_def is_pending_def)
  then show "calm i d' (snd (case find_row j d' of None \<Rightarrow> (Inl ErrNoRows, d')
      | Some r \<Rightarrow> if \<not> fits_int4 (row_attempt r + 1) then (Inl CheckViolation, d')
         else (Inr (row_attempt r + 1), update_sub j (\<lambda>_. True) (\<lambda>q. q\<lparr>row_attempt := row_attempt q + 1\<rparr>) d')))"
    using calm_refl [OF ok] by (simp split: option.split)
qed

lemma gave_up_result [simp]:
  "r_SubmissionID (gave_up i) = i" "r_Status (gave_up i) = StatusFailed" "r_Verdict (gave_up i) = VerdictIE" "r_Tests (gave_up i) = []"
  by (simp_all add: gave_up_def zero_SubmissionResult_def)

lemma gave_up_ok: "result_ok (gave_up i)" "result_args_ok (gave_up i)"
  by (auto simp: result_ok_def result_args_ok_def gave_up_def zero_SubmissionResult_def known_verdicts_def Store.truncate_def
      fits_int4_def go_simps intro!: valid_text_ascii)

lemma gave_up_calm: "db_ok d \<Longrightarrow> i \<noteq> j \<Longrightarrow> calm i d (snd (SaveResult (gave_up j) d))"
  unfolding SaveResult_def
proof (rule query_calm, assumption)
  fix d' assume ok: "db_ok d'" and ij: "i \<noteq> j"
  let ?f = "result_row (gave_up j) (db_now d')"
  have "Store.row_ok (?f r)" for r using gave_up_ok(1) [of j]
    by (auto simp: Store.row_ok_def result_row_def finished_def result_ok_def)
  then have "db_ok (update_sub j unfinished ?f d')" by (intro update_sub_ok [OF ok]) (simp_all add: preserves_key_def result_row_def)
  then have "calm i d' (update_sub j unfinished ?f d')"
    using ij by (intro calm_update) (auto simp: preserves_key_def is_pending_def result_row_def go_simps)
  then show "calm i d' (snd (if \<not> result_args_ok (gave_up j) then (Inl CheckViolation, d')
     else if \<not> (\<exists>q \<in> set (submissions d'). row_id q = r_SubmissionID (gave_up j) \<and> unfinished q) then (Inr (), d')
     else if \<not> result_ok (gave_up j) \<or> \<not> list_all test_ok (r_Tests (gave_up j)) then (Inl CheckViolation, d')
     else (Inr (), (update_sub (r_SubmissionID (gave_up j)) unfinished ?f d')
         \<lparr>submission_tests := foldl (\<lambda>m t. AList.update (r_SubmissionID (gave_up j), t_Index t) (test_row t) m)
                  (submission_tests d') (r_Tests (gave_up j))\<rparr>)))"
    using calm_refl [OF ok] by (auto simp: calm_def find_row_def)
qed

lemma republish_calm: "db_ok (w_db w) \<Longrightarrow> calm i (w_db w) (w_db (republish X S sub n w))"
  by (auto simp: republish_def enqueue_def on_db_def GetProblem_def ListTestCases_def query_def Let_def calm_refl
      split: sum.split option.split)

lemma reconcile_one_calm:
  assumes "db_ok (w_db w)" and "i \<noteq> s_ID sub"
  shows "calm i (w_db w) (w_db (reconcile_one X S w sub))"
proof -
  obtain r w1 where 1: "on_db (BumpAttempt (s_ID sub)) w = (r, w1)" by (cases "on_db (BumpAttempt (s_ID sub)) w")
  have c1: "calm i (w_db w) (w_db w1)"
    using BumpAttempt_calm [OF assms] on_db_frame(4) [of "BumpAttempt (s_ID sub)" w] 1 by simp
  then have ok: "db_ok (w_db w1)" by (simp add: calm_def)
  show ?thesis using c1 gave_up_calm [OF ok assms(2)] republish_calm [OF ok] 1
    by (cases r) (auto simp: reconcile_one_def intro: calm_trans)
qed

lemma reconcile_all_calm:
  "db_ok (w_db w) \<Longrightarrow> \<forall>sub \<in> set subs. i \<noteq> s_ID sub \<Longrightarrow> calm i (w_db w) (w_db (foldl (reconcile_one X S) w subs))"
proof (induction subs arbitrary: w)
  case (Cons sub subs)
  have c: "calm i (w_db w) (w_db (reconcile_one X S w sub))" using Cons.prems by (intro reconcile_one_calm) simp_all
  then have "db_ok (w_db (reconcile_one X S w sub))" by (simp add: calm_def)
  then show ?case using Cons c by (auto intro: calm_trans)
qed (simp add: calm_refl)

text \<open>The row itself: one more attempt, or the end.\<close>

definition next_row :: "int \<Rightarrow> gotime \<Rightarrow> sub_row \<Rightarrow> sub_row" where
  "next_row mx now r =
     (let r' = r\<lparr>row_attempt := row_attempt r + 1\<rparr>
      in if mx \<le> row_attempt r + 1 then result_row (gave_up (row_id r)) now r' else r')"

definition tick_ok :: "string \<Rightarrow> sub_row option \<Rightarrow> db \<Rightarrow> db \<Rightarrow> bool" where
  "tick_ok i r d d' \<longleftrightarrow> db_ok d' \<and> db_faults d' = db_faults d \<and>
     length (filter is_pending (submissions d')) \<le> length (filter is_pending (submissions d)) \<and> find_row i d' = r"

lemma calm_tick: "calm i d d' \<Longrightarrow> tick_ok i (find_row i d) d d'"
  by (simp add: calm_def tick_ok_def)

lemma BumpAttempt_found:
  assumes "db_ok d" and "db_faults d = (\<lambda>_. False)" and "find_row i d = Some r" and "fits_int4 (row_attempt r + 1)"
  shows "\<exists>d'. BumpAttempt i d = (Inr (row_attempt r + 1), d') \<and> db_now d' = db_now d \<and> db_faults d' = (\<lambda>_. False) \<and>
    tick_ok i (Some (r\<lparr>row_attempt := row_attempt r + 1\<rparr>)) d d'"
proof -
  let ?d = "d\<lparr>db_clock := Suc (db_clock d)\<rparr>" let ?f = "\<lambda>q. q\<lparr>row_attempt := row_attempt q + 1\<rparr>"
  let ?d' = "update_sub i (\<lambda>_. True) ?f ?d"
  have pk: "preserves_key ?f" by (simp add: preserves_key_def)
  have f: "find_row i ?d = Some r" using assms(3) by (simp add: find_row_def)
  have "BumpAttempt i d = (Inr (row_attempt r + 1), ?d')" using assms(2,4) f by (simp add: BumpAttempt_def query_def Let_def)
  moreover have "db_ok ?d'" using assms(1) by (intro update_sub_ok) (auto simp: preserves_key_def Store.row_ok_def finished_def)
  moreover have "length (filter is_pending (submissions ?d')) \<le> length (filter is_pending (submissions ?d))"
    by (rule pending_update) (simp add: is_pending_def)
  moreover have "find_row i ?d' = Some (?f r)" using find_row_update [OF pk, of i i "\<lambda>_. True" ?d] f by simp
  moreover have "db_now ?d' = db_now d" "db_faults ?d' = db_faults d" by (simp_all add: update_sub_def)
  ultimately show ?thesis using assms(2) by (intro exI [of _ ?d']) (simp add: tick_ok_def)
qed

lemma SaveResult_gave_up:
  assumes "db_ok d" and "db_faults d = (\<lambda>_. False)" and "find_row i d = Some r" and "unfinished r"
  shows "tick_ok i (Some (result_row (gave_up i) (db_now d) r)) d (snd (SaveResult (gave_up i) d))"
proof -
  let ?d = "d\<lparr>db_clock := Suc (db_clock d)\<rparr>" let ?f = "result_row (gave_up i) (db_now d)" let ?d' = "update_sub i unfinished ?f ?d"
  have pk: "preserves_key ?f" by (simp add: preserves_key_def result_row_def)
  have f: "find_row i ?d = Some r" using assms(3) by (simp add: find_row_def)
  have hit: "\<exists>q \<in> set (submissions d). row_id q = i \<and> unfinished q" using assms(3,4) by (auto simp: find_row_def find_Some_iff)
  then have "snd (SaveResult (gave_up i) d) = ?d'\<lparr>submission_tests := submission_tests d\<rparr>"
    using assms(2) gave_up_ok by (auto simp: SaveResult_def query_def Let_def)
  moreover have "db_ok (snd (SaveResult (gave_up i) d))" by (rule SaveResult_ok [OF assms(1)])
  moreover have "length (filter is_pending (submissions ?d')) \<le> length (filter is_pending (submissions ?d))"
    by (rule pending_update) (simp add: is_pending_def result_row_def go_simps)
  moreover have "find_row i ?d' = Some (?f r)" using find_row_update [OF pk, of i i unfinished ?d] f assms(4) by simp
  moreover have "db_faults ?d' = db_faults d" by (simp add: update_sub_def)
  ultimately show ?thesis by (simp add: tick_ok_def find_row_def)
qed

lemma reconcile_one_row:
  assumes "db_ok (w_db w)" and "db_faults (w_db w) = (\<lambda>_. False)" and "find_row (s_ID sub) (w_db w) = Some r"
    and "is_pending r" and "fits_int4 (row_attempt r + 1)"
  shows "tick_ok (s_ID sub) (Some (next_row (MaxAttempts (s_cfg S)) (db_now (w_db w)) r)) (w_db w) (w_db (reconcile_one X S w sub))"
proof -
  let ?i = "s_ID sub" let ?r = "r\<lparr>row_attempt := row_attempt r + 1\<rparr>"
  obtain d1 where b: "BumpAttempt ?i (w_db w) = (Inr (row_attempt r + 1), d1)" and d1: "db_now d1 = db_now (w_db w)"
      "db_faults d1 = (\<lambda>_. False)" and t1: "tick_ok ?i (Some ?r) (w_db w) d1"
    using BumpAttempt_found [OF assms(1-3,5)] by blast
  have ok: "db_ok d1" "find_row ?i d1 = Some ?r" using t1 by (simp_all add: tick_ok_def)
  have w1: "on_db (BumpAttempt ?i) w = (Inr (row_attempt r + 1), w\<lparr>w_db := d1\<rparr>)" using b by (simp add: on_db_def)
  have id: "row_id r = ?i" using assms(3) by (auto simp: find_row_def find_Some_iff)
  have un: "unfinished ?r" using assms(4) by (auto simp: unfinished_def is_pending_def go_simps)
  show ?thesis
  proof (cases "MaxAttempts (s_cfg S) \<le> row_attempt r + 1")
    case True
    then have "w_db (reconcile_one X S w sub) = snd (SaveResult (gave_up ?i) d1)" using w1 by (simp add: reconcile_one_def)
    then show ?thesis using SaveResult_gave_up [OF ok(1) d1(2) ok(2) un] t1 True
      by (auto simp: tick_ok_def next_row_def Let_def d1 id)
  next
    case False
    then have "calm ?i d1 (w_db (reconcile_one X S w sub))"
      using w1 republish_calm [of "w\<lparr>w_db := d1\<rparr>" ?i X S sub "row_attempt r + 1"] ok(1) by (simp add: reconcile_one_def)
    then show ?thesis using t1 False by (auto simp: calm_def tick_ok_def next_row_def Let_def)
  qed
qed

lemma reconcile_all_row:
  assumes "db_ok (w_db w)" and "db_faults (w_db w) = (\<lambda>_. False)" and "find_row i (w_db w) = Some r"
    and "is_pending r" and "fits_int4 (row_attempt r + 1)" and "distinct (map s_ID subs)" and "i \<in> s_ID ` set subs"
  shows "tick_ok i (Some (next_row (MaxAttempts (s_cfg S)) (db_now (w_db w)) r)) (w_db w) (w_db (foldl (reconcile_one X S) w subs))"
proof -
  obtain us sub vs where s: "subs = us @ sub # vs" "s_ID sub = i"
    using assms(7) by (auto dest: split_list)
  have nu: "\<forall>x \<in> set us. i \<noteq> s_ID x" "\<forall>x \<in> set vs. i \<noteq> s_ID x" using assms(6) s by auto
  let ?w1 = "foldl (reconcile_one X S) w us" let ?w2 = "reconcile_one X S ?w1 sub"
  have c1: "calm i (w_db w) (w_db ?w1)" by (rule reconcile_all_calm [OF assms(1) nu(1)])
  then have 1: "db_ok (w_db ?w1)" "db_faults (w_db ?w1) = (\<lambda>_. False)" "find_row (s_ID sub) (w_db ?w1) = Some r"
    "db_now (w_db ?w1) = db_now (w_db w)" using assms(2,3) s(2) by (simp_all add: calm_def)
  have 2: "tick_ok i (Some (next_row (MaxAttempts (s_cfg S)) (db_now (w_db w)) r)) (w_db ?w1) (w_db ?w2)"
    using reconcile_one_row [OF 1(1-3) assms(4,5), of S X] 1(4) s(2) by simp
  have "calm i (w_db ?w2) (w_db (foldl (reconcile_one X S) ?w2 vs))"
    using 2 by (intro reconcile_all_calm nu(2)) (simp add: tick_ok_def)
  then show ?thesis using c1 2 by (auto simp: calm_def tick_ok_def s(1))
qed

subsection \<open>What a tick finds\<close>

definition overdue :: "duration \<Rightarrow> gotime \<Rightarrow> sub_row \<Rightarrow> bool" where
  "overdue stuckAfter now r \<longleftrightarrow> row_created_at r < now - f64_to_i64 (Seconds stuckAfter) * 1000000000"

lemma db_ok_distinct: "db_ok d \<Longrightarrow> distinct (map row_id (submissions d))"
proof -
  assume "db_ok d"
  then have "sorted_wrt (\<lambda>q r. \<not> same_key q r) (submissions d)" by (simp add: db_ok_def)
  then have "sorted_wrt (\<lambda>q r. row_id q \<noteq> row_id r) (submissions d)"
    by (rule sorted_wrt_mono_rel [rotated]) (auto simp: same_key_def)
  then have "sorted_wrt (\<noteq>) (map row_id (submissions d))" by (simp add: sorted_wrt_map)
  moreover have "sorted_wrt (\<noteq>) xs \<Longrightarrow> distinct xs" for xs :: "string list" by (induction xs) auto
  ultimately show ?thesis by blast
qed

lemma distinct_sort_take: "distinct (map f xs) \<Longrightarrow> distinct (map f (take n (sort_key k (filter P xs))))"
proof -
  assume "distinct (map f xs)"
  then have "distinct (map f (sort_key k (filter P xs)))" by (auto simp: distinct_map intro: inj_on_subset)
  then show ?thesis by (simp add: take_map [symmetric])
qed

lemma StuckSubmissions_found:
  assumes "db_ok d" and "db_faults d = (\<lambda>_. False)" and "length (filter is_pending (submissions d)) \<le> 100"
  shows "\<exists>subs. StuckSubmissions t 100 d = (Inr subs, d\<lparr>db_clock := Suc (db_clock d)\<rparr>) \<and> distinct (map s_ID subs) \<and>
    s_ID ` set subs = row_id ` {r \<in> set (submissions d). is_pending r \<and> overdue t (db_now d) r}"
proof -
  let ?P = "\<lambda>r. row_status r \<in> {StatusQueued, StatusJudging} \<and> row_created_at r < db_now d - f64_to_i64 (Seconds t) * 1000000000"
  let ?rows = "sort_key row_created_at (filter ?P (submissions d))"
  let ?subs = "map (\<lambda>r. (scan_row r)\<lparr>s_JudgedAt := None\<rparr>) (take 100 ?rows)"
  have "length (filter ?P xs) \<le> length (filter is_pending xs)" for xs
    by (induction xs) (auto simp: is_pending_def)
  then have "length (filter ?P (submissions d)) \<le> length (filter is_pending (submissions d))" .
  then have all: "take 100 ?rows = ?rows" using assms(3) by simp
  have ids: "map s_ID ?subs = map row_id (take 100 ?rows)" by (simp add: scan_row_def)
  have "distinct (map s_ID ?subs)" unfolding ids by (rule distinct_sort_take [OF db_ok_distinct [OF assms(1)]])
  moreover have "s_ID ` set ?subs = row_id ` {r \<in> set (submissions d). is_pending r \<and> overdue t (db_now d) r}"
  proof -
    have "s_ID ` set ?subs = set (map s_ID ?subs)" by (rule set_map [symmetric])
    also have "\<dots> = set (map row_id (take 100 ?rows))" by (simp only: ids)
    also have "\<dots> = row_id ` set ?rows" by (simp only: all set_map)
    finally show ?thesis by (auto simp: is_pending_def overdue_def)
  qed
  moreover have "StuckSubmissions t 100 d = (Inr ?subs, d\<lparr>db_clock := Suc (db_clock d)\<rparr>)"
    using assms(2) by (simp add: StuckSubmissions_def query_def Let_def)
  ultimately show ?thesis by blast
qed

lemma reconcileOnce_row:
  assumes "db_ok (w_db w)" and "db_faults (w_db w) = (\<lambda>_. False)" and "length (filter is_pending (submissions (w_db w))) \<le> 100"
    and "find_row i (w_db w) = Some r" and "is_pending r \<longrightarrow> overdue t (db_now (w_db w)) r \<and> fits_int4 (row_attempt r + 1)"
  shows "tick_ok i (Some (if is_pending r then next_row (MaxAttempts (s_cfg S)) (db_now (w_db w)) r else r)) (w_db w)
    (w_db (reconcileOnce X S t w))"
proof -
  let ?d = "(w_db w)\<lparr>db_clock := Suc (db_clock (w_db w))\<rparr>" let ?w = "w\<lparr>w_db := ?d\<rparr>"
  obtain subs where s: "StuckSubmissions t 100 (w_db w) = (Inr subs, ?d)" "distinct (map s_ID subs)"
      "s_ID ` set subs = row_id ` {r \<in> set (submissions (w_db w)). is_pending r \<and> overdue t (db_now (w_db w)) r}"
    using StuckSubmissions_found [OF assms(1-3)] by blast
  have run: "reconcileOnce X S t w = foldl (reconcile_one X S) ?w subs" using s(1) by (simp add: reconcileOnce_def on_db_def)
  have r: "r \<in> set (submissions (w_db w))" "row_id r = i" using assms(4) by (auto simp: find_row_def find_Some_iff)
  have 1: "db_ok (w_db ?w)" "db_faults (w_db ?w) = (\<lambda>_. False)" "find_row i (w_db ?w) = Some r"
    using assms(1,2,4) by (simp_all add: find_row_def)
  show ?thesis
  proof (cases "is_pending r")
    case True
    then have "i \<in> s_ID ` set subs" "fits_int4 (row_attempt r + 1)" using s(3) r assms(5) by auto
    then show ?thesis using reconcile_all_row [OF 1 True _ s(2), of S X] True by (simp add: run tick_ok_def)
  next
    case False
    have "\<forall>x \<in> set subs. i \<noteq> s_ID x"
    proof (intro ballI notI)
      fix x assume x: "x \<in> set subs" and i: "i = s_ID x"
      then have "i \<in> s_ID ` set subs" by simp
      then obtain q where "q \<in> set (submissions (w_db w))" "row_id q = i" "is_pending q" unfolding s(3) by auto
      then show False using find_row_unique [OF assms(1,4)] False by blast
    qed
    from reconcile_all_calm [OF 1(1) this, of X S] show ?thesis using False assms(4)
      by (simp add: run calm_def tick_ok_def find_row_def)
  qed
qed

lemma next_row_cases:
  "next_row mx now r = r\<lparr>row_attempt := row_attempt r + 1\<rparr> \<and> row_attempt r + 1 < mx \<or>
   row_status (next_row mx now r) = StatusFailed \<and> row_verdict (next_row mx now r) = Some VerdictIE"
  by (auto simp: next_row_def Let_def result_row_def)

lemma reconciler_run_row:
  assumes "db_ok (w_db w)" and "db_faults (w_db w) = (\<lambda>_. False)" and "length (filter is_pending (submissions (w_db w))) \<le> 100"
    and "find_row i (w_db w) = Some r" and "\<forall>t \<in> set ts. overdue stuckAfter t r"
    and "is_pending r \<and> - (2 ^ 31) \<le> row_attempt r \<and> row_attempt r + int (length ts) < 2 ^ 31 \<and>
           1 \<le> length ts \<and> MaxAttempts (s_cfg S) - row_attempt r \<le> int (length ts) \<or>
         row_status r = StatusFailed \<and> row_verdict r = Some VerdictIE"
  shows "\<exists>r'. find_row i (w_db (reconciler_run X S stuckAfter ts w)) = Some r' \<and> row_status r' = StatusFailed \<and> row_verdict r' = Some VerdictIE"
  using assms
proof (induction ts arbitrary: w r)
  case (Cons t ts)
  let ?w = "w\<lparr>w_db := (w_db w)\<lparr>db_now := t\<rparr>\<rparr>" let ?w' = "reconcileOnce X S stuckAfter ?w"
  let ?r = "if is_pending r then next_row (MaxAttempts (s_cfg S)) t r else r"
  have 1: "db_ok (w_db ?w)" "db_faults (w_db ?w) = (\<lambda>_. False)" "length (filter is_pending (submissions (w_db ?w))) \<le> 100"
    "find_row i (w_db ?w) = Some r" using Cons.prems by (simp_all add: find_row_def)
  have np: "is_pending r \<Longrightarrow> row_status r \<noteq> StatusFailed" by (auto simp: is_pending_def go_simps)
  have "is_pending r \<longrightarrow> overdue stuckAfter (db_now (w_db ?w)) r \<and> fits_int4 (row_attempt r + 1)"
    using Cons.prems(5,6) np by (auto simp: fits_int4_def)
  then have "tick_ok i (Some (if is_pending r then next_row (MaxAttempts (s_cfg S)) (db_now (w_db ?w)) r else r)) (w_db ?w) (w_db ?w')"
    by (rule reconcileOnce_row [OF 1])
  moreover have "db_now (w_db ?w) = t" by simp
  ultimately have tk: "tick_ok i (Some ?r) (w_db ?w) (w_db ?w')" by (cases "is_pending r") simp_all
  then have 2: "db_ok (w_db ?w')" "db_faults (w_db ?w') = (\<lambda>_. False)" "length (filter is_pending (submissions (w_db ?w'))) \<le> 100"
    "find_row i (w_db ?w') = Some ?r" using 1(2,3) by (simp_all add: tick_ok_def)
  have cr: "row_created_at ?r = row_created_at r" by (simp add: next_row_def Let_def result_row_def)
  have "\<exists>r'. find_row i (w_db (reconciler_run X S stuckAfter ts ?w')) = Some r' \<and> row_status r' = StatusFailed \<and> row_verdict r' = Some VerdictIE"
  proof (rule Cons.IH [OF 2])
    show "\<forall>t \<in> set ts. overdue stuckAfter t ?r" using Cons.prems(5) cr by (simp add: overdue_def)
    show "is_pending ?r \<and> - (2 ^ 31) \<le> row_attempt ?r \<and> row_attempt ?r + int (length ts) < 2 ^ 31 \<and>
           1 \<le> length ts \<and> MaxAttempts (s_cfg S) - row_attempt ?r \<le> int (length ts) \<or>
         row_status ?r = StatusFailed \<and> row_verdict ?r = Some VerdictIE"
      using Cons.prems(6) next_row_cases [of "MaxAttempts (s_cfg S)" t r] np
      by (cases ts) (auto simp: is_pending_def)
  qed
  then show ?case by simp
qed (auto simp: is_pending_def)

subsection \<open>Properties\<close>

text \<open>
  C16: no submission stays queued for ever: whatever happened to its message, if no runner
  reports, then once a submission is overdue it is \<^verbatim>\<open>FAILED\<close> with verdict \<^verbatim>\<open>IE\<close> after at most
  \<open>MaxAttempts\<close> ticks of the reconciler (at least one), and stays so. This holds for any state
  of Redis and any fate of the calls to it, as long as the database answers and at most 100
  submissions are pending, which is how many a tick takes.
\<close>

theorem reconciler_settles:
  assumes "db_ok (w_db w)" and "db_faults (w_db w) = (\<lambda>_. False)" and "length (filter is_pending (submissions (w_db w))) \<le> 100"
    and "find_row i (w_db w) = Some r" and "is_pending r" and "0 \<le> row_attempt r"
    and "\<forall>t \<in> set ts. overdue stuckAfter t r" and "max 1 (MaxAttempts (s_cfg S) - row_attempt r) \<le> int (length ts)"
    and "row_attempt r + int (length ts) < 2 ^ 31"
  shows "\<exists>r'. find_row i (w_db (reconciler_run X S stuckAfter ts w)) = Some r' \<and> row_status r' = StatusFailed \<and> row_verdict r' = Some VerdictIE"
proof (rule reconciler_run_row [OF assms(1-4,7)], rule disjI1)
  show "is_pending r \<and> - (2 ^ 31) \<le> row_attempt r \<and> row_attempt r + int (length ts) < 2 ^ 31 \<and>
      1 \<le> length ts \<and> MaxAttempts (s_cfg S) - row_attempt r \<le> int (length ts)"
    using assms(5,6,8,9) by simp
qed

theorem reconciler_settles_witness:
  "\<exists>r'. find_row ''s'' (w_db (reconciler_run sample_ext sample_server (2 * Minute_ns) (replicate 3 (1 + 5 * Minute_ns))
      (sample_world (empty_db\<lparr>submissions := [keyed_row]\<rparr>)))) = Some r' \<and> row_status r' = StatusFailed \<and> row_verdict r' = Some VerdictIE"
proof (rule reconciler_settles)
  let ?d = "empty_db\<lparr>submissions := [keyed_row]\<rparr>" let ?w = "sample_world ?d"
  show "db_ok (w_db ?w)" by (simp add: sample_world_def db_ok_def Store.row_ok_def finished_def keyed_row_def new_row_def go_simps)
  show "db_faults (w_db ?w) = (\<lambda>_. False)" "length (filter is_pending (submissions (w_db ?w))) \<le> 100"
    by (simp_all add: sample_world_def empty_db_def)
  show "find_row ''s'' (w_db ?w) = Some keyed_row" "is_pending keyed_row" "0 \<le> row_attempt keyed_row"
    by (simp_all add: sample_world_def find_row_def keyed_row_def new_row_def is_pending_def)
  have "f64_to_i64 (Seconds (2 * Minute_ns)) = 120" by (subst seconds_trunc) simp_all
  then show "\<forall>t \<in> set (replicate 3 (1 + 5 * Minute_ns)). overdue (2 * Minute_ns) t keyed_row"
    by (simp add: overdue_def keyed_row_def new_row_def)
  have "MaxAttempts (s_cfg sample_server) = 3"
    by (simp add: sample_server_def sample_cfg_def from_env_def num_env_def)
  then show "max 1 (MaxAttempts (s_cfg sample_server) - row_attempt keyed_row) \<le> int (length (replicate 3 (1 + 5 * Minute_ns)))"
    by (simp add: keyed_row_def new_row_def)
  show "row_attempt keyed_row + int (length (replicate 3 (1 + 5 * Minute_ns))) < 2 ^ 31"
    by (simp add: keyed_row_def new_row_def)
qed

end
