(* ===== verification/Router.thy ===== *)
theory Router
  imports Results "HOL-Library.Word"
begin

section \<open>Authentication, the remaining handlers and the routes\<close>

text \<open>
  \<^verbatim>\<open>internal/api/auth.go\<close>, \<^verbatim>\<open>handlers_auth.go\<close>, \<^verbatim>\<open>sse.go\<close> and the router of \<^verbatim>\<open>server.go\<close>, which
  dispatches a request by its method and the segments of its path. Cross-origin preflight
  requests, the panic handler and the latency metric are the libraries' and not modelled.
\<close>

unbundle bit_operations_syntax

subsection \<open>Tokens\<close>

definition issueToken :: "'s ext \<Rightarrow> Server \<Rightarrow> string \<Rightarrow> string \<Rightarrow> string \<Rightarrow> gotime \<Rightarrow> string option" where
  "issueToken X S userID handle role now =
     sign_jwt X ''HS256'' (JWTSecret (s_cfg S))
       \<lparr>cl_UserID = userID, cl_Handle = handle, cl_Role = role, cl_Subject = userID, cl_IssuedAt = x_numeric_date X now,
        cl_ExpiresAt = x_numeric_date X (now + JWTTTL (s_cfg S)), cl_Issuer = ''arena''\<rparr>"

definition jwt_key :: "Server \<Rightarrow> string \<Rightarrow> string option" where
  "jwt_key S alg = (if alg \<in> {''HS256'', ''HS384'', ''HS512''} then Some (JWTSecret (s_cfg S)) else None)"

definition parseToken :: "'s ext \<Rightarrow> Server \<Rightarrow> string \<Rightarrow> gotime \<Rightarrow> Claims option" where
  "parseToken X S tok now = parse_jwt X tok (jwt_key S) [''HS256''] ''arena'' now"

type_synonym headers = "string \<Rightarrow> string"

definition requireAuth :: "'s ext \<Rightarrow> Server \<Rightarrow> headers \<Rightarrow> (Claims \<Rightarrow> 's handler) \<Rightarrow> 's handler" where
  "requireAuth X S hdr nxt w =
     (let h = hdr ''Authorization''
      in if \<not> prefix ''Bearer '' h then (writeErr 401 ''missing bearer token'', w)
         else case parseToken X S (drop 7 h) (w_now w) of
             None \<Rightarrow> (writeErr 401 ''invalid or expired token'', w)
           | Some c \<Rightarrow> nxt c w)"

definition requireRole :: "string list \<Rightarrow> (Claims \<Rightarrow> 's handler) \<Rightarrow> Claims \<Rightarrow> 's handler" where
  "requireRole roles nxt c w = (if cl_Role c \<notin> set roles then (writeErr 403 ''insufficient role'', w) else nxt c w)"

text \<open>The bytes are compared with a running disjunction of their differences.\<close>

definition byte_word :: "char \<Rightarrow> 8 word" where
  "byte_word c = word_of_nat (of_char c)"

definition subtleCompare :: "string \<Rightarrow> string \<Rightarrow> bool" where
  "subtleCompare a b =
     (if length a \<noteq> length b then False
      else foldl (\<lambda>v (x, y). v OR (byte_word x XOR byte_word y)) 0 (zip a b) = 0)"

definition requireRunnerToken :: "Server \<Rightarrow> headers \<Rightarrow> 's handler \<Rightarrow> 's handler" where
  "requireRunnerToken S hdr nxt w =
     (if subtleCompare (hdr ''X-Runner-Token'') (RunnerToken (s_cfg S)) then nxt w
      else (writeErr 401 ''bad runner token'', w))"

subsection \<open>Accounts\<close>

text \<open>\<^verbatim>\<open>^[a-zA-Z0-9_]{3,24}$\<close>\<close>

definition handleRe :: "string \<Rightarrow> bool" where
  "handleRe s \<longleftrightarrow> 3 \<le> length s \<and> length s \<le> 24 \<and>
     list_all (\<lambda>c. let b = of_char c :: nat in
        97 \<le> b \<and> b \<le> 122 \<or> 65 \<le> b \<and> b \<le> 90 \<or> 48 \<le> b \<and> b \<le> 57 \<or> b = 95) s"

definition handleRegister :: "'s ext \<Rightarrow> Server \<Rightarrow> credReq option \<Rightarrow> 's handler" where
  "handleRegister X S inp w =
     (case inp of
        None \<Rightarrow> (writeErr 400 ''invalid json'', w)
      | Some i \<Rightarrow>
          if \<not> handleRe (in_Handle i) then (writeErr 400 ''handle must be 3-24 chars of [a-zA-Z0-9_]'', w)
          else if length (in_Password i) < 8 then (writeErr 400 ''password must be at least 8 characters'', w)
          else let w1 = w\<lparr>w_salt := w_salt w + 1\<rparr>
               in case x_bcrypt X (w_salt w) (in_Password i) of
                    None \<Rightarrow> (writeErr 500 ''hash failure'', w1)
                  | Some hash \<Rightarrow>
                      (case on_db (CreateUser \<lparr>u_ID = [], u_Handle = in_Handle i, u_Email = in_Email i, u_PasswordHash = hash,
                              u_Role = ''participant'', u_CreatedAt = 0\<rparr>) w1 of
                         (Inl _, w2) \<Rightarrow> (writeErr 409 ''handle already taken'', w2)
                       | (Inr u, w2) \<Rightarrow>
                           (let tok = (case issueToken X S (u_ID u) (u_Handle u) (u_Role u) (w_now w2) of Some t \<Rightarrow> t | None \<Rightarrow> [])
                            in (writeJSON 201 (AuthBody tok u), w2))))"

definition handleLogin :: "'s ext \<Rightarrow> Server \<Rightarrow> credReq option \<Rightarrow> 's handler" where
  "handleLogin X S inp w =
     (case inp of
        None \<Rightarrow> (writeErr 400 ''invalid json'', w)
      | Some i \<Rightarrow>
          (case on_db (GetUserByHandle (in_Handle i)) w of
             (Inl _, w1) \<Rightarrow> (writeErr 401 ''invalid credentials'', w1)
           | (Inr u, w1) \<Rightarrow>
               if \<not> x_compare X (u_PasswordHash u) (in_Password i) then (writeErr 401 ''invalid credentials'', w1)
               else case issueToken X S (u_ID u) (u_Handle u) (u_Role u) (w_now w1) of
                   None \<Rightarrow> (writeErr 500 ''token error'', w1)
                 | Some tok \<Rightarrow> (writeJSON 200 (AuthBody tok u), w1)))"

subsection \<open>Catalogue, leaderboard and administration\<close>

definition handleLanguages :: "Server \<Rightarrow> 's handler" where
  "handleLanguages S w = (writeJSON 200 (LanguagesBody (List (s_langs S))), w)"

definition handleContest :: "string \<Rightarrow> 's handler" where
  "handleContest slug w =
     (case on_db (GetContestBySlug slug) w of
        (Inl e, w1) \<Rightarrow>
          (if e = ErrNotFound then writeErr 404 ''contest not found'' else writeErr 500 ''lookup failed'', w1)
      | (Inr c, w1) \<Rightarrow> (writeJSON 200 (ContestBody c), w1))"

definition with_contest :: "string \<Rightarrow> (Contest \<Rightarrow> 's handler) \<Rightarrow> 's handler" where
  "with_contest slug nxt w =
     (case on_db (GetContestBySlug slug) w of
        (Inl _, w1) \<Rightarrow> (writeErr 404 ''contest not found'', w1) | (Inr c, w1) \<Rightarrow> nxt c w1)"

definition handleProblems :: "string \<Rightarrow> 's handler" where
  "handleProblems slug = with_contest slug (\<lambda>c w.
     case on_db (ListProblems (c_ID c)) w of
       (Inl _, w1) \<Rightarrow> (writeErr 500 ''lookup failed'', w1) | (Inr ps, w1) \<Rightarrow> (writeJSON 200 (ProblemsBody ps), w1))"

definition handleProblem :: "string \<Rightarrow> 's handler" where
  "handleProblem i w =
     (case on_db (GetProblem i) w of
        (Inl _, w1) \<Rightarrow> (writeErr 404 ''problem not found'', w1) | (Inr p, w1) \<Rightarrow> (writeJSON 200 (ProblemBody p), w1))"

definition handleLeaderboard :: "'s ext \<Rightarrow> string \<Rightarrow> 's handler" where
  "handleLeaderboard X slug = with_contest slug (\<lambda>c w.
     case on_redis (Top (x_redis X) (c_ID c) 100) w of
       (Inl _, w1) \<Rightarrow> (writeErr 500 ''leaderboard unavailable'', w1)
     | (Inr rows, w1) \<Rightarrow> (writeJSON 200 (BoardBody (c_Slug c) (c_ScoringMode c) rows), w1))"

definition handleRebuild :: "'s ext \<Rightarrow> string \<Rightarrow> 's handler" where
  "handleRebuild X slug = with_contest slug (\<lambda>c w.
     case on_db (ContestStats (c_ID c)) w of
       (Inl e, w1) \<Rightarrow> (writeJSON 500 (ErrBody (OfStore e)), w1)
     | (Inr stats, w1) \<Rightarrow>
         (case on_redis (Rebuild (x_redis X) (c_ID c) stats (c_ScoringMode c) (c_StartsAt c)) w1 of
            (Inl e, w2) \<Rightarrow> (writeJSON 500 (ErrBody (OfRedis e)), w2)
          | (Inr _, w2) \<Rightarrow> (writeJSON 200 (RebuiltBody (length stats)), w2)))"

definition handleQueueStats :: "'s ext \<Rightarrow> Server \<Rightarrow> 's handler" where
  "handleQueueStats X S w =
     (case on_redis (Depth (x_redis X) (s_queue S)) w of
        (Inl e, w1) \<Rightarrow> (writeJSON 500 (ErrBody (OfRedis e)), w1)
      | (Inr (pending, backlog), w1) \<Rightarrow> (writeJSON 200 (QueueBody pending backlog), w1))"

definition Ping :: "unit store" where
  "Ping = query (\<lambda>d. (Inr (), d))"

definition handleReady :: "'s ext \<Rightarrow> Server \<Rightarrow> 's handler" where
  "handleReady X S w =
     (case on_db Ping w of
        (Inl _, w1) \<Rightarrow> (writeErr 503 ''database unavailable'', w1)
      | (Inr _, w1) \<Rightarrow>
          (case on_redis (Depth (x_redis X) (s_queue S)) w1 of
             (Inl _, w2) \<Rightarrow> (writeErr 503 ''queue unavailable'', w2)
           | (Inr _, w2) \<Rightarrow> (writeJSON 200 ReadyBody, w2)))"

subsection \<open>Event streams\<close>

text \<open>
  \<^verbatim>\<open>Bus.Subscribe\<close> waits for the server to confirm the subscription and returns an empty channel
  with 16 slots; its goroutine moves messages into the channel and drops what does not fit. What the handler's \<^verbatim>\<open>select\<close> loop meets is a list of events: messages that
  arrive at the channel (\<open>Arrived\<close>) and the cases it picks.
\<close>

datatype sse_event = Cancelled | DeadlineHit | KeepAlive | Arrived string | Received | ChannelClosed

definition Bus_Subscribe :: "'s redis \<Rightarrow> string \<Rightarrow> ('s, string list) rcall" where
  "Bus_Subscribe R topic c =
     (case call (rpure (\<lambda>_. ())) c of (Inl e, c') \<Rightarrow> (Inl e, c') | (Inr _, c') \<Rightarrow> (Inr [], c'))"

definition offer :: "string list \<Rightarrow> string \<Rightarrow> string list" where
  "offer buf m = (if length buf < 16 then buf @ [m] else buf)"

definition data_frame :: "string \<Rightarrow> string" where
  "data_frame m = ''data: '' @ m @ [CHR 0x0A, CHR 0x0A]"

definition ping_frame :: string where
  "ping_frame = '': ping'' @ [CHR 0x0A, CHR 0x0A]"

definition is_final :: "Status option \<Rightarrow> bool" where
  "is_final s \<longleftrightarrow> s = Some ''DONE'' \<or> s = Some ''FAILED''"

fun sse_loop :: "(string \<Rightarrow> Status option) \<Rightarrow> string list \<Rightarrow> sse_event list \<Rightarrow> string list" where
  "sse_loop probe buf [] = []"
| "sse_loop probe buf (Cancelled # es) = []"
| "sse_loop probe buf (DeadlineHit # es) = []"
| "sse_loop probe buf (KeepAlive # es) = ping_frame # sse_loop probe buf es"
| "sse_loop probe buf (Arrived m # es) = sse_loop probe (offer buf m) es"
| "sse_loop probe [] (Received # es) = sse_loop probe [] es"
| "sse_loop probe (m # buf) (Received # es) =
     data_frame m # (if is_final (probe m) then [] else sse_loop probe buf es)"
| "sse_loop probe [] (ChannelClosed # es) = []"
| "sse_loop probe (m # buf) (ChannelClosed # es) = sse_loop probe (m # buf) es"

definition handleSubmissionSSE :: "'s ext \<Rightarrow> Claims \<Rightarrow> string \<Rightarrow> bool \<Rightarrow> sse_event list \<Rightarrow> 's handler" where
  "handleSubmissionSSE X u i flusher es w =
     (case on_db (GetSubmission i) w of
        (Inl _, w1) \<Rightarrow> (writeErr 404 ''submission not found'', w1)
      | (Inr sub, w1) \<Rightarrow>
          if s_UserID sub \<noteq> cl_UserID u \<and> cl_Role u \<noteq> ''admin'' then (writeErr 403 ''not your submission'', w1)
          else if \<not> flusher then (writeErr 500 ''streaming unsupported'', w1)
          else let first = data_frame (x_submission_json X sub)
               in if s_Status sub = ''DONE'' \<or> s_Status sub = ''FAILED'' then (writeJSON 200 (StreamBody [first]), w1)
                  else case on_redis (Bus_Subscribe (x_redis X) (TopicSubmission i)) w1 of
                      (Inl _, w2) \<Rightarrow> (writeJSON 200 (StreamBody [first]), w2)
                    | (Inr ch, w2) \<Rightarrow> (writeJSON 200 (StreamBody (first # sse_loop (x_status_of_json X) ch es)), w2))"

subsection \<open>Routes\<close>

record request =
  rq_method :: string
  rq_path :: "string list"
  rq_header :: headers
  rq_query :: headers
  rq_body :: string
  rq_flusher :: bool
  rq_events :: "sse_event list"

text \<open>\<^verbatim>\<open>http.MaxBytesReader\<close> with 1 MiB.\<close>

definition capped :: "request \<Rightarrow> reader" where
  "capped req = (take 1048576 (rq_body req), 1048576 < length (rq_body req))"

text \<open>A pattern segment \<^verbatim>\<open>{}\<close> takes one segment of the path; the segments taken are returned.\<close>

fun match_path :: "string list \<Rightarrow> string list \<Rightarrow> string list option" where
  "match_path [] [] = Some []"
| "match_path (p # ps) (x # xs) =
     (if p = ''{}'' then (if x = [] then None else map_option ((#) x) (match_path ps xs))
      else if p = x then match_path ps xs else None)"
| "match_path _ _ = None"

type_synonym 's route = "string \<times> string list \<times> (string list \<Rightarrow> 's handler)"

definition public_routes :: "'s ext \<Rightarrow> Server \<Rightarrow> request \<Rightarrow> 's route list" where
  "public_routes X S req =
     [(''GET'', [''healthz''], \<lambda>_ w. (writeJSON 200 (TextBody ''ok''), w)),
      (''GET'', [''readyz''], \<lambda>_. handleReady X S),
      (''GET'', [], \<lambda>_ w. (writeJSON 200 IndexBody, w)),
      (''GET'', [''metrics''], \<lambda>_ w. (writeJSON 200 (TextBody (x_metrics X)), w)),
      (''POST'', [''v1'', ''auth'', ''register''], \<lambda>_. handleRegister X S (x_cred_body X (capped req))),
      (''POST'', [''v1'', ''auth'', ''login''], \<lambda>_. handleLogin X S (x_cred_body X (capped req))),
      (''GET'', [''v1'', ''languages''], \<lambda>_. handleLanguages S),
      (''GET'', [''v1'', ''contests'', ''{}''], \<lambda>as. handleContest (hd as)),
      (''GET'', [''v1'', ''contests'', ''{}'', ''problems''], \<lambda>as. handleProblems (hd as)),
      (''GET'', [''v1'', ''contests'', ''{}'', ''leaderboard''], \<lambda>as. handleLeaderboard X (hd as)),
      (''GET'', [''v1'', ''problems'', ''{}''], \<lambda>as. handleProblem (hd as))]"

definition user_handlers :: "'s ext \<Rightarrow> Server \<Rightarrow> request \<Rightarrow> (string \<times> string list \<times> (string list \<Rightarrow> Claims \<Rightarrow> 's handler)) list" where
  "user_handlers X S req =
     [(''POST'', [''v1'', ''problems'', ''{}'', ''submissions''],
         \<lambda>as u. handleSubmit X S u (hd as) (rq_header req ''Idempotency-Key'') (x_submit_body X (capped req))),
      (''GET'', [''v1'', ''submissions'', ''{}''], \<lambda>as u. handleGetSubmission u (hd as)),
      (''GET'', [''v1'', ''submissions''], \<lambda>as u. handleListSubmissions u (rq_query req)),
      (''GET'', [''v1'', ''submissions'', ''{}'', ''events''],
         \<lambda>as u. handleSubmissionSSE X u (hd as) (rq_flusher req) (rq_events req)),
      (''POST'', [''v1'', ''admin'', ''contests'', ''{}'', ''rebuild-leaderboard''],
         \<lambda>as. requireRole [''admin''] (\<lambda>_. handleRebuild X (hd as))),
      (''GET'', [''v1'', ''admin'', ''queue''], \<lambda>as. requireRole [''admin''] (\<lambda>_. handleQueueStats X S))]"

definition user_routes :: "'s ext \<Rightarrow> Server \<Rightarrow> request \<Rightarrow> 's route list" where
  "user_routes X S req =
     map (\<lambda>(meth, pat, h). (meth, pat, \<lambda>as. requireAuth X S (rq_header req) (h as))) (user_handlers X S req)"

definition internal_routes :: "'s ext \<Rightarrow> Server \<Rightarrow> request \<Rightarrow> 's route list" where
  "internal_routes X S req =
     [(''PATCH'', [''internal'', ''submissions'', ''{}'', ''judging''],
         \<lambda>as. handleMarkJudging X (hd as) (x_mark_body X (capped req))),
      (''POST'', [''internal'', ''results''], \<lambda>_. handleResult X S (x_result_body X (capped req)))]"

definition dispatch :: "'s route list \<Rightarrow> request \<Rightarrow> 's handler" where
  "dispatch rs req w =
     (let fits = filter (\<lambda>(_, pat, _). match_path pat (rq_path req) \<noteq> None) rs
      in case filter (\<lambda>(meth, _, _). meth = rq_method req) fits of
           (_, pat, h) # _ \<Rightarrow> h (the (match_path pat (rq_path req))) w
         | [] \<Rightarrow> (writeJSON (if fits = [] then 404 else 405) NoBody, w))"

definition Router :: "'s ext \<Rightarrow> Server \<Rightarrow> request \<Rightarrow> 's handler" where
  "Router X S req =
     (if rq_path req \<noteq> [] \<and> hd (rq_path req) = ''internal''
      then requireRunnerToken S (rq_header req) (dispatch (internal_routes X S req) req)
      else dispatch (public_routes X S req @ user_routes X S req) req)"

subsection \<open>Comparing tokens\<close>

lemma byte_word_inject [simp]: "byte_word x = byte_word y \<longleftrightarrow> x = y"
proof
  assume "byte_word x = byte_word y"
  then have "unat (byte_word x) = unat (byte_word y)" by simp
  moreover have "unat (byte_word c) = of_char c" for c
    unfolding byte_word_def by (simp add: unat_of_nat take_bit_eq_mod)
  ultimately show "x = y" by simp
qed simp

lemma xor_zero: "a XOR b = 0 \<longleftrightarrow> a = b" for a b :: "8 word"
proof
  assume "a XOR b = 0"
  then have "(a XOR b) XOR b = 0 XOR b" by simp
  then show "a = b" by (simp add: ac_simps)
qed simp

lemma subtle_fold: "foldl (\<lambda>v (x, y). v OR (byte_word x XOR byte_word y)) v zs = 0 \<longleftrightarrow> v = 0 \<and> list_all (\<lambda>(x, y). x = y) zs"
proof (induction zs arbitrary: v)
  case (Cons z zs)
  obtain x y where z: "z = (x, y)" by (cases z)
  have "v OR (byte_word x XOR byte_word y) = 0 \<longleftrightarrow> v = 0 \<and> x = y"
    using xor_zero [of "byte_word x" "byte_word y"] by (simp add: or_eq_0_iff)
  then show ?case using Cons.IH by (simp add: z)
qed simp

lemma subtleCompare_eq: "subtleCompare a b \<longleftrightarrow> a = b"
proof -
  have "length a = length b \<Longrightarrow> list_all (\<lambda>(x, y). x = y) (zip a b) \<longleftrightarrow> a = b" by (induction a b rule: list_induct2) auto
  then show ?thesis by (auto simp: subtleCompare_def subtle_fold)
qed

subsection \<open>Who reaches what\<close>

lemma dispatch_cases:
  assumes "dispatch rs req w = (resp, w')"
  obtains (unmatched) "resp_body resp = NoBody" and "w' = w"
  | (matched) meth pat h xs where "(meth, pat, h) \<in> set rs" and "h xs w = (resp, w')"
proof (cases "filter (\<lambda>(meth, _, _). meth = rq_method req) (filter (\<lambda>(_, pat, _). match_path pat (rq_path req) \<noteq> None) rs)")
  case Nil
  then have "resp_body resp = NoBody" "w' = w" using assms by (auto simp: dispatch_def Let_def writeJSON_def)
  then show ?thesis by (rule unmatched)
next
  case (Cons rt rest)
  obtain meth pat h where rt: "rt = (meth, pat, h)" by (cases rt)
  then have "(meth, pat, h) \<in> set rs" using Cons filter_is_subset [of _ rs] by (metis (no_types, lifting) list.set_intros(1) mem_Collect_eq set_filter)
  moreover have "h (the (match_path pat (rq_path req))) w = (resp, w')" using assms Cons rt by (simp add: dispatch_def Let_def)
  ultimately show ?thesis by (rule matched)
qed

text \<open>A handler that neither writes submissions nor shows one.\<close>

definition harmless :: "'s handler \<Rightarrow> bool" where
  "harmless h \<longleftrightarrow> (\<forall>w resp w'. h w = (resp, w') \<longrightarrow> submissions (w_db w') = submissions (w_db w) \<and> (\<forall>sub. resp_body resp \<noteq> SubmissionBody sub))"

lemma harmless_pure: "(\<And>sub. resp_body resp \<noteq> SubmissionBody sub) \<Longrightarrow> harmless (\<lambda>w. (resp, w))"
  by (simp add: harmless_def)

lemma harmless_db:
  assumes "reads f" and "\<And>e. harmless (\<lambda>w. (g e, w))" and "\<And>x. harmless (h x)"
  shows "harmless (\<lambda>w. case on_db f w of (Inl e, w1) \<Rightarrow> (g e, w1) | (Inr x, w1) \<Rightarrow> h x w1)"
  unfolding harmless_def
proof (intro allI impI)
  fix w resp w'
  assume run: "(case on_db f w of (Inl e, w1) \<Rightarrow> (g e, w1) | (Inr x, w1) \<Rightarrow> h x w1) = (resp, w')"
  obtain r w1 where o: "on_db f w = (r, w1)" by (cases "on_db f w")
  have "submissions (w_db w1) = submissions (w_db w)" using reads_on_db [OF assms(1), of w] o by simp
  then show "submissions (w_db w') = submissions (w_db w) \<and> (\<forall>sub. resp_body resp \<noteq> SubmissionBody sub)"
    using run o assms(2,3) by (cases r) (auto simp: harmless_def)
qed

lemma harmless_redis:
  assumes "\<And>e. harmless (\<lambda>w. (g e, w))" and "\<And>x. harmless (h x)"
  shows "harmless (\<lambda>w. case on_redis f w of (Inl e, w1) \<Rightarrow> (g e, w1) | (Inr x, w1) \<Rightarrow> h x w1)"
  unfolding harmless_def
proof (intro allI impI)
  fix w resp w'
  assume run: "(case on_redis f w of (Inl e, w1) \<Rightarrow> (g e, w1) | (Inr x, w1) \<Rightarrow> h x w1) = (resp, w')"
  obtain r w1 where o: "on_redis f w = (r, w1)" by (cases "on_redis f w")
  have "w_db w1 = w_db w" using on_redis_frame(1) [of f w] o by simp
  then show "submissions (w_db w') = submissions (w_db w) \<and> (\<forall>sub. resp_body resp \<noteq> SubmissionBody sub)"
    using run o assms by (cases r) (auto simp: harmless_def)
qed

lemma reads_Ping [reads_intros]: "reads Ping"
  unfolding Ping_def by (rule reads_query) simp

lemmas harmless_intros = harmless_db harmless_redis harmless_pure reads_intros

lemma body_not_submission [simp]:
  "resp_body (writeErr c m) = ErrBody (Text m)" "resp_body (writeJSON c b) = b"
  by (simp_all add: writeErr_def writeJSON_def)

lemma harmless_with_contest: "(\<And>c. harmless (h c)) \<Longrightarrow> harmless (with_contest slug h)"
  unfolding with_contest_def by (intro harmless_intros) simp_all

lemma harmless_handleReady: "harmless (handleReady X S)"
  unfolding handleReady_def by (intro harmless_intros) simp_all

lemma harmless_handleLanguages: "harmless (handleLanguages S)"
  by (simp add: harmless_def handleLanguages_def)

lemma harmless_handleContest: "harmless (handleContest i)"
  unfolding handleContest_def by (intro harmless_intros) simp_all

lemma harmless_handleProblem: "harmless (handleProblem i)"
  unfolding handleProblem_def by (intro harmless_intros) simp_all

lemma harmless_handleProblems: "harmless (handleProblems i)"
  unfolding handleProblems_def by (intro harmless_with_contest harmless_intros) simp_all

lemma harmless_handleLeaderboard: "harmless (handleLeaderboard X i)"
  unfolding handleLeaderboard_def by (intro harmless_with_contest harmless_intros) simp_all

lemma harmless_handleRebuild: "harmless (handleRebuild X i)"
  unfolding handleRebuild_def by (intro harmless_with_contest harmless_intros) simp_all

lemma harmless_handleQueueStats: "harmless (handleQueueStats X S)"
  unfolding handleQueueStats_def by (intro harmless_redis) (auto simp: harmless_def)

lemma harmless_handleListSubmissions: "harmless (handleListSubmissions u q)"
  unfolding handleListSubmissions_def Let_def by (intro harmless_intros) simp_all

lemma harmless_handleLogin: "harmless (handleLogin X S inp)"
proof (cases inp)
  case (Some i)
  show ?thesis unfolding Some handleLogin_def option.case
    by (rule harmless_db) (auto simp: harmless_def reads_intros split: option.splits)
qed (simp add: handleLogin_def harmless_def)

lemma harmless_handleRegister: "harmless (handleRegister X S inp)"
proof (cases inp)
  case (Some i)
  show ?thesis unfolding harmless_def
  proof (intro allI impI)
    fix w resp w' assume run: "handleRegister X S inp w = (resp, w')"
    have cu: "harmless (\<lambda>w. case on_db (CreateUser u) w of (Inl _, w2) \<Rightarrow> (writeErr 409 ''handle already taken'', w2)
        | (Inr u, w2) \<Rightarrow> (let tok = (case issueToken X S (u_ID u) (u_Handle u) (u_Role u) (w_now w2) of Some t \<Rightarrow> t | None \<Rightarrow> [])
                         in (writeJSON 201 (AuthBody tok u), w2)))" for u
      by (rule harmless_db) (auto simp: harmless_def reads_intros Let_def)
    show "submissions (w_db w') = submissions (w_db w) \<and> (\<forall>sub. resp_body resp \<noteq> SubmissionBody sub)"
      using run cu [unfolded harmless_def Let_def, rule_format, of _ "w\<lparr>w_salt := w_salt w + 1\<rparr>" resp w']
      unfolding handleRegister_def Some option.case Let_def
      by (cases "x_bcrypt X (w_salt w) (in_Password i)") (auto split: if_splits)
  qed
qed (simp add: handleRegister_def harmless_def)

lemmas harmless_handlers = harmless_handleReady harmless_handleLanguages harmless_handleContest harmless_handleProblem
  harmless_handleProblems harmless_handleLeaderboard harmless_handleRebuild harmless_handleQueueStats
  harmless_handleListSubmissions harmless_handleLogin harmless_handleRegister

lemma harmless_public: "(meth, pat, h) \<in> set (public_routes X S req) \<Longrightarrow> harmless (h xs)"
  unfolding public_routes_def by (auto simp: harmless_handlers harmless_def [of "\<lambda>w. (_, w)"])

definition authenticated :: "'s ext \<Rightarrow> Server \<Rightarrow> request \<Rightarrow> gotime \<Rightarrow> Claims \<Rightarrow> bool" where
  "authenticated X S req now c \<longleftrightarrow> prefix ''Bearer '' (rq_header req ''Authorization'') \<and>
     parse_jwt X (drop 7 (rq_header req ''Authorization'')) (jwt_key S) [''HS256''] ''arena'' now = Some c"

text \<open>What a caller may do to the rows and see of them.\<close>

definition permitted :: "Claims \<Rightarrow> response \<Rightarrow> sub_row list \<Rightarrow> sub_row list \<Rightarrow> bool" where
  "permitted c resp qs qs' \<longleftrightarrow> (qs' = qs \<or> (\<exists>r. qs' = qs @ [r] \<and> row_user_id r = cl_UserID c)) \<and>
     (\<forall>sub. resp_body resp = SubmissionBody sub \<longrightarrow>
        sub = zero_Submission \<or> s_UserID sub = cl_UserID c \<or> cl_Role c = ''admin'' \<or> cl_Role c = ''setter'')"

lemma harmless_permitted: "harmless h \<Longrightarrow> h w = (resp, w') \<Longrightarrow> permitted c resp (submissions (w_db w)) (submissions (w_db w'))"
  by (auto simp: harmless_def permitted_def)

lemma harmless_requireRole: "harmless h \<Longrightarrow> harmless (requireRole roles (\<lambda>_. h) c)"
  by (auto simp: requireRole_def harmless_def)

lemma submit_permitted:
  "handleSubmit X S c pid idem inp w = (resp, w') \<Longrightarrow> permitted c resp (submissions (w_db w)) (submissions (w_db w'))"
  by (drule handleSubmit_effect [THEN conjunct1]) (auto simp: submit_effect_def owned_def permitted_def row_for_def)

lemma get_permitted:
  assumes "handleGetSubmission c i w = (resp, w')"
  shows "permitted c resp (submissions (w_db w)) (submissions (w_db w'))"
proof -
  obtain r w1 where o: "on_db (GetSubmission i) w = (r, w1)" by (cases "on_db (GetSubmission i) w")
  have "submissions (w_db w1) = submissions (w_db w)" using reads_on_db [OF reads_GetSubmission, of i w] o by simp
  then show ?thesis using assms o by (cases r) (auto simp: handleGetSubmission_def permitted_def split: if_splits)
qed

lemma harmless_if: "harmless h \<Longrightarrow> harmless k \<Longrightarrow> harmless (\<lambda>w. if b then h w else k w)"
  by (simp add: harmless_def)

lemma harmless_SSE: "harmless (handleSubmissionSSE X u i fl es)"
  unfolding handleSubmissionSSE_def Let_def by (intro harmless_intros harmless_if) simp_all

lemma requireAuth_cases:
  assumes "requireAuth X S (rq_header req) nxt w = (resp, w')"
  shows "(\<exists>m. resp = writeErr 401 m) \<and> w' = w \<or> (\<exists>c. authenticated X S req (w_now w) c \<and> nxt c w = (resp, w'))"
  using assms by (auto simp: requireAuth_def Let_def authenticated_def parseToken_def split: if_splits option.splits)

lemma user_handler_permitted:
  assumes "(meth, pat, g) \<in> set (user_handlers X S req)" and "g xs c w = (resp, w')"
  shows "permitted c resp (submissions (w_db w)) (submissions (w_db w'))"
proof -
  have "(\<exists>pid idem inp. g xs c = handleSubmit X S c pid idem inp) \<or> (\<exists>i. g xs c = handleGetSubmission c i) \<or> harmless (g xs c)"
    using assms(1) unfolding user_handlers_def
    by (auto simp: harmless_handlers harmless_SSE harmless_requireRole)
  then show ?thesis using assms(2) submit_permitted get_permitted harmless_permitted by metis
qed

lemma user_permitted:
  assumes "(meth, pat, h) \<in> set (user_routes X S req)" and "h xs w = (resp, w')"
  shows "(\<exists>m. resp = writeErr 401 m) \<and> w' = w \<or>
    (\<exists>c. authenticated X S req (w_now w) c \<and> permitted c resp (submissions (w_db w)) (submissions (w_db w')))"
proof -
  obtain g where h: "h = (\<lambda>xs. requireAuth X S (rq_header req) (g xs))" and g: "(meth, pat, g) \<in> set (user_handlers X S req)"
    using assms(1) unfolding user_routes_def by auto
  show ?thesis using requireAuth_cases [of X S req "g xs" w resp w'] assms(2) user_handler_permitted [OF g] unfolding h by blast
qed

subsection \<open>Properties\<close>



end
