(* ===== verification/System.thy ===== *)
theory System
  imports Router Reconciler Race
begin

section \<open>The API as a whole\<close>

text \<open>
  Any number of API processes that serve any requests, their reconcilers and the passing of
  time, over one database. Every handler of the router and every tick of a reconciler is a
  sequence of the database steps of theory Store, so the invariants of the table hold across
  the whole life of the system, and what a participant was told stays true.
\<close>

subsection \<open>Handlers advance the database\<close>

definition advancing :: "'s handler \<Rightarrow> bool" where
  "advancing h \<longleftrightarrow> (\<forall>w. evolves w (snd (h w)))"

lemma advancing_pure: "advancing (\<lambda>w. (resp, w))"
  by (simp add: advancing_def)

lemma advancing_db:
  fixes h :: "'b \<Rightarrow> 's handler"
  assumes "db_effect f" and "\<And>x. advancing (h x)"
  shows "advancing (\<lambda>w. case on_db f w of (Inl e, w1) \<Rightarrow> (g e, w1) | (Inr x, w1) \<Rightarrow> h x w1)"
  unfolding advancing_def
proof
  fix w :: "'s world"
  obtain r w1 where o: "on_db f w = (r, w1)" by (cases "on_db f w")
  then show "evolves w (snd (case on_db f w of (Inl e, w1) \<Rightarrow> (g e, w1) | (Inr x, w1) \<Rightarrow> h x w1))"
    using on_db_evolves [OF o assms(1)] assms(2) by (cases r) (auto simp: advancing_def intro: evolves_trans)
qed

lemma advancing_redis:
  fixes h :: "'b \<Rightarrow> 's handler"
  assumes "\<And>x. advancing (h x)"
  shows "advancing (\<lambda>w. case on_redis f w of (Inl e, w1) \<Rightarrow> (g e, w1) | (Inr x, w1) \<Rightarrow> h x w1)"
  unfolding advancing_def
proof
  fix w :: "'s world"
  obtain r w1 where o: "on_redis f w = (r, w1)" by (cases "on_redis f w")
  then show "evolves w (snd (case on_redis f w of (Inl e, w1) \<Rightarrow> (g e, w1) | (Inr x, w1) \<Rightarrow> h x w1))"
    using on_redis_evolves [OF o] assms by (cases r) (auto simp: advancing_def intro: evolves_trans)
qed

lemma advancing_if: "advancing h \<Longrightarrow> advancing k \<Longrightarrow> advancing (\<lambda>w. if b then h w else k w)"
  by (simp add: advancing_def)

lemma effect_Ping [effect_intros]: "db_effect Ping"
  unfolding Ping_def by (rule effect_read) simp

lemmas advancing_intros = advancing_db advancing_redis advancing_pure advancing_if effect_intros

lemma advancing_with_contest: "(\<And>c. advancing (h c)) \<Longrightarrow> advancing (with_contest slug h)"
  unfolding with_contest_def by (intro advancing_intros)

lemma advancing_readers:
  "advancing (handleReady X S)" "advancing (handleContest i)" "advancing (handleProblem i)" "advancing (handleGetSubmission u i)"
  unfolding handleReady_def handleContest_def handleProblem_def handleGetSubmission_def by (intro advancing_intros)+

lemma advancing_contest_readers:
  "advancing (handleProblems i)" "advancing (handleLeaderboard X i)" "advancing (handleRebuild X i)"
  unfolding handleProblems_def handleLeaderboard_def handleRebuild_def
  by (intro advancing_with_contest advancing_intros)+

lemma advancing_handleLanguages: "advancing (handleLanguages S)"
  by (simp add: advancing_def handleLanguages_def)

lemma advancing_handleQueueStats: "advancing (handleQueueStats X S)"
  unfolding handleQueueStats_def by (rule advancing_redis) (auto simp: advancing_def)

lemma advancing_handleListSubmissions: "advancing (handleListSubmissions u q)"
  unfolding handleListSubmissions_def Let_def by (intro advancing_intros)

lemma advancing_SSE: "advancing (handleSubmissionSSE X u i fl es)"
  unfolding handleSubmissionSSE_def Let_def by (intro advancing_intros)

lemma advancing_handleLogin: "advancing (handleLogin X S inp)"
proof (cases inp)
  case (Some i)
  show ?thesis unfolding Some handleLogin_def option.case
    by (rule advancing_db) (auto simp: advancing_def effect_intros split: option.split)
qed (simp add: handleLogin_def advancing_def)

lemma advancing_handleRegister: "advancing (handleRegister X S inp)"
proof (cases inp)
  case (Some i)
  have "evolves w (snd (on_db (CreateUser u) (w\<lparr>w_salt := n\<rparr>)))" for w :: "'a world" and u n
    using evolves_db [OF effect_writes(7), of "w\<lparr>w_salt := n\<rparr>" u] by (simp add: evolves_def)
  then have "evolves w w'" if "on_db (CreateUser u) (w\<lparr>w_salt := n\<rparr>) = (r, w')" for w w' :: "'a world" and u n r
    using that by (metis snd_conv)
  moreover have "evolves w (w\<lparr>w_salt := n\<rparr>)" for w :: "'a world" and n by (rule evolves_same_db) simp
  ultimately show ?thesis unfolding Some handleRegister_def advancing_def
    by (auto simp: Let_def split: option.split prod.split sum.split)
qed (simp add: handleRegister_def advancing_def)

lemma advancing_handleMarkJudging: "advancing (handleMarkJudging X i inp)"
  unfolding handleMarkJudging_def
  by (rule advancing_db) (auto simp: advancing_def effect_intros publishEvent_evolves)

lemma advancing_finish: "advancing (\<lambda>w. (r, snd (on_redis f (afterVerdict X S sub res p w))))"
  unfolding advancing_def snd_conv
  by (intro allI, rule evolves_trans [OF afterVerdict_evolves evolves_same_db]) simp

lemma advancing_handleResult: "advancing (handleResult X S inp)"
proof (cases inp)
  case (Some res)
  have "advancing (finish_result X S r)" for r
    unfolding finish_result_def Let_def by (intro advancing_intros advancing_finish)
  then show ?thesis unfolding Some handleResult_def by (auto simp: advancing_def)
qed (simp add: handleResult_def advancing_def)

lemma submit_steps_evolves: "submit_steps n X S q c = (s', w') \<Longrightarrow> evolves (snd c) w'"
proof (induction n arbitrary: c)
  case (Suc n)
  obtain s w where c: "c = (s, w)" by (cases c)
  obtain s1 w1 where 1: "submit_step X S q s w = (s1, w1)" by (cases "submit_step X S q s w")
  have "evolves w w1" by (rule submit_step_evolves [OF 1])
  moreover have "evolves w1 w'" using Suc.IH [of "(s1, w1)"] Suc.prems 1 c by simp
  ultimately show ?case unfolding c by (auto intro: evolves_trans)
qed simp

lemma advancing_handleSubmit: "advancing (handleSubmit X S u pid idem inp)"
  unfolding advancing_def
proof
  fix w
  let ?q = "\<lparr>sr_user = u, sr_problem = pid, sr_key = idem, sr_body = inp\<rparr>"
  obtain resp w' where h: "handleSubmit X S u pid idem inp w = (resp, w')" by (cases "handleSubmit X S u pid idem inp w")
  then have "submit_steps 12 X S ?q (Checking, w) = (Answered resp, w')" by (intro steps_are_handler) simp
  from submit_steps_evolves [OF this] show "evolves w (snd (handleSubmit X S u pid idem inp w))" by (simp add: h)
qed

lemmas advancing_handlers = advancing_readers advancing_contest_readers advancing_handleLanguages advancing_handleQueueStats
  advancing_handleListSubmissions advancing_SSE advancing_handleLogin advancing_handleRegister advancing_handleSubmit
  advancing_handleMarkJudging advancing_handleResult

lemma advancing_requireRole: "advancing h \<Longrightarrow> advancing (requireRole roles (\<lambda>_. h) c)"
  by (simp add: advancing_def requireRole_def)

lemma advancing_dispatch:
  assumes "\<And>meth pat h xs. (meth, pat, h) \<in> set rs \<Longrightarrow> advancing (h xs)"
  shows "advancing (dispatch rs req)"
  unfolding advancing_def
proof
  fix w
  obtain resp w' where d: "dispatch rs req w = (resp, w')" by (cases "dispatch rs req w")
  then show "evolves w (snd (dispatch rs req w))"
  proof (cases rule: dispatch_cases)
    case unmatched
    then show ?thesis using d by simp
  next
    case (matched meth pat h xs)
    have "evolves w (snd (h xs w))" using assms [OF matched(1)] by (simp add: advancing_def)
    then show ?thesis using d matched(2) by simp
  qed
qed

lemma advancing_user_handlers: "(meth, pat, g) \<in> set (user_handlers X S req) \<Longrightarrow> advancing (g xs c)"
  unfolding user_handlers_def by (auto simp: advancing_handlers advancing_requireRole)

lemma advancing_requireAuth: "(\<And>c. advancing (g c)) \<Longrightarrow> advancing (requireAuth X S hdr g)"
  by (simp add: advancing_def requireAuth_def Let_def split: option.split)

lemma advancing_user_routes: "(meth, pat, h) \<in> set (user_routes X S req) \<Longrightarrow> advancing (h xs)"
  unfolding user_routes_def by (auto intro!: advancing_requireAuth dest: advancing_user_handlers)

lemma advancing_public_routes: "(meth, pat, h) \<in> set (public_routes X S req) \<Longrightarrow> advancing (h xs)"
  unfolding public_routes_def by (auto simp: advancing_handlers advancing_pure)

lemma advancing_internal_routes: "(meth, pat, h) \<in> set (internal_routes X S req) \<Longrightarrow> advancing (h xs)"
  unfolding internal_routes_def by (auto simp: advancing_handlers)

lemma advancing_Router: "advancing (Router X S req)"
proof (cases "rq_path req \<noteq> [] \<and> hd (rq_path req) = ''internal''")
  case True
  have "advancing (dispatch (internal_routes X S req) req)" by (rule advancing_dispatch) (rule advancing_internal_routes)
  then show ?thesis using True by (simp add: Router_def advancing_def requireRunnerToken_def)
next
  case False
  have "advancing (dispatch (public_routes X S req @ user_routes X S req) req)"
    by (rule advancing_dispatch) (auto dest: advancing_public_routes advancing_user_routes)
  then show ?thesis unfolding Router_def using False by auto
qed

subsection \<open>Reconcilers\<close>

lemma reconcile_one_evolves: "evolves w (reconcile_one X S w sub)"
proof -
  have rp: "evolves w (republish X S sub n w)" for w :: "'a world" and n
  proof -
    obtain r1 w1 where 1: "on_db (GetProblem (s_ProblemID sub)) w = (r1, w1)" by (cases "on_db (GetProblem (s_ProblemID sub)) w")
    have e: "evolves w w1" by (rule on_db_evolves [OF 1 effect_reads(1)])
    show ?thesis
    proof (cases r1)
      case (Inr p)
      obtain r2 w2 where 2: "on_db (ListTestCases (p_ID p)) w1 = (r2, w2)" by (cases "on_db (ListTestCases (p_ID p)) w1")
      have "evolves w w2" by (rule evolves_trans [OF e on_db_evolves [OF 2 effect_reads(3)]])
      then show ?thesis using 1 2 Inr evolves_trans [OF _ enqueue_evolves, of w w2]
        by (cases r2) (auto simp: republish_def split: option.split)
    qed (use 1 e in \<open>simp add: republish_def\<close>)
  qed
  obtain r w1 where 1: "on_db (BumpAttempt (s_ID sub)) w = (r, w1)" by (cases "on_db (BumpAttempt (s_ID sub)) w")
  have "evolves w w1" by (rule on_db_evolves [OF 1 effect_writes(4)])
  moreover have "evolves w1 (publishEvent X t e (snd (on_db (SaveResult res) w1)))" for t e res
    by (rule evolves_trans [OF evolves_db [OF effect_writes(3)] publishEvent_evolves])
  ultimately show ?thesis using 1 rp by (cases r) (auto simp: reconcile_one_def intro: evolves_trans)
qed

lemma reconcileOnce_evolves: "evolves w (reconcileOnce X S t w)"
proof -
  have f: "evolves w (foldl (reconcile_one X S) w subs)" for w :: "'a world" and subs
    by (induction subs arbitrary: w) (auto intro: evolves_trans reconcile_one_evolves)
  obtain r w1 where 1: "on_db (StuckSubmissions t 100) w = (r, w1)" by (cases "on_db (StuckSubmissions t 100) w")
  have "evolves w w1" by (rule on_db_evolves [OF 1 effect_reads(8)])
  then show ?thesis using 1 f by (cases r) (auto simp: reconcileOnce_def intro: evolves_trans)
qed

subsection \<open>The system\<close>

text \<open>A request to any process, a tick of any reconciler, a single statement of a request that
  is interleaved with others, or a change that leaves the database alone.\<close>

inductive system_step :: "'s ext \<Rightarrow> 's world \<Rightarrow> 's world \<Rightarrow> bool" for X where
  serve: "Router X S req w = (resp, w') \<Longrightarrow> system_step X w w'"
| reconcile: "system_step X w (reconcileOnce X S t w)"
| statement: "db_step (w_db w) (w_db w') \<Longrightarrow> system_step X w w'"
| outside: "w_db w' = w_db w \<Longrightarrow> system_step X w w'"

lemma system_step_evolves: "system_step X w w' \<Longrightarrow> evolves w w'"
proof (induction rule: system_step.induct)
  case (serve S req w resp w')
  then show ?case using advancing_Router [of X S req] by (metis advancing_def snd_conv)
next
  case (statement w w')
  then show ?case by (simp add: evolves_def)
qed (auto intro: reconcileOnce_evolves evolves_same_db)

lemma system_evolves: "(system_step X)\<^sup>*\<^sup>* w w' \<Longrightarrow> evolves w w'"
  by (induction rule: rtranclp_induct) (auto intro: evolves_trans system_step_evolves)

subsection \<open>What an answer 202 means\<close>

text \<open>Only \<open>handleSubmit\<close> answers 202, and then with a row it has just added.\<close>

lemma submit_202:
  assumes "handleSubmit X S u pid idem inp w = (resp, w')" and "status_code resp = 202" and "resp_body resp = SubmissionBody sub"
  shows "has_row (cl_UserID u) (nullStr idem) (s_ID sub) (w_db w')"
  using handleSubmit_effect [OF assms(1), THEN conjunct1] assms(2,3) unfolding submit_effect_def row_for_def has_row_def by auto

lemma get_not_202:
  "handleGetSubmission u i w = (resp, w') \<Longrightarrow> status_code resp \<noteq> 202"
  by (auto simp: handleGetSubmission_def writeErr_def writeJSON_def split: prod.splits sum.splits if_splits)

lemma user_handler_202:
  assumes "(meth, pat, g) \<in> set (user_handlers X S req)" and "g xs c w = (resp, w')"
    and "status_code resp = 202" and "resp_body resp = SubmissionBody sub"
  shows "has_row (cl_UserID c) (nullStr (rq_header req ''Idempotency-Key'')) (s_ID sub) (w_db w')"
proof -
  let ?idem = "rq_header req ''Idempotency-Key''"
  have "(\<exists>pid inp. g xs c = handleSubmit X S c pid ?idem inp) \<or> (\<exists>i. g xs c = handleGetSubmission c i) \<or> harmless (g xs c)"
    using assms(1) unfolding user_handlers_def
    by (auto simp: harmless_handlers harmless_SSE harmless_requireRole)
  then consider pid inp where "handleSubmit X S c pid ?idem inp w = (resp, w')" | i where "handleGetSubmission c i w = (resp, w')"
    | "harmless (g xs c)" using assms(2) by metis
  then show ?thesis
  proof cases
    case 1
    then show ?thesis using submit_202 assms(3,4) by blast
  next
    case 2
    then show ?thesis using get_not_202 assms(3) by blast
  next
    case 3
    then show ?thesis using assms(2,4) by (auto simp: harmless_def)
  qed
qed

lemma results_no_submission:
  assumes "(meth, pat, h) \<in> set (internal_routes X S req)" and "h xs w = (resp, w')"
  shows "resp_body resp \<noteq> SubmissionBody sub"
proof -
  have f: "resp_body (fst (finish_result X S r w)) \<noteq> SubmissionBody sub" for r and w :: "'a world"
    by (auto simp: finish_result_def no_content_def Let_def split: prod.split sum.split)
  have "resp_body (fst (handleResult X S inp w)) \<noteq> SubmissionBody sub" for inp
    using f by (simp add: handleResult_def split: option.split)
  moreover have "resp_body (fst (handleMarkJudging X i inp w)) \<noteq> SubmissionBody sub" for i inp
    by (auto simp: handleMarkJudging_def no_content_def split: prod.split sum.split)
  ultimately show ?thesis using assms unfolding internal_routes_def
    by (auto dest: arg_cong [of _ _ fst] split: if_splits) (metis fst_conv)+
qed

lemma Router_202:
  assumes "Router X S req w = (resp, w')" and "status_code resp = 202" and "resp_body resp = SubmissionBody sub"
  shows "\<exists>c. authenticated X S req (w_now w) c \<and> has_row (cl_UserID c) (nullStr (rq_header req ''Idempotency-Key'')) (s_ID sub) (w_db w')"
proof (cases "rq_path req \<noteq> [] \<and> hd (rq_path req) = ''internal''")
  case True
  then have "requireRunnerToken S (rq_header req) (dispatch (internal_routes X S req) req) w = (resp, w')" using assms(1) by (simp add: Router_def)
  then have "dispatch (internal_routes X S req) req w = (resp, w')"
    using assms(3) by (auto simp: requireRunnerToken_def split: if_splits)
  then show ?thesis
    by (cases rule: dispatch_cases) (use assms(3) results_no_submission in force)+
next
  case False
  then have "dispatch (public_routes X S req @ user_routes X S req) req w = (resp, w')" using assms(1) by (auto simp: Router_def)
  then show ?thesis
  proof (cases rule: dispatch_cases)
    case unmatched
    then show ?thesis using assms(3) by simp
  next
    case (matched meth pat h xs)
    then consider "(meth, pat, h) \<in> set (public_routes X S req)" | "(meth, pat, h) \<in> set (user_routes X S req)" by auto
    then show ?thesis
    proof cases
      case 1
      then show ?thesis using harmless_public [OF 1, of xs] matched(2) assms(3) by (auto simp: harmless_def)
    next
      case 2
      then obtain g where h: "h = (\<lambda>xs. requireAuth X S (rq_header req) (g xs))" and g: "(meth, pat, g) \<in> set (user_handlers X S req)"
        unfolding user_routes_def by auto
      have "resp \<noteq> writeErr 401 m" for m using assms(2) by (auto simp: writeErr_def writeJSON_def)
      then obtain c where c: "authenticated X S req (w_now w) c" "g xs c w = (resp, w')"
        using requireAuth_cases [of X S req "g xs" w resp w'] matched(2) unfolding h by blast
      from user_handler_202 [OF g c(2) assms(2,3)] c(1) show ?thesis by blast
    qed
  qed
qed

subsection \<open>Properties\<close>

text \<open>
  C13: what the system keeps, whatever its processes do afterwards in any order: a submission
  that was answered with 202 stays in the table under its identifier, with the owner of the
  token and the key it was sent with, it is the only row with that identifier or key, and its
  status and verdict are well formed.
\<close>

theorem accepted_submission_kept:
  assumes "Router X S req w = (resp, w1)" and "status_code resp = 202" and "resp_body resp = SubmissionBody sub"
    and "db_ok (w_db w)" and "(system_step X)\<^sup>*\<^sup>* w1 w2"
  shows "\<exists>c r. authenticated X S req (w_now w) c \<and> find_row (s_ID sub) (w_db w2) = Some r \<and>
    row_user_id r = cl_UserID c \<and> row_idempotency_key r = nullStr (rq_header req ''Idempotency-Key'') \<and> Store.row_ok r \<and>
    (\<forall>q \<in> set (submissions (w_db w2)). same_key q r \<longrightarrow> q = r)"
proof -
  let ?key = "nullStr (rq_header req ''Idempotency-Key'')"
  obtain c where c: "authenticated X S req (w_now w) c" and h: "has_row (cl_UserID c) ?key (s_ID sub) (w_db w1)"
    using Router_202 [OF assms(1-3)] by blast
  have "evolves w w1" using system_step_evolves [OF system_step.serve [OF assms(1)]] .
  then have ok: "db_ok (w_db w2)" using evolves_ok [OF system_evolves [OF assms(5)]] evolves_ok assms(4) by blast
  obtain r where r: "r \<in> set (submissions (w_db w2))" "row_id r = s_ID sub" "row_user_id r = cl_UserID c" "row_idempotency_key r = ?key"
    using evolves_has_row [OF system_evolves [OF assms(5)] h] by (auto simp: has_row_def)
  have f: "find_row (s_ID sub) (w_db w2) = Some r"
    using find_row_unique [OF ok _ r(1,2)] r(1,2) by (cases "find_row (s_ID sub) (w_db w2)") (auto simp: find_row_def find_None_iff)
  have "Store.row_ok r" using ok r(1) by (auto simp: db_ok_def list_all_iff)
  moreover have "\<forall>q \<in> set (submissions (w_db w2)). same_key q r \<longrightarrow> q = r" using db_ok_key [OF ok _ r(1)] by blast
  ultimately show ?thesis using c f r(3,4) by blast
qed

definition sample_ref :: TestRef where
  "sample_ref = \<lparr>ref_Index = 0, ref_InputRef = ''t/0.in'', ref_OutputRef = ''t/0.out'', ref_IsSample = True, ref_Points = 1\<rparr>"

definition ready_world :: "ref_state world" where
  "ready_world = (sample_world (catalogue_db\<lparr>test_cases := [(''p'', sample_ref)]\<rparr>))
     \<lparr>w_fs := blank_fs\<lparr>tree := [([''blobs'', ''src'', ''78''], File 0)]\<rparr>\<rparr>"

definition open_ext :: "ref_state ext" where
  "open_ext = sample_ext\<lparr>parse_jwt := \<lambda>_ _ _ _ _. Some sample_claims\<rparr>"

definition submit_post :: request where
  "submit_post = \<lparr>rq_method = ''POST'', rq_path = [''v1'', ''problems'', ''p'', ''submissions''], rq_header = (\<lambda>_. ''Bearer x''),
     rq_query = (\<lambda>_. []), rq_body = ''x'', rq_flusher = True, rq_events = []\<rparr>"

text \<open>On an empty table and an empty cache a submission with valid columns is queued.\<close>

lemma admit_first:
  assumes "submissions (w_db w) = []" and "verdict_cache (w_db w) = []" and "db_faults (w_db w) = (\<lambda>_. False)"
    and "texts_ok (submission_for u p m h idem)"
    and "references_ok ((w_db w)\<lparr>db_clock := Suc (db_clock (w_db w))\<rparr>) (submission_for u p m h idem)"
  shows "\<exists>w'. admit X S u idem h m p tests w =
    (writeJSON 202 (SubmissionBody (projr (fst (CreateSubmission (submission_for u p m h idem) (w_db w))))), w')"
proof -
  let ?x = "submission_for u p m h idem"
  obtain sub d' where c: "CreateSubmission ?x (w_db w) = (Inr sub, d')"
    using CreateSubmission_first [OF assms(1,3-5)] by (metis prod.collapse)
  let ?w = "w\<lparr>w_db := d'\<rparr>"
  have "verdict_cache d' = []" "db_faults d' = (\<lambda>_. False)"
    using c assms by (auto simp: CreateSubmission_def query_def Let_def split: if_splits)
  then have "fst (replay_cached X S sub m p ?w) = None"
    by (simp add: replay_cached_def Let_def on_db_def CachedVerdict_def query_def)
  then obtain w2 where "replay_cached X S sub m p ?w = (None, w2)" by (metis prod.collapse)
  then show ?thesis using c by (auto simp: admit_def on_db_def)
qed

lemma ready_source:
  assumes "w_fs w = blank_fs\<lparr>tree := [([''blobs'', ''src'', ''78''], File 0)]\<rparr>"
  shows "source_hash (open_ext\<lparr>x_codec := J\<rparr>) ''x'' = ''78'' \<and>
    (\<exists>w'. store_source (open_ext\<lparr>x_codec := J\<rparr>) sample_server ''src/78'' ''x'' w = (True, w') \<and> w_db w' = w_db w)"
proof -
  have "hex_digit 7 = CHR ''7''" "hex_digit 8 = CHR ''8''" by code_simp+
  then have "source_hash (open_ext\<lparr>x_codec := J\<rparr>) ''x'' = ''78''" by (simp add: source_hash_def EncodeToString_def open_ext_def sample_ext_def)
  moreover have "blob_path [''blobs''] ''src/78'' = Inr [''blobs'', ''src'', ''78'']"
    by (simp add: blob_path_def clean_key_def TrimPrefix_def render_def shard_def sublist_code)
  ultimately show ?thesis
    by (simp add: store_source_def on_fs_def Exists_def with_path_def bind_def attempt_def Stat_def FileSys.syscall_def ret_def Let_def
      sample_server_def assms blank_fs_def entry_def)
qed

text \<open>The request is accepted whatever the codec of the queue, and the row is the same.\<close>

lemma ready_accept:
  "\<exists>sub. \<forall>J. \<exists>w'. handleSubmit (open_ext\<lparr>x_codec := J\<rparr>) sample_server sample_claims ''p'' ''Bearer x''
     (Some \<lparr>in_Language = ''py'', in_Source = ''x''\<rparr>) ready_world = (writeJSON 202 (SubmissionBody sub), w')"
proof -
  let ?i = "\<lparr>in_Language = ''py'', in_Source = ''x''\<rparr>" let ?k = "''Bearer x''"
  let ?p = "sample_problem\<lparr>p_Limits := Normalize (p_Limits sample_problem)\<rparr>"
  let ?x = "submission_for sample_claims ?p sample_manifest ''78'' ?k" let ?d = "catalogue_db\<lparr>test_cases := [(''p'', sample_ref)]\<rparr>"
  define sub where "sub = projr (fst (CreateSubmission ?x (?d\<lparr>db_clock := 3\<rparr>)))"
  have "\<not> blank ''x''" by (simp add: blank_def runes_unfold DecodeRune_decode isSpace_def)
  then have c: "check_request sample_server (Some ?i) = Inr (?i, sample_manifest)"
    by (simp add: check_request_def maxSourceBytes_def sample_server_def Langs.Get_def)
  have d: "submissions catalogue_db = []" "db_faults catalogue_db = (\<lambda>_. False)" "db_clock catalogue_db = 0"
    "problems catalogue_db = [sample_problem]" "verdict_cache catalogue_db = []"
    by (simp_all add: catalogue_db_def empty_db_def)
  have ok: "texts_ok ?x" "references_ok (?d\<lparr>db_clock := n\<rparr>) ?x" for n
    by (auto simp: texts_ok_def submission_for_def zero_Submission_def sample_problem_def sample_manifest_def intro!: valid_text_ascii)
      (simp add: references_ok_def submission_for_def sample_claims_def sample_problem_def catalogue_db_def sample_contest_def)
  have "\<exists>w'. handleSubmit X sample_server sample_claims ''p'' ?k (Some ?i) ready_world = (writeJSON 202 (SubmissionBody sub), w')"
    if X: "X = open_ext\<lparr>x_codec := J\<rparr>" for X J
  proof -
    obtain w1 where w1: "rate_limit X sample_server sample_claims ready_world = (None, w1)" "w_db w1 = ?d"
        "w_fs w1 = blank_fs\<lparr>tree := [([''blobs'', ''src'', ''78''], File 0)]\<rparr>"
      by (auto simp: rate_limit_def on_redis_def Allow_def sample_server_def sample_cfg_def ready_world_def sample_world_def)
    let ?w2 = "w1\<lparr>w_db := ?d\<lparr>db_clock := 1\<rparr>\<rparr>" let ?w3 = "w1\<lparr>w_db := ?d\<lparr>db_clock := 3\<rparr>\<rparr>"
    have 2: "by_key sample_claims ?k w1 = (None, ?w2)"
      by (simp add: by_key_def on_db_def FindByIdempotencyKey_def query_def Let_def w1(2) d)
    have 3: "catalogue ''p'' ?w2 = (Inr (?p, [sample_ref]), ?w3)"
      by (simp add: catalogue_def on_db_def GetProblem_def ListTestCases_def scanProblem_def query_def Let_def d sample_problem_def)
    obtain w4 where 4: "source_hash X ''x'' = ''78''" "store_source X sample_server ''src/78'' ''x'' ?w3 = (True, w4)"
        "w_db w4 = ?d\<lparr>db_clock := 3\<rparr>"
      using ready_source [of ?w3 J] w1(3) X by auto
    have "\<exists>w'. admit X sample_server sample_claims ?k ''78'' sample_manifest ?p [sample_ref] w4 = (writeJSON 202 (SubmissionBody sub), w')"
      using admit_first [of w4 sample_claims ?p sample_manifest "''78''" ?k X sample_server "[sample_ref]"] 4(3) d ok
      by (simp add: sub_def)
    then show ?thesis using c w1(1) 2 3 4(1,2) by (simp add: handleSubmit_def accept_source_def Let_def)
  qed
  then show ?thesis by blast
qed

lemma ready_submit: "\<exists>sub w'. Router open_ext sample_server submit_post ready_world = (writeJSON 202 (SubmissionBody sub), w')"
proof -
  have "open_ext\<lparr>x_codec := x_codec open_ext\<rparr> = open_ext" by simp
  then obtain sub w' where "handleSubmit open_ext sample_server sample_claims ''p'' ''Bearer x''
      (Some \<lparr>in_Language = ''py'', in_Source = ''x''\<rparr>) ready_world = (writeJSON 202 (SubmissionBody sub), w')"
    using ready_accept by metis
  then show ?thesis
    by (simp add: Router_def submit_post_def dispatch_def public_routes_def user_routes_def user_handlers_def requireAuth_def parseToken_def
      open_ext_def sample_ext_def capped_def Let_def) blast
qed

text \<open>The submission survives a tick of a reconciler.\<close>

theorem accepted_submission_kept_witness:
  "\<exists>sub w1 r. Router open_ext sample_server submit_post ready_world = (writeJSON 202 (SubmissionBody sub), w1) \<and>
     find_row (s_ID sub) (w_db (reconcileOnce open_ext sample_server 0 w1)) = Some r \<and> row_user_id r = ''u'' \<and>
     row_idempotency_key r = Some ''Bearer x''"
proof -
  obtain sub w1 where run: "Router open_ext sample_server submit_post ready_world = (writeJSON 202 (SubmissionBody sub), w1)"
    using ready_submit by blast
  have ok: "db_ok (w_db ready_world)" by (simp add: ready_world_def sample_world_def catalogue_db_def empty_db_def db_ok_def)
  have st: "(system_step open_ext)\<^sup>*\<^sup>* w1 (reconcileOnce open_ext sample_server 0 w1)"
    by (rule r_into_rtranclp) (rule system_step.reconcile)
  have 202: "status_code (writeJSON 202 (SubmissionBody sub)) = 202" "resp_body (writeJSON 202 (SubmissionBody sub)) = SubmissionBody sub"
    by (simp_all add: writeJSON_def)
  obtain c r where c: "authenticated open_ext sample_server submit_post (w_now ready_world) c" and
      "find_row (s_ID sub) (w_db (reconcileOnce open_ext sample_server 0 w1)) = Some r" "row_user_id r = cl_UserID c"
      "row_idempotency_key r = nullStr (rq_header submit_post ''Idempotency-Key'')"
    using accepted_submission_kept [OF run 202 ok st] by blast
  moreover have "cl_UserID c = ''u''" using c by (auto simp: authenticated_def open_ext_def sample_claims_def)
  ultimately show ?thesis using run by (auto simp: nullStr_def submit_post_def)
qed

text \<open>
  C14: a verdict that was shown stays: after a submission is \<^verbatim>\<open>DONE\<close>, whatever requests are
  served, results reported and reconcilers run, its owner is shown the same verdict, readings,
  log and tests; only the attempt counter may differ.
\<close>

theorem verdict_stands:
  assumes "db_ok (w_db w)" and "find_row i (w_db w) = Some r" and "row_status r = StatusDone"
    and "(system_step X)\<^sup>*\<^sup>* w w'" and "db_faults (w_db w') = (\<lambda>_. False)" and "row_user_id r = cl_UserID u"
  shows "\<exists>n w''. handleGetSubmission u i w' =
    (writeJSON 200 (SubmissionBody ((scan_row r)\<lparr>s_Attempt := n, s_Tests := test_rows i (w_db w)\<rparr>)), w'')"
proof -
  have "settled i r (test_rows i (w_db w)) (w_db w)"
    unfolding settled_def using assms(2) by (intro conjI exI [of _ "row_attempt r"]) simp_all
  then have "settled i r (test_rows i (w_db w)) (w_db w')"
    using settled_reach [OF _ _ assms(3,1)] system_evolves [OF assms(4)] by (simp add: evolves_def)
  then obtain n where n: "find_row i (w_db w') = Some (r\<lparr>row_attempt := n\<rparr>)" and t: "test_rows i (w_db w') = test_rows i (w_db w)"
    by (auto simp: settled_def)
  obtain k where "GetSubmission i (w_db w') =
      (Inr ((scan_row (r\<lparr>row_attempt := n\<rparr>))\<lparr>s_Tests := test_rows i (w_db w)\<rparr>), (w_db w')\<lparr>db_clock := k\<rparr>)"
    using GetSubmission_row [OF assms(5) n] t by auto
  then show ?thesis using assms(6) by (intro exI [of _ n]) (simp add: handleGetSubmission_def on_db_def scan_row_def)
qed

text \<open>A runner reports \<^verbatim>\<open>WA\<close> for a submission that is \<^verbatim>\<open>AC\<close>.\<close>

theorem verdict_stands_witness:
  "let X = sample_ext\<lparr>x_result_body := \<lambda>_. Some (zero_SubmissionResult\<lparr>r_SubmissionID := ''s'', r_Verdict := VerdictWA\<rparr>)\<rparr>;
       req = \<lparr>rq_method = ''POST'', rq_path = [''internal'', ''results''], rq_header = (\<lambda>_. ''runner''), rq_query = (\<lambda>_. []),
         rq_body = ''x'', rq_flusher = True, rq_events = []\<rparr>;
       (resp, w') = Router X sample_server req (sample_world (empty_db\<lparr>submissions := [done_row]\<rparr>))
   in \<exists>n w''. handleGetSubmission sample_claims ''s'' w' =
        (writeJSON 200 (SubmissionBody ((scan_row done_row)\<lparr>s_Attempt := n, s_Tests := []\<rparr>)), w'')"
proof -
  let ?X = "sample_ext\<lparr>x_result_body := \<lambda>_. Some (zero_SubmissionResult\<lparr>r_SubmissionID := ''s'', r_Verdict := VerdictWA\<rparr>)\<rparr>"
  let ?req = "\<lparr>rq_method = ''POST'', rq_path = [''internal'', ''results''], rq_header = (\<lambda>_. ''runner''), rq_query = (\<lambda>_. []),
         rq_body = ''x'', rq_flusher = True, rq_events = []\<rparr>"
  let ?d = "empty_db\<lparr>submissions := [done_row]\<rparr>" let ?w = "sample_world ?d"
  obtain resp w' where run: "Router ?X sample_server ?req ?w = (resp, w')" by (cases "Router ?X sample_server ?req ?w")
  have s: "(system_step ?X)\<^sup>*\<^sup>* ?w w'" using system_step.serve [OF run] by (rule r_into_rtranclp)
  have 1: "db_ok (w_db ?w)" "find_row ''s'' (w_db ?w) = Some done_row" "row_status done_row = StatusDone"
    "row_user_id done_row = cl_UserID sample_claims" "test_rows ''s'' (w_db ?w) = []"
    using sample_db_ok
    by (simp_all add: sample_world_def find_row_def test_rows_def done_row_def new_row_def sample_submission_def scan_row_def sample_claims_def empty_db_def)
  have f: "db_faults (w_db w') = (\<lambda>_. False)"
    using evolves_faults [OF system_evolves [OF s]] by (simp add: sample_world_def empty_db_def)
  from verdict_stands [OF 1(1-3) s f 1(4)] show ?thesis unfolding Let_def run 1(5) by simp
qed

end
