(* ===== verification/Handover.thy ===== *)
theory Handover
  imports System
begin

section \<open>From the API to a runner\<close>

text \<open>
  What a participant submits is what a runner is given: the job that \<open>handleSubmit\<close> publishes is
  the last one that \<open>Consume\<close> then delivers. The locale \<open>redis_keyspace\<close> adds to the laws of
  streams that commands on other keys leave a stream alone, which the rate limiter needs.
\<close>

subsection \<open>Commands on other keys\<close>

locale redis_keyspace = redis_streams +
  assumes hset_view: "k \<noteq> st \<Longrightarrow> view st g (HSET R k f x s) = view st g s"
    and expire_view: "k \<noteq> st \<Longrightarrow> view st g (EXPIRE R k ttl s) = view st g s"
begin

lemma bucket_view: "k \<noteq> st \<Longrightarrow> view st g (snd (tokenBucket R k rate burst now x s)) = view st g s"
  by (simp add: tokenBucket_def Let_def hset_view expire_view split: option.split prod.split)

lemma allow_view:
  assumes "\<not> prefix ''arena:'' st"
  shows "view st g (server (snd (Allow R key rate burst now c))) = view st g (server c)"
proof -
  define k where "k = ''arena:rl:'' @ key"
  have k: "k \<noteq> st" using assms by (auto simp: prefix_def k_def)
  have "view st g (server (snd (call (tokenBucket R k a b t x) c))) = view st g (server c)" for a b t x
    by (rule call_keeps [where P = "\<lambda>s. view st g s = view st g (server c)"]) (simp_all add: bucket_view [OF k])
  then have v: "view st g (server c') = view st g (server c)" if "call (tokenBucket R k a b t x) c = (r, c')" for a b t x r c'
    using that by (metis snd_conv)
  show ?thesis unfolding Allow_def k_def [symmetric] by (auto simp: Let_def split: prod.split sum.split dest: v)
qed

lemma publish_then_consume:
  assumes "online c" and "view (q_stream q) (q_group q) (server c) = Some v" and "length (entries_waiting v) < n"
    and "json_of_job J job = Some b" and "job_of_json J b = Some job"
  shows "\<exists>ds i c'. Consume R J q u n (snd (Publish R J q job c)) = (Inr (ds @ [\<lparr>MessageID = i, d_Job = job\<rparr>]), c')"
proof -
  let ?s = "server c" let ?f = "[(''job'', b)]"
  let ?c1 = "c\<lparr>calls := calls c + 1, server := XADD R (q_stream q) (q_maxLen q) ?f ?s\<rparr>"
  have p: "snd (Publish R J q job c) = ?c1" by (simp add: Publish_def assms(4) call_online [OF assms(1)] rupdate_def)
  obtain k i where w: "view (q_stream q) (q_group q) (server ?c1) = Some (v_add k i ?f v)" using xadd [OF assms(2)] by fastforce
  let ?w = "entries_waiting (v_add k i ?f v)"
  have e: "?w = drop (k - length (entries_read v)) (entries_waiting v) @ [(i, ?f)]" by (simp add: v_add_def)
  then have all: "take n ?w = ?w" "?w \<noteq> []" using assms(3) by simp_all
  obtain r s' where x: "XREADGROUP R (q_stream q) (q_group q) u n (server ?c1) = (r, s')" by fastforce
  have "r = Inr ?w" using xread [OF w x] all by simp
  moreover have "online ?c1" using assms(1) by simp
  ultimately have "Consume R J q u n ?c1 = (Inr (Queue.decode J ?w), ?c1\<lparr>calls := calls ?c1 + 1, server := s'\<rparr>)"
    using x by (simp add: Consume_def call_online)
  moreover have "Queue.decode J ?w = Queue.decode J (drop (k - length (entries_read v)) (entries_waiting v)) @ [\<lparr>MessageID = i, d_Job = job\<rparr>]"
    by (simp add: e Queue.decode_def raw_job_def assms(5))
  ultimately show ?thesis unfolding p by metis
qed

end

interpretation ref_keys: redis_keyspace ref_redis ref_view ref_time
  by unfold_locales (simp_all add: ref_redis_def ref_view_def)

subsection \<open>What an accepted request has done to Redis\<close>

lemma Allow_online: "online (snd (Allow R key rate burst now c)) = online c"
  by (auto simp: Allow_def Let_def call_def online_def split: prod.split sum.split fate.split)

lemma replay_cached_None: "replay_cached X S sub m p w = (None, w') \<Longrightarrow> w_redis w' = w_redis w \<and> w_now w' = w_now w"
  by (auto simp: replay_cached_def Let_def on_db_def split: prod.splits sum.splits option.splits)

lemma admit_202:
  assumes "admit X S u idem h m p tests w = (resp, w')" and "status_code resp = 202"
  shows "\<exists>sub w2. resp = writeJSON 202 (SubmissionBody sub) \<and> w_redis w2 = w_redis w \<and> w_now w2 = w_now w \<and>
    w' = enqueue X S (job_for u p m tests sub (w_now w)) w2"
proof -
  let ?x = "submission_for u p m h idem"
  obtain c w1 where 1: "on_db (CreateSubmission ?x) w = (c, w1)" by (cases "on_db (CreateSubmission ?x) w")
  have f1: "w_redis w1 = w_redis w" "w_now w1 = w_now w" using on_db_frame(1,3) [of "CreateSubmission ?x" w] 1 by simp_all
  show ?thesis
  proof (cases c)
    case (Inl e)
    then show ?thesis using assms 1 by (auto simp: admit_def writeJSON_def writeErr_def split: prod.splits option.splits)
  next
    case (Inr sub)
    obtain a w2 where 2: "replay_cached X S sub m p w1 = (a, w2)" by (cases "replay_cached X S sub m p w1")
    show ?thesis
    proof (cases a)
      case None
      then have "w_redis w2 = w_redis w" "w_now w2 = w_now w" using replay_cached_None [of X S sub m p w1 w2] 2 f1 None by simp_all
      then show ?thesis using assms(1) 1 2 Inr None by (auto simp: admit_def)
    next
      case (Some ans)
      then show ?thesis using assms 1 2 Inr replay_cached_code [of X S sub m p w1 ans w2] by (auto simp: admit_def)
    qed
  qed
qed

lemma catalogue_same_db: "w_db w = w_db w2 \<Longrightarrow> fst (catalogue pid w) = fst (catalogue pid w2)"
  by (simp add: catalogue_def on_db_def split: prod.split sum.split)

lemma accept_202:
  assumes "accept_source X S u pid idem i m w = (resp, w')" and "status_code resp = 202"
  shows "\<exists>sub p tests w2. resp = writeJSON 202 (SubmissionBody sub) \<and> fst (catalogue pid w) = Inr (p, tests) \<and>
    w_redis w2 = w_redis w \<and> w' = enqueue X S (job_for u p m tests sub (w_now w)) w2"
proof -
  obtain c w1 where 1: "catalogue pid w = (c, w1)" by (cases "catalogue pid w")
  have f1: "w_redis w1 = w_redis w \<and> w_now w1 = w_now w" using catalogue_frame [OF 1] by blast
  show ?thesis
  proof (cases c)
    case (Inl e)
    have "status_code e \<noteq> 202" using 1 Inl
      by (auto simp: catalogue_def writeErr_def writeJSON_def split: sum.splits prod.splits if_splits)
    then show ?thesis using assms 1 Inl by (simp add: accept_source_def)
  next
    case (Inr pt)
    obtain p tests where pt: "pt = (p, tests)" by (cases pt)
    let ?h = "source_hash X (in_Source i)"
    obtain b w2 where 2: "store_source X S (''src/'' @ ?h) (normalize_newlines (in_Source i)) w1 = (b, w2)"
      by (cases "store_source X S (''src/'' @ ?h) (normalize_newlines (in_Source i)) w1")
    have f2: "w_redis w2 = w_redis w \<and> w_now w2 = w_now w" using store_source_frame [OF 2] f1 by simp
    show ?thesis
    proof (cases b)
      case False
      then show ?thesis using assms 1 2 Inr pt by (auto simp: accept_source_def writeErr_def writeJSON_def)
    next
      case True
      then have "admit X S u idem ?h m p tests w2 = (resp, w')" using assms(1) 1 2 Inr pt by (simp add: accept_source_def)
      from admit_202 [OF this assms(2)] f2 1 Inr pt show ?thesis by auto
    qed
  qed
qed

lemma by_key_frame: "by_key u idem w = (b, w') \<Longrightarrow> w_redis w' = w_redis w \<and> w_now w' = w_now w \<and> (\<exists>k. w_db w' = (w_db w)\<lparr>db_clock := k\<rparr>)"
  by (auto simp: by_key_def on_db_def FindByIdempotencyKey_def query_def Let_def split: prod.splits sum.splits option.splits if_splits intro: exI [of _ "db_clock (w_db w)"])

lemma submit_enqueues:
  assumes "handleSubmit X S u pid idem inp w = (resp, w')" and "status_code resp = 202"
  shows "\<exists>sub i m p tests w1 w2 k. resp = writeJSON 202 (SubmissionBody sub) \<and> check_request S inp = Inr (i, m) \<and>
    fst (catalogue pid (w\<lparr>w_db := (w_db w)\<lparr>db_clock := k\<rparr>\<rparr>)) = Inr (p, tests) \<and>
    rate_limit X S u w = (None, w1) \<and> w_redis w2 = w_redis w1 \<and> w' = enqueue X S (job_for u p m tests sub (w_now w)) w2"
proof -
  have n: "status_code e \<noteq> 202" if "check_request S inp = Inl e" for e
    using that by (auto simp: check_request_def writeErr_def writeJSON_def split: option.splits if_splits)
  then obtain i m where c: "check_request S inp = Inr (i, m)"
    using assms by (cases "check_request S inp") (auto simp: handleSubmit_def)
  obtain e w1 where 1: "rate_limit X S u w = (e, w1)" by (cases "rate_limit X S u w")
  have f1: "w_db w1 = w_db w \<and> w_now w1 = w_now w" using rate_limit_frame [OF 1] by blast
  have "e = None" using assms c 1 by (cases e) (auto simp: handleSubmit_def rate_limit_def writeErr_def writeJSON_def split: prod.splits if_splits)
  obtain b w2 where 2: "(if idem = [] then (None, w1) else by_key u idem w1) = (b, w2)"
    by (cases "if idem = [] then (None, w1) else by_key u idem w1")
  obtain k where f2: "w_redis w2 = w_redis w1" "w_now w2 = w_now w1" "w_db w2 = (w_db w1)\<lparr>db_clock := k\<rparr>"
  proof (cases "idem = []")
    case True
    then show ?thesis using 2 that [of "db_clock (w_db w1)"] by simp
  next
    case False
    then show ?thesis using 2 by_key_frame [of u idem w1 b w2] that by auto
  qed
  have "b = None" using assms c 1 2 \<open>e = None\<close> by (cases b) (auto simp: handleSubmit_def writeJSON_def)
  then have "accept_source X S u pid idem i m w2 = (resp, w')" using assms(1) c 1 2 \<open>e = None\<close> by (simp add: handleSubmit_def)
  from accept_202 [OF this assms(2)] obtain sub p tests w3 where
    a: "resp = writeJSON 202 (SubmissionBody sub)" "fst (catalogue pid w2) = Inr (p, tests)" "w_redis w3 = w_redis w2"
      "w' = enqueue X S (job_for u p m tests sub (w_now w2)) w3" by blast
  have "fst (catalogue pid (w\<lparr>w_db := (w_db w)\<lparr>db_clock := k\<rparr>\<rparr>)) = Inr (p, tests)"
    using catalogue_same_db [of w2 "w\<lparr>w_db := (w_db w)\<lparr>db_clock := k\<rparr>\<rparr>"] a(2) f1 f2(3) by simp
  then show ?thesis using a c 1 \<open>e = None\<close> f1 f2(1,2) by auto
qed

subsection \<open>What a runner is given\<close>

lemma rate_limit_view:
  assumes "redis_keyspace (x_redis X) view tm" and "\<not> prefix ''arena:'' st" and "rate_limit X S u w = (e, w')"
  shows "view st g (server (w_redis w')) = view st g (server (w_redis w)) \<and> online (w_redis w') = online (w_redis w)"
proof -
  have "w_redis w' = snd (Allow (x_redis X) (''submit:'' @ cl_UserID u) (RLSubmitPerMin (s_cfg S)) (RLBurst (s_cfg S))
      (UnixMilli (w_now w)) (w_redis w))"
    using assms(3) by (auto simp: rate_limit_def on_redis_def split: prod.splits)
  then show ?thesis by (simp add: redis_keyspace.allow_view [OF assms(1,2)] Allow_online)
qed

text \<open>
  C4: an accepted submission reaches a runner. When a request is answered \<^verbatim>\<open>202\<close> while Redis answers, the
  next runner that reads the stream with room for what is waiting is given, as the last delivery, exactly
  the job of that submission: the source, the limits and the tests of the problem the request named.
  The codec has to return the job it was given, and the stream's name must not be one of the keys
  the application keeps (those start with \<^verbatim>\<open>arena:\<close>).
\<close>

theorem accepted_reaches_runner:
  assumes "redis_keyspace (x_redis X) view tm" and "handleSubmit X S u pid idem inp w = (resp, w')" and "status_code resp = 202"
    and "online (w_redis w)" and "view (q_stream (s_queue S)) (q_group (s_queue S)) (server (w_redis w)) = Some v"
    and "\<not> prefix ''arena:'' (q_stream (s_queue S))" and "length (entries_waiting v) < n"
  shows "\<exists>sub i m p tests k. resp = writeJSON 202 (SubmissionBody sub) \<and> check_request S inp = Inr (i, m) \<and>
    fst (catalogue pid (w\<lparr>w_db := (w_db w)\<lparr>db_clock := k\<rparr>\<rparr>)) = Inr (p, tests) \<and>
    (let job = job_for u p m tests sub (w_now w) in
       \<forall>b. json_of_job (x_codec X) job = Some b \<and> job_of_json (x_codec X) b = Some job \<longrightarrow>
         (\<exists>ds e c'. Consume (x_redis X) (x_codec X) (s_queue S) r n (w_redis w') = (Inr (ds @ [\<lparr>MessageID = e, d_Job = job\<rparr>]), c')))"
proof -
  obtain sub i m p tests w1 w2 k where e: "resp = writeJSON 202 (SubmissionBody sub)" "check_request S inp = Inr (i, m)"
    "fst (catalogue pid (w\<lparr>w_db := (w_db w)\<lparr>db_clock := k\<rparr>\<rparr>)) = Inr (p, tests)" and
    1: "rate_limit X S u w = (None, w1)" and 2: "w_redis w2 = w_redis w1" and w': "w' = enqueue X S (job_for u p m tests sub (w_now w)) w2"
    using submit_enqueues [OF assms(2,3)] by blast
  let ?job = "job_for u p m tests sub (w_now w)"
  have on: "online (w_redis w1)" and view: "view (q_stream (s_queue S)) (q_group (s_queue S)) (server (w_redis w1)) = Some v"
    using rate_limit_view [OF assms(1,6) 1] assms(4,5) by simp_all
  have r: "w_redis w' = snd (Publish (x_redis X) (x_codec X) (s_queue S) ?job (w_redis w1))"
    by (simp add: w' enqueue_def on_redis_def 2 split: prod.split)
  have "\<exists>ds e c'. Consume (x_redis X) (x_codec X) (s_queue S) r n (w_redis w') = (Inr (ds @ [\<lparr>MessageID = e, d_Job = ?job\<rparr>]), c')"
    if "json_of_job (x_codec X) ?job = Some b" "job_of_json (x_codec X) b = Some ?job" for b
    unfolding r by (rule redis_keyspace.publish_then_consume [OF assms(1) on view assms(7) that])
  with e show ?thesis unfolding Let_def by blast
qed

text \<open>A codec that knows one job, and a stream on which nothing waits.\<close>

theorem accepted_reaches_runner_witness:
  "\<exists>sub J w' ds e c'. handleSubmit (open_ext\<lparr>x_codec := J\<rparr>) sample_server sample_claims ''p'' ''Bearer x''
       (Some \<lparr>in_Language = ''py'', in_Source = ''x''\<rparr>) ready_world = (writeJSON 202 (SubmissionBody sub), w') \<and>
     Consume ref_redis J sample_queue ''runner-1'' 1 (w_redis w') = (Inr (ds @ [\<lparr>MessageID = e,
       d_Job = job_for sample_claims (sample_problem\<lparr>p_Limits := Normalize (p_Limits sample_problem)\<rparr>) sample_manifest [sample_ref] sub 0\<rparr>]), c')"
proof -
  let ?i = "\<lparr>in_Language = ''py'', in_Source = ''x''\<rparr>"
  let ?p = "sample_problem\<lparr>p_Limits := Normalize (p_Limits sample_problem)\<rparr>"
  obtain sub where sub: "\<forall>J. \<exists>w'. handleSubmit (open_ext\<lparr>x_codec := J\<rparr>) sample_server sample_claims ''p'' ''Bearer x''
      (Some ?i) ready_world = (writeJSON 202 (SubmissionBody sub), w')" using ready_accept by blast
  define job where "job = job_for sample_claims ?p sample_manifest [sample_ref] sub 0"
  define J where "J = \<lparr>json_of_job = \<lambda>_. Some ''{}'', job_of_json = \<lambda>_. Some job\<rparr>"
  define X where "X = open_ext\<lparr>x_codec := J\<rparr>"
  have X: "x_redis X = ref_redis" "x_codec X = J" "s_queue sample_server = sample_queue"
    by (simp_all add: X_def open_ext_def sample_ext_def sample_server_def)
  obtain w' where run: "handleSubmit X sample_server sample_claims ''p'' ''Bearer x'' (Some ?i) ready_world =
      (writeJSON 202 (SubmissionBody sub), w')" using sub X_def by blast
  have keys: "redis_keyspace (x_redis X) ref_view ref_time" by (simp add: X ref_keys.redis_keyspace_axioms)
  have red: "w_redis ready_world = sample_rdb" "w_now ready_world = 0" by (simp_all add: ready_world_def sample_world_def)
  have on: "online (w_redis ready_world)" by (simp add: red online_def sample_rdb_def)
  have view: "ref_view (q_stream (s_queue sample_server)) (q_group (s_queue sample_server)) (server (w_redis ready_world)) = Some sample_view"
    by (simp add: red X sample_view)
  have name: "\<not> prefix ''arena:'' (q_stream (s_queue sample_server))" by (simp add: X sample_names)
  have room: "length (entries_waiting sample_view) < 1" by (simp add: sample_view_def)
  obtain sub2 i m p tests k where r: "writeJSON 202 (SubmissionBody sub) = writeJSON 202 (SubmissionBody sub2)"
      "check_request sample_server (Some ?i) = Inr (i, m)"
      "fst (catalogue ''p'' (ready_world\<lparr>w_db := (w_db ready_world)\<lparr>db_clock := k\<rparr>\<rparr>)) = Inr (p, tests)" and
    got: "let job = job_for sample_claims p m tests sub2 0 in \<forall>b. json_of_job J job = Some b \<and> job_of_json J b = Some job \<longrightarrow>
      (\<exists>ds e c'. Consume ref_redis J sample_queue ''runner-1'' 1 (w_redis w') = (Inr (ds @ [\<lparr>MessageID = e, d_Job = job\<rparr>]), c'))"
    using accepted_reaches_runner [OF keys run _ on view name room, of "''runner-1''"] unfolding X red by (auto simp: writeJSON_def)
  have "sub2 = sub" "m = sample_manifest" using r(1,2)
    by (auto simp: writeJSON_def check_request_def sample_server_def Langs.Get_def split: if_splits)
  moreover have "p = ?p" "tests = [sample_ref]" using r(3)
    by (auto simp: catalogue_def on_db_def GetProblem_def ListTestCases_def scanProblem_def query_def Let_def ready_world_def
      sample_world_def catalogue_db_def empty_db_def sample_problem_def)
  ultimately have "\<exists>ds e c'. Consume ref_redis J sample_queue ''runner-1'' 1 (w_redis w') = (Inr (ds @ [\<lparr>MessageID = e, d_Job = job\<rparr>]), c')"
    using got by (simp add: job_def [symmetric] J_def)
  then show ?thesis using run unfolding X_def job_def by blast
qed

end
