(* ===== verification/Boxrun.thy ===== *)
theory Boxrun
  imports Config "HOL-Library.Word" "HOL-Library.Sublist"
begin

section \<open>The supervisor inside the sandbox (\<^verbatim>\<open>cmd/boxrun\<close>)\<close>

text \<open>
  \<^verbatim>\<open>boxrun\<close> parses its flags, starts itself again with the limits in the environment, and the
  second stage sets its resource limits and replaces itself with the target. After the wait
  it turns the wait status and the resource usage into the metrics the runner reads. Modelled
  are the flag package as the program uses it, both stages and the metrics. What the system
  calls answer (which files open, how the child ended) are arguments, and so is whether the
  watchdog's message has arrived; signalling the process group has no model.
\<close>

subsection \<open>Flags\<close>

text \<open>\<^verbatim>\<open>strconv.ParseInt(s, 0, 64)\<close>, which \<^verbatim>\<open>flag.Int64\<close> uses: base prefixes and underscores between
  digits are allowed.\<close>

definition digit_val :: "char \<Rightarrow> nat" where
  "digit_val c =
     (let b = of_char c :: nat
      in if 48 \<le> b \<and> b \<le> 57 then b - 48 else if 97 \<le> b \<and> b \<le> 122 then b - 87
         else if 65 \<le> b \<and> b \<le> 90 then b - 55 else 36)"

definition base_of :: "char \<Rightarrow> nat option" where
  "base_of c = (if c \<in> {CHR ''b'', CHR ''B''} then Some 2 else if c \<in> {CHR ''o'', CHR ''O''} then Some 8
     else if c \<in> {CHR ''x'', CHR ''X''} then Some 16 else None)"

definition split_base :: "string \<Rightarrow> nat \<times> string \<times> bool" where
  "split_base t =
     (case t of
        z # rest \<Rightarrow>
          if z \<noteq> CHR ''0'' then (10, t, False)
          else (case rest of
                  p # _ # _ \<Rightarrow> (case base_of p of Some b \<Rightarrow> (b, tl rest, True) | None \<Rightarrow> (8, rest, True))
                | _ \<Rightarrow> (8, rest, True))
      | [] \<Rightarrow> (10, [], False))"

definition underscores_ok :: "bool \<Rightarrow> string \<Rightarrow> bool" where
  "underscores_ok lead ds \<longleftrightarrow> ds = [] \<or>
     (lead \<or> hd ds \<noteq> CHR ''_'') \<and> last ds \<noteq> CHR ''_'' \<and> \<not> sublist ''__'' ds"

definition ParseInt0 :: "string \<Rightarrow> int option" where
  "ParseInt0 s =
     (let (neg, t) = (case s of [] \<Rightarrow> (False, []) | c # t \<Rightarrow>
            if c = CHR ''-'' then (True, t) else if c = CHR ''+'' then (False, t) else (False, s));
          (b, ds, lead) = split_base t;
          digits = filter (\<lambda>c. c \<noteq> CHR ''_'') ds;
          n = foldl (\<lambda>n c. n * b + digit_val c) 0 digits;
          v = (if neg then - int n else int n)
      in if t = [] \<or> \<not> underscores_ok lead ds \<or> \<not> list_all (\<lambda>c. digit_val c < b) digits \<or> \<not> in_i64 v
         then None else Some v)"

definition ParseBool :: "string \<Rightarrow> bool option" where
  "ParseBool s = (if s \<in> {''1'', ''t'', ''T'', ''TRUE'', ''true'', ''True''} then Some True
     else if s \<in> {''0'', ''f'', ''F'', ''FALSE'', ''false'', ''False''} then Some False else None)"

record flags =
  fl_meta :: string
  fl_cpu_ms :: int
  fl_wall_ms :: int
  fl_fsize_kb :: int
  fl_stack_mb :: int
  fl_nofile :: int
  fl_stdin :: string
  fl_stdout :: string
  fl_stderr :: string
  fl_no_aslr :: bool
  fl_workdir :: string

definition default_flags :: flags where
  "default_flags = \<lparr>fl_meta = ''/box/meta.json'', fl_cpu_ms = 0, fl_wall_ms = 0, fl_fsize_kb = 0, fl_stack_mb = 0, fl_nofile = 0,
     fl_stdin = [], fl_stdout = ''/box/stdout'', fl_stderr = ''/box/stderr'', fl_no_aslr = True, fl_workdir = ''/box''\<rparr>"

datatype flag_error = BadSyntax string | Undefined string | NeedsArgument string | InvalidValue string string | HelpWanted

definition int_flag :: "string \<Rightarrow> string \<Rightarrow> (int \<Rightarrow> flags) \<Rightarrow> (flag_error, flags) result" where
  "int_flag nm v upd = (case ParseInt0 v of None \<Rightarrow> Inl (InvalidValue nm v) | Some n \<Rightarrow> Inr (upd n))"

definition set_flag :: "string \<Rightarrow> string \<Rightarrow> flags \<Rightarrow> (flag_error, flags) result" where
  "set_flag nm v fl =
     (if nm = ''meta'' then Inr (fl\<lparr>fl_meta := v\<rparr>)
      else if nm = ''cpu-ms'' then int_flag nm v (\<lambda>n. fl\<lparr>fl_cpu_ms := n\<rparr>)
      else if nm = ''wall-ms'' then int_flag nm v (\<lambda>n. fl\<lparr>fl_wall_ms := n\<rparr>)
      else if nm = ''fsize-kb'' then int_flag nm v (\<lambda>n. fl\<lparr>fl_fsize_kb := n\<rparr>)
      else if nm = ''stack-mb'' then int_flag nm v (\<lambda>n. fl\<lparr>fl_stack_mb := n\<rparr>)
      else if nm = ''nofile'' then int_flag nm v (\<lambda>n. fl\<lparr>fl_nofile := n\<rparr>)
      else if nm = ''stdin'' then Inr (fl\<lparr>fl_stdin := v\<rparr>)
      else if nm = ''stdout'' then Inr (fl\<lparr>fl_stdout := v\<rparr>)
      else if nm = ''stderr'' then Inr (fl\<lparr>fl_stderr := v\<rparr>)
      else if nm = ''no-aslr'' then (case ParseBool v of None \<Rightarrow> Inl (InvalidValue nm v) | Some b \<Rightarrow> Inr (fl\<lparr>fl_no_aslr := b\<rparr>))
      else if nm = ''workdir'' then Inr (fl\<lparr>fl_workdir := v\<rparr>)
      else if nm = ''help'' \<or> nm = ''h'' then Inl HelpWanted
      else Inl (Undefined nm))"

definition known_flag :: "string \<Rightarrow> bool" where
  "known_flag nm \<longleftrightarrow> nm \<in> {''meta'', ''cpu-ms'', ''wall-ms'', ''fsize-kb'', ''stack-mb'', ''nofile'', ''stdin'', ''stdout'', ''stderr'', ''no-aslr'', ''workdir''}"

text \<open>The text before and after the first \<^verbatim>\<open>=\<close>, if there is one.\<close>

definition split_eq :: "string \<Rightarrow> string \<times> string option" where
  "split_eq s = (takeWhile (\<lambda>c. c \<noteq> CHR ''='') s,
     (case dropWhile (\<lambda>c. c \<noteq> CHR ''='') s of [] \<Rightarrow> None | _ # v \<Rightarrow> Some v))"

text \<open>\<^verbatim>\<open>flag.Parse\<close>: flags until \<^verbatim>\<open>--\<close> or the first argument that is not one; the rest is the command.\<close>

fun parse_flags :: "flags \<Rightarrow> string list \<Rightarrow> (flag_error, flags \<times> string list) result" where
  "parse_flags fl [] = Inr (fl, [])"
| "parse_flags fl (s # rest) =
     (if length s < 2 \<or> hd s \<noteq> CHR ''-'' then Inr (fl, s # rest)
      else if s = ''--'' then Inr (fl, rest)
      else let name = (if s ! 1 = CHR ''-'' then drop 2 s else drop 1 s); (nm, val) = split_eq name
           in if name = [] \<or> hd name = CHR ''-'' \<or> hd name = CHR ''='' then Inl (BadSyntax s)
              else case val of
                  Some v \<Rightarrow> (case set_flag nm v fl of Inl e \<Rightarrow> Inl e | Inr fl' \<Rightarrow> parse_flags fl' rest)
                | None \<Rightarrow>
                    if nm = ''no-aslr'' \<or> \<not> known_flag nm
                    then (case set_flag nm ''true'' fl of Inl e \<Rightarrow> Inl e | Inr fl' \<Rightarrow> parse_flags fl' rest)
                    else (case rest of
                            [] \<Rightarrow> Inl (NeedsArgument nm)
                          | v # rest' \<Rightarrow> (case set_flag nm v fl of Inl e \<Rightarrow> Inl e | Inr fl' \<Rightarrow> parse_flags fl' rest')))"

text \<open>How the first stage ends before it starts anything: an exit code, or the flags and the target.\<close>

definition boxrun_args :: "string list \<Rightarrow> (int, flags \<times> string list) result" where
  "boxrun_args args =
     (case parse_flags default_flags args of
        Inl e \<Rightarrow> Inl (if e = HelpWanted then 0 else 2)
      | Inr (fl, target) \<Rightarrow> if target = [] then Inl 126 else Inr (fl, target))"

subsection \<open>The second stage\<close>

definition boolStr :: "bool \<Rightarrow> string" where
  "boolStr b = (if b then ''1'' else ''0'')"

definition stage2_env :: "flags \<Rightarrow> (string \<times> string) list" where
  "stage2_env fl =
     [(''BOXRUN_STAGE2'', ''1''), (''BOXRUN_CPU_MS'', itoa (fl_cpu_ms fl)), (''BOXRUN_FSIZE_KB'', itoa (fl_fsize_kb fl)),
      (''BOXRUN_STACK_MB'', itoa (fl_stack_mb fl)), (''BOXRUN_NOFILE'', itoa (fl_nofile fl)),
      (''BOXRUN_NO_ASLR'', boolStr (fl_no_aslr fl))]"

text \<open>The child's environment: the appended entries hide inherited ones.\<close>

definition child_getenv :: "(string \<Rightarrow> string) \<Rightarrow> flags \<Rightarrow> string \<Rightarrow> string" where
  "child_getenv inherited fl k = (case map_of (stage2_env fl) k of Some v \<Rightarrow> v | None \<Rightarrow> inherited k)"

definition envInt :: "(string \<Rightarrow> string) \<Rightarrow> string \<Rightarrow> int \<Rightarrow> int" where
  "envInt getenv k d = (if getenv k \<noteq> [] then (case Atoi (getenv k) of Some n \<Rightarrow> n | None \<Rightarrow> d) else d)"

datatype rlimit = RLIMIT_CPU | RLIMIT_FSIZE | RLIMIT_STACK | RLIMIT_NOFILE | RLIMIT_CORE

type_synonym setting = "rlimit \<times> 64 word \<times> 64 word"

definition u64 :: "int \<Rightarrow> 64 word" where
  "u64 n = word_of_int n"

definition cpu_setting :: "int \<Rightarrow> setting" where
  "cpu_setting ms =
     (let sec = u64 (i64 (ms + 999) sdiv 1000); sec = (if sec < 1 then 1 else sec) in (RLIMIT_CPU, sec, sec + 1))"

definition stage2_limits :: "(string \<Rightarrow> string) \<Rightarrow> setting list" where
  "stage2_limits getenv =
     (let ms = envInt getenv ''BOXRUN_CPU_MS'' 0; kb = envInt getenv ''BOXRUN_FSIZE_KB'' 0;
          mb = envInt getenv ''BOXRUN_STACK_MB'' 0; n = envInt getenv ''BOXRUN_NOFILE'' 0
      in (if ms > 0 then [cpu_setting ms] else []) @
         (if kb > 0 then [(RLIMIT_FSIZE, u64 kb * 1024, u64 kb * 1024)] else []) @
         (if mb > 0 then [(RLIMIT_STACK, u64 mb * 1024 * 1024, u64 mb * 1024 * 1024)] else []) @
         (if n > 0 then [(RLIMIT_NOFILE, u64 n, u64 n)] else []) @
         [(RLIMIT_CORE, 0, 0)])"

datatype stage2_end = Exits int | Execs string "string list" bool

text \<open>The settings made and how the stage ends; \<open>allowed\<close> says which \<^verbatim>\<open>setrlimit\<close> succeeds and \<open>look\<close>
  which program a name stands for and can be executed.\<close>

definition stage2 :: "(setting \<Rightarrow> bool) \<Rightarrow> (string \<Rightarrow> string option) \<Rightarrow> (string \<Rightarrow> string) \<Rightarrow> string list \<Rightarrow> setting list \<times> stage2_end" where
  "stage2 allowed look getenv args =
     (if args = [] then ([], Exits 126)
      else let ls = stage2_limits getenv; made = takeWhile allowed ls
           in if length made < length ls then (made, Exits 126)
              else case look (hd args) of
                  None \<Rightarrow> (ls, Exits 127)
                | Some bin \<Rightarrow> (ls, Execs bin args (getenv ''BOXRUN_NO_ASLR'' = ''1'')))"

subsection \<open>Metrics\<close>

record Meta =
  mt_ExitCode :: int
  mt_Signal :: int
  mt_CPUms :: int
  mt_UserMs :: int
  mt_SysMs :: int
  mt_WallMs :: int
  mt_MaxRSSKB :: int
  mt_WallKill :: bool
  mt_CPUKill :: bool
  mt_FSizeKill :: bool
  mt_StdoutLen :: int
  mt_StderrLen :: int

definition zero_Meta :: Meta where
  "zero_Meta = \<lparr>mt_ExitCode = 0, mt_Signal = 0, mt_CPUms = 0, mt_UserMs = 0, mt_SysMs = 0, mt_WallMs = 0, mt_MaxRSSKB = 0,
     mt_WallKill = False, mt_CPUKill = False, mt_FSizeKill = False, mt_StdoutLen = 0, mt_StderrLen = 0\<rparr>"

datatype wait_status = Exited int | Signaled int

text \<open>What \<^verbatim>\<open>wait4\<close> returns; times are seconds and microseconds.\<close>

record process_state =
  ps_status :: wait_status
  ps_utime :: "int \<times> int"
  ps_stime :: "int \<times> int"
  ps_maxrss :: int

definition tvms :: "int \<times> int \<Rightarrow> int" where
  "tvms t = i64 (i64 (fst t * 1000) + snd t sdiv 1000)"

definition wait_metrics :: "process_state option \<Rightarrow> bool \<Rightarrow> Meta \<Rightarrow> Meta" where
  "wait_metrics ps waitErr m =
     (case ps of
        None \<Rightarrow> if waitErr then m\<lparr>mt_ExitCode := 127\<rparr> else m
      | Some p \<Rightarrow>
          let m = (case ps_status p of
                     Signaled sig \<Rightarrow> m\<lparr>mt_Signal := sig, mt_ExitCode := 128 + sig, mt_CPUKill := (sig = 24), mt_FSizeKill := (sig = 25)\<rparr>
                   | Exited code \<Rightarrow> m\<lparr>mt_ExitCode := code\<rparr>);
              user = tvms (ps_utime p); sys = tvms (ps_stime p)
          in m\<lparr>mt_UserMs := user, mt_SysMs := sys, mt_CPUms := i64 (user + sys), mt_MaxRSSKB := ps_maxrss p\<rparr>)"

definition collect :: "flags \<Rightarrow> duration \<Rightarrow> bool \<Rightarrow> process_state option \<Rightarrow> bool \<Rightarrow> int option \<Rightarrow> int option \<Rightarrow> Meta" where
  "collect fl wall killed ps waitErr out err =
     (let m = wait_metrics ps waitErr (zero_Meta\<lparr>mt_WallMs := wall sdiv 1000000, mt_WallKill := killed\<rparr>);
          m = (if fl_cpu_ms fl > 0 \<and> mt_CPUms m \<ge> fl_cpu_ms fl then m\<lparr>mt_CPUKill := True\<rparr> else m);
          m = (case out of None \<Rightarrow> m | Some n \<Rightarrow> m\<lparr>mt_StdoutLen := n\<rparr>)
      in case err of None \<Rightarrow> m | Some n \<Rightarrow> m\<lparr>mt_StderrLen := n\<rparr>)"

text \<open>
  The first stage on a system: whether its own path is known, which files it can open, and what
  starting the second stage with an environment and a command in a directory leads to. The
  watchdog exists only when a wall-clock limit was given. Returned are the metrics it writes, if
  any, and its exit code.
\<close>

record child_run =
  cr_wall :: duration
  cr_killed :: bool
  cr_state :: "process_state option"
  cr_waitErr :: bool
  cr_stdout :: "int option"
  cr_stderr :: "int option"

record os_view =
  os_executable :: bool
  os_readable :: "string \<Rightarrow> bool"
  os_creatable :: "string \<Rightarrow> bool"
  os_start :: "string \<Rightarrow> (string \<times> string) list \<Rightarrow> string list \<Rightarrow> child_run option"

definition parent :: "os_view \<Rightarrow> string list \<Rightarrow> (string \<times> Meta) option \<times> int" where
  "parent S args =
     (case boxrun_args args of
        Inl code \<Rightarrow> (None, code)
      | Inr (fl, target) \<Rightarrow>
          if \<not> os_executable S then (None, 126)
          else if fl_stdin fl \<noteq> [] \<and> \<not> os_readable S (fl_stdin fl) then (None, 126)
          else if \<not> os_creatable S (fl_stdout fl) then (None, 126)
          else if \<not> os_creatable S (fl_stderr fl) then (None, 126)
          else case os_start S (fl_workdir fl) (stage2_env fl) target of
              None \<Rightarrow> (Some (fl_meta fl, zero_Meta\<lparr>mt_ExitCode := 127\<rparr>), 126)
            | Some r \<Rightarrow>
                (Some (fl_meta fl, collect fl (cr_wall r) (fl_wall_ms fl > 0 \<and> cr_killed r) (cr_state r) (cr_waitErr r) (cr_stdout r) (cr_stderr r)), 0))"

text \<open>Whatever the program did, a supervisor that could start it exits 0 and has written metrics;
  metrics with another exit code say that nothing was started.\<close>

lemma parent_reports:
  assumes "parent S args = (out, code)"
  shows "(out = None \<longrightarrow> code \<in> {0, 2, 126}) \<and> (\<forall>p m. out = Some (p, m) \<longrightarrow> code = 0 \<or> code = 126 \<and> mt_ExitCode m = 127 \<and> mt_StdoutLen m = 0)"
  using assms by (auto simp: parent_def boxrun_args_def zero_Meta_def split: sum.splits prod.splits if_splits option.splits)

subsection \<open>Numbers pass through\<close>

lemma utoa_nonzero_head: "0 < n \<Longrightarrow> \<exists>c s. utoa n = c # s \<and> c \<noteq> CHR ''0''"
proof (induction n rule: less_induct)
  case (less n)
  show ?case
  proof (cases "n < 10")
    case True
    then have c: "of_char (char_of (48 + n) :: char) = 48 + n" by simp
    have "char_of (48 + n) \<noteq> CHR ''0''"
    proof
      assume "char_of (48 + n) = CHR ''0''"
      then have "of_char (CHR ''0'') = 48 + n" using c by metis
      then show False using less.prems by simp
    qed
    then show ?thesis using True by (simp add: utoa.simps [of n])
  next
    case False
    then have "n div 10 < n" "0 < n div 10" by simp_all
    then obtain c s where "utoa (n div 10) = c # s \<and> c \<noteq> CHR ''0''" using less.IH by blast
    then show ?thesis using False by (simp add: utoa.simps [of n])
  qed
qed

lemma digit_val_dec: "dec_digit c \<Longrightarrow> digit_val c = of_char c - 48 \<and> digit_val c < 10 \<and> c \<noteq> CHR ''_''"
  by (auto simp: digit_val_def dec_digit_def Let_def)

lemma foldl_digit_val: "list_all dec_digit ds \<Longrightarrow> foldl (\<lambda>n c. n * 10 + digit_val c) k ds = foldl (\<lambda>n c. n * 10 + (of_char c - 48)) k ds"
  by (induction ds arbitrary: k) (simp_all add: digit_val_dec)

lemma ParseInt0_utoa:
  assumes "0 < n"
  shows "split_base (utoa n) = (10, utoa n, False)" and "underscores_ok False (utoa n)"
    and "filter (\<lambda>c. c \<noteq> CHR ''_'') (utoa n) = utoa n" and "list_all (\<lambda>c. digit_val c < 10) (utoa n)"
    and "foldl (\<lambda>n c. n * 10 + digit_val c) 0 (utoa n) = n"
proof -
  have d: "list_all dec_digit (utoa n)" "utoa n \<noteq> []" "digits_value (utoa n) = n" using utoa_digits [of n] by auto
  obtain c s where u: "utoa n = c # s" "c \<noteq> CHR ''0''" using utoa_nonzero_head [OF assms] by blast
  show "split_base (utoa n) = (10, utoa n, False)" using u by (simp add: split_base_def)
  have nu: "CHR ''_'' \<notin> set (utoa n)" using d(1) digit_val_dec by (auto simp: list_all_iff)
  show "underscores_ok False (utoa n)"
    unfolding underscores_ok_def
  proof (intro disjI2 conjI)
    have "hd (utoa n) \<in> set (utoa n)" "last (utoa n) \<in> set (utoa n)" by (rule hd_in_set [OF d(2)], rule last_in_set [OF d(2)])
    then show "hd (utoa n) \<noteq> CHR ''_''" "last (utoa n) \<noteq> CHR ''_''" using nu by (intro notI; simp only:)+
    show "\<not> sublist ''__'' (utoa n)" using nu set_mono_sublist [of "''__''" "utoa n"] by (intro notI) simp
  qed
  show "filter (\<lambda>c. c \<noteq> CHR ''_'') (utoa n) = utoa n" using nu by (intro filter_True) auto
  show "list_all (\<lambda>c. digit_val c < 10) (utoa n)"
    by (rule list.pred_mono_strong [OF d(1)]) (blast dest: digit_val_dec)
  show "foldl (\<lambda>n c. n * 10 + digit_val c) 0 (utoa n) = n"
    using foldl_digit_val [OF d(1), of 0] d(3) by (simp add: digits_value_def)
qed

lemma ParseInt0_itoa [simp]: "in_i64 n \<Longrightarrow> ParseInt0 (itoa n) = Some n"
proof -
  assume r: "in_i64 n"
  consider "n = 0" | "0 < n" | "n < 0" by linarith
  then show ?thesis
  proof cases
    case 1
    have "utoa 0 = ''0''" by (simp add: utoa.simps [of 0] char_of_def bit_numeral_rec bit_0)
    then show ?thesis using 1 by (simp add: itoa_def ParseInt0_def split_base_def underscores_ok_def in_i64_def)
  next
    case 2
    obtain c s where u: "utoa (nat n) = c # s" "dec_digit c" using utoa_head by metis
    have "c \<noteq> CHR ''-''" "c \<noteq> CHR ''+''" using u(2) by (auto simp: dec_digit_def)
    then show ?thesis using 2 r u(1) ParseInt0_utoa [of "nat n"] by (simp add: itoa_def ParseInt0_def)
  next
    case 3
    then show ?thesis using r ParseInt0_utoa [of "nat (- n)"] utoa_digits [of "nat (- n)"] by (simp add: itoa_def ParseInt0_def)
  qed
qed

text \<open>The second stage reads the numbers the first one was given.\<close>

lemma envInt_child:
  assumes "map_of (stage2_env fl) k = Some (itoa n)" and "in_i64 n"
  shows "envInt (child_getenv inherited fl) k d = n"
  using assms Atoi_itoa [OF assms(2)] utoa_digits by (auto simp: envInt_def child_getenv_def itoa_def)

definition flags_ok :: "flags \<Rightarrow> bool" where
  "flags_ok fl \<longleftrightarrow> in_i64 (fl_cpu_ms fl) \<and> in_i64 (fl_fsize_kb fl) \<and> in_i64 (fl_stack_mb fl) \<and> in_i64 (fl_nofile fl)"

lemma stage2_limits_child:
  assumes "flags_ok fl"
  shows "stage2_limits (child_getenv inherited fl) =
     (if fl_cpu_ms fl > 0 then [cpu_setting (fl_cpu_ms fl)] else []) @
     (if fl_fsize_kb fl > 0 then [(RLIMIT_FSIZE, u64 (fl_fsize_kb fl) * 1024, u64 (fl_fsize_kb fl) * 1024)] else []) @
     (if fl_stack_mb fl > 0 then [(RLIMIT_STACK, u64 (fl_stack_mb fl) * 1024 * 1024, u64 (fl_stack_mb fl) * 1024 * 1024)] else []) @
     (if fl_nofile fl > 0 then [(RLIMIT_NOFILE, u64 (fl_nofile fl), u64 (fl_nofile fl))] else []) @ [(RLIMIT_CORE, 0, 0)]"
proof -
  have "envInt (child_getenv inherited fl) ''BOXRUN_CPU_MS'' 0 = fl_cpu_ms fl" "envInt (child_getenv inherited fl) ''BOXRUN_FSIZE_KB'' 0 = fl_fsize_kb fl"
    "envInt (child_getenv inherited fl) ''BOXRUN_STACK_MB'' 0 = fl_stack_mb fl" "envInt (child_getenv inherited fl) ''BOXRUN_NOFILE'' 0 = fl_nofile fl"
    using assms by (auto intro!: envInt_child simp: flags_ok_def stage2_env_def)
  then show ?thesis by (simp only: stage2_limits_def Let_def)
qed

lemma uint_u64: "0 \<le> n \<Longrightarrow> n < 2 ^ 64 \<Longrightarrow> uint (u64 n) = n"
  by (simp add: u64_def uint_word_of_int)

lemma uint_u64_mult: "0 \<le> n \<Longrightarrow> 0 \<le> k \<Longrightarrow> n * k < 2 ^ 64 \<Longrightarrow> uint (u64 n * word_of_int k) = n * k"
  unfolding u64_def wi_hom_mult uint_word_of_int by simp

lemma cpu_setting_uint:
  assumes "0 < ms" and "ms + 999 \<le> max_i64"
  shows "\<exists>s. cpu_setting ms = (RLIMIT_CPU, s, s + 1) \<and> uint s = (ms + 999) div 1000 \<and> uint (s + 1) = (ms + 999) div 1000 + 1"
proof -
  have b: "1 \<le> (ms + 999) div 1000" "(ms + 999) div 1000 < 2 ^ 62" using assms by simp_all
  have "i64 (ms + 999) sdiv 1000 = (ms + 999) div 1000" using assms by (simp add: i64_id in_i64_def sdiv_nonneg)
  then have s: "uint (u64 (i64 (ms + 999) sdiv 1000)) = (ms + 999) div 1000" using b by (simp add: uint_u64)
  then have "\<not> u64 (i64 (ms + 999) sdiv 1000) < 1" using b by (simp add: word_less_def)
  moreover have "uint (u64 (i64 (ms + 999) sdiv 1000) + 1) = (ms + 999) div 1000 + 1"
    using b s by (simp add: uint_plus_if')
  ultimately show ?thesis using s by (simp add: cpu_setting_def Let_def)
qed

subsection \<open>The program\<close>

text \<open>The same binary is both stages; the environment says which.\<close>

definition boxrun_main :: "(string \<Rightarrow> string) \<Rightarrow> (setting \<Rightarrow> bool) \<Rightarrow> (string \<Rightarrow> string option) \<Rightarrow> os_view \<Rightarrow> string list \<Rightarrow>
    (setting list \<times> stage2_end) + (string \<times> Meta) option \<times> int" where
  "boxrun_main getenv allowed look S args =
     (if getenv ''BOXRUN_STAGE2'' = ''1'' then Inl (stage2 allowed look getenv args) else Inr (parent S args))"

text \<open>The child that the first stage starts is the second stage, whatever it inherits.\<close>

lemma child_is_stage2: "boxrun_main (child_getenv inherited fl) allowed look S args = Inl (stage2 allowed look (child_getenv inherited fl) args)"
  by (simp add: boxrun_main_def child_getenv_def stage2_env_def)

end
