(* ===== verification/Sandbox.thy ===== *)
theory Sandbox
  imports Boxrun Judge
begin

section \<open>The sandbox drivers (\<^verbatim>\<open>internal/adapters/sandbox\<close>)\<close>

text \<open>
  The Docker driver builds a command line, runs it and reads the supervisor's metrics; the
  process driver runs the supervisor on the host. The docker command line tool is the record
  \<open>host\<close> over an abstract state: what a command prints or how it fails, and the files of the
  box. The JSON decoder for the metrics is an argument. Contexts and their deadlines show as
  commands that fail.
\<close>

record 'd host =
  docker :: "string list \<Rightarrow> 'd \<Rightarrow> (string, string) result \<times> 'd"
  boxrun :: "string list \<Rightarrow> 'd \<Rightarrow> 'd"
  read_meta_file :: "string \<Rightarrow> 'd \<Rightarrow> string option"
  remove_file :: "string \<Rightarrow> 'd \<Rightarrow> 'd"

record boxMeta =
  bm_ExitCode :: int
  bm_Signal :: int
  bm_CPUms :: int
  bm_WallMs :: int
  bm_MaxRSSKB :: int
  bm_WallKill :: bool
  bm_CPUKill :: bool
  bm_FSizeKill :: bool
  bm_StdoutLen :: int

datatype sandbox_error = RunFailed string | NoMetrics | UnknownDriver string | NoIsolation

subsection \<open>Command lines\<close>

definition FormatBool :: "bool \<Rightarrow> string" where
  "FormatBool b = (if b then ''true'' else ''false'')"

definition inner_wall :: "RunSpec \<Rightarrow> int" where
  "inner_wall spec = (if WallMs (rs_Limits spec) \<le> 0 then 10000 else WallMs (rs_Limits spec))"

definition boxStdin :: "RunSpec \<Rightarrow> string list" where
  "boxStdin spec = (if rs_StdinPath spec = [] then [] else [''-stdin'', rs_StdinPath spec])"

definition boxCmd :: "RunSpec \<Rightarrow> string list" where
  "boxCmd spec =
     [''/usr/local/bin/boxrun'', ''-meta'', ''/box/meta.json'', ''-cpu-ms'', itoa (CPUms (rs_Limits spec)),
      ''-wall-ms'', itoa (inner_wall spec), ''-fsize-kb'', itoa (StdoutKB (rs_Limits spec)),
      ''-stack-mb'', itoa (StackMB (rs_Limits spec)), ''-nofile'', itoa (OpenFiles (rs_Limits spec)),
      ''-stdout'', ''/box/stdout'', ''-stderr'', ''/box/stderr'', ''-workdir'', ''/box'',
      ''-no-aslr='' @ FormatBool (rs_DisableASLR spec)] @ boxStdin spec @ [''--''] @ rs_Cmd spec"

definition docker_args :: "string \<Rightarrow> RunSpec \<Rightarrow> string \<Rightarrow> string list" where
  "docker_args runnerID spec name =
     [''run'', ''--name'', name, ''--label'', ''arena.runner='' @ runnerID, ''--workdir'', ''/box'',
      ''-v'', render (rs_BoxDir spec) @ '':/box:rw'', ''--read-only'', ''--cap-drop=ALL'',
      ''--security-opt=no-new-privileges'', ''--user'', ''65534:65534'',
      ''--memory'', itoa (MemMB (rs_Limits spec)) @ ''m'', ''--memory-swap'', itoa (MemMB (rs_Limits spec)) @ ''m'',
      ''--memory-swappiness'', ''0'', ''--pids-limit'', itoa (Pids (rs_Limits spec)), ''--ulimit'', ''core=0'', ''--cpus'', ''1.0''] @
     (if rs_CPUSet spec = [] then [] else [''--cpuset-cpus'', rs_CPUSet spec]) @
     (if rs_Network spec then [] else [''--network'', ''none'']) @
     concat (map (\<lambda>e. [''-e'', e]) (rs_Env spec)) @ [rs_Image spec] @ boxCmd spec"

subsection \<open>The Docker driver\<close>

definition readMeta :: "(string \<Rightarrow> boxMeta option) \<Rightarrow> 'd host \<Rightarrow> string \<Rightarrow> 'd \<Rightarrow> boxMeta option" where
  "readMeta unmarshal H p s = Option.bind (read_meta_file H p s) unmarshal"

definition remove :: "'d host \<Rightarrow> string \<Rightarrow> 'd \<Rightarrow> 'd" where
  "remove H name s = snd (docker H [''rm'', ''-f'', ''-v'', name] s)"

definition inspect :: "'d host \<Rightarrow> string \<Rightarrow> 'd \<Rightarrow> (bool \<times> int) \<times> 'd" where
  "inspect H name s =
     (case docker H [''inspect'', ''--format'', ''{{.State.OOMKilled}} {{.State.ExitCode}}'', name] s of
        (Inl _, s1) \<Rightarrow> ((False, 0), s1)
      | (Inr txt, s1) \<Rightarrow>
          (case words txt of
             [a, b] \<Rightarrow> ((a = ''true'', case Atoi b of Some n \<Rightarrow> n | None \<Rightarrow> 0), s1)
           | _ \<Rightarrow> ((False, 0), s1)))"

definition outcome_of :: "boxMeta \<Rightarrow> bool \<Rightarrow> int \<Rightarrow> ExecOutcome" where
  "outcome_of m oom inspectExit = zero_ExecOutcome
     \<lparr>out_ExitCode := bm_ExitCode m, out_Signal := bm_Signal m, out_CPUms := bm_CPUms m, out_WallMs := bm_WallMs m,
      out_MaxRSSKB := bm_MaxRSSKB m, out_OOMKilled := oom \<or> (inspectExit = 137 \<and> bm_MaxRSSKB m = 0),
      out_WallKill := bm_WallKill m, out_FSizeKill := bm_FSizeKill m, out_StdoutLen := bm_StdoutLen m\<rparr>"

text \<open>\<open>fresh\<close> is the name made from the time and the driver's counter when the request has none.\<close>

definition Docker_Run :: "(string \<Rightarrow> boxMeta option) \<Rightarrow> 'd host \<Rightarrow> string \<Rightarrow> string \<Rightarrow> RunSpec \<Rightarrow> 'd \<Rightarrow> (sandbox_error, ExecOutcome) result \<times> 'd" where
  "Docker_Run unmarshal H runnerID fresh spec s =
     (let metaHost = render (rs_BoxDir spec @ [''meta.json'']);
          name = (if rs_Name spec = [] then fresh else rs_Name spec);
          s1 = remove H name (remove_file H metaHost s);
          (ran, s2) = docker H (docker_args runnerID spec name) s1;
          ((oom, code), s3) = inspect H name s2;
          s4 = remove H name s3
      in case readMeta unmarshal H metaHost s4 of
           None \<Rightarrow> (Inl (case ran of Inl err \<Rightarrow> RunFailed err | Inr _ \<Rightarrow> NoMetrics), s4)
         | Some m \<Rightarrow> (Inr (outcome_of m oom code), s4))"

text \<open>The counter of a driver and the name of a container that the caller did not name.\<close>

definition seq_next :: "64 word \<Rightarrow> 64 word \<times> 64 word" where
  "seq_next seq = (let seq = seq + 1 in (seq, seq))"

definition container_name :: "int \<Rightarrow> 64 word \<Rightarrow> string" where
  "container_name nanos n = ''arena-'' @ itoa nanos @ ''-'' @ utoa (unat n)"

definition Warm :: "'d host \<Rightarrow> string \<Rightarrow> 'd \<Rightarrow> string option \<times> 'd" where
  "Warm H img s =
     (case docker H [''image'', ''inspect'', img] s of
        (Inr _, s1) \<Rightarrow> (None, s1)
      | (Inl _, s1) \<Rightarrow> (case docker H [''pull'', img] s1 of (Inl e, s2) \<Rightarrow> (Some e, s2) | (Inr _, s2) \<Rightarrow> (None, s2)))"

definition SweepStale :: "'d host \<Rightarrow> string \<Rightarrow> 'd \<Rightarrow> (string, nat) result \<times> 'd" where
  "SweepStale H runnerID s =
     (case docker H [''ps'', ''-aq'', ''--filter'', ''label=arena.runner='' @ runnerID] s of
        (Inl e, s1) \<Rightarrow> (Inl e, s1)
      | (Inr txt, s1) \<Rightarrow> (Inr (length (words txt)), foldl (\<lambda>s i. remove H i s) s1 (words txt)))"

subsection \<open>The process driver and the choice of a driver\<close>

definition base_name :: "string \<Rightarrow> string" where
  "base_name p =
     (let t = rev (dropWhile (\<lambda>c. c = CHR ''/'') (rev p))
      in if p = [] then ''.'' else if t = [] then ''/'' else rev (takeWhile (\<lambda>c. c \<noteq> CHR ''/'') (rev t)))"

definition process_args :: "RunSpec \<Rightarrow> string list" where
  "process_args spec =
     [''-meta'', render (rs_BoxDir spec @ [''meta.json'']), ''-cpu-ms'', itoa (CPUms (rs_Limits spec)),
      ''-wall-ms'', itoa (WallMs (rs_Limits spec)), ''-fsize-kb'', itoa (StdoutKB (rs_Limits spec)),
      ''-stack-mb'', itoa (StackMB (rs_Limits spec)), ''-stdout'', render (rs_BoxDir spec @ [''stdout'']),
      ''-stderr'', render (rs_BoxDir spec @ [''stderr'']), ''-workdir'', render (rs_BoxDir spec)] @
     (if rs_StdinPath spec = [] then [] else [''-stdin'', render (rs_BoxDir spec @ [base_name (rs_StdinPath spec)])]) @
     [''--''] @ rs_Cmd spec"

definition Process_Run :: "(string \<Rightarrow> boxMeta option) \<Rightarrow> 'd host \<Rightarrow> RunSpec \<Rightarrow> 'd \<Rightarrow> (sandbox_error, ExecOutcome) result \<times> 'd" where
  "Process_Run unmarshal H spec s =
     (let metaPath = render (rs_BoxDir spec @ [''meta.json'']); s1 = boxrun H (process_args spec) (remove_file H metaPath s)
      in case readMeta unmarshal H metaPath s1 of
           None \<Rightarrow> (Inl NoMetrics, s1) | Some m \<Rightarrow> (Inr (outcome_of m False 0), s1))"

datatype driver = DockerDriver string | ProcessDriver

definition New :: "string \<Rightarrow> string \<Rightarrow> string \<Rightarrow> (sandbox_error, driver) result" where
  "New drv env runnerID =
     (if drv = ''docker'' \<or> drv = [] then Inr (DockerDriver runnerID)
      else if drv = ''process'' then (if env = ''prod'' then Inl NoIsolation else Inr ProcessDriver)
      else Inl (UnknownDriver drv))"

subsection \<open>Names of containers\<close>

lemma after_last_dash: "a @ CHR ''-'' # s = b @ CHR ''-'' # t \<Longrightarrow> CHR ''-'' \<notin> set s \<Longrightarrow> CHR ''-'' \<notin> set t \<Longrightarrow> s = t"
proof -
  assume e: "a @ CHR ''-'' # s = b @ CHR ''-'' # t" and s: "CHR ''-'' \<notin> set s" "CHR ''-'' \<notin> set t"
  have *: "takeWhile (\<lambda>c. c \<noteq> CHR ''-'') (rev (x @ CHR ''-'' # y)) = rev y" if "CHR ''-'' \<notin> set y" for x y :: string
    using that by (subst rev_append, simp, subst takeWhile_append2) auto
  have "rev s = rev t" using * [OF s(1), of a] * [OF s(2), of b] unfolding e by simp
  then show "s = t" by simp
qed

lemma container_name_counter: "container_name t n = container_name t' k \<Longrightarrow> n = k"
proof -
  assume e: "container_name t n = container_name t' k"
  have d: "CHR ''-'' \<notin> set (utoa m)" for m
    using utoa_digits [of m] by (auto simp: list_all_iff dec_digit_def)
  have "utoa (unat n) = utoa (unat k)"
    using after_last_dash [of "''arena-'' @ itoa t" "utoa (unat n)" "''arena-'' @ itoa t'" "utoa (unat k)"] e d by (simp add: container_name_def)
  then have "unat n = unat k" using utoa_digits by metis
  then show "n = k" by (simp add: word_unat_eq_iff)
qed

text \<open>The names a driver gives to its containers differ, whatever the clock says, until the counter wraps
  around.\<close>

lemma names_fresh:
  assumes "i < j" and "j - i < 2 ^ 64"
  shows "container_name t (seq + of_nat i) \<noteq> container_name t' (seq + of_nat j)"
proof
  assume "container_name t (seq + of_nat i) = container_name t' (seq + of_nat j)"
  then have "(of_nat j :: 64 word) - of_nat i = 0" by (drule_tac container_name_counter) simp
  then have "(of_nat (j - i) :: 64 word) = 0" using assms(1) by (simp add: of_nat_diff)
  then have "2 ^ 64 dvd j - i" by (simp add: word_of_nat_eq_0_iff)
  then show False using assms by (auto dest: dvd_imp_le)
qed

subsection \<open>The supervisor receives what the driver sends\<close>

text \<open>One step of the flag parser on a flag with a separate value, and on the end of the flags.\<close>

lemma parse_value_flag:
  assumes "known_flag nm" and "nm \<noteq> ''no-aslr''" and "set_flag nm v fl = Inr fl'"
  shows "parse_flags fl ((CHR ''-'' # nm) # v # rest) = parse_flags fl' rest"
proof -
  have "split_eq nm = (nm, None)" "nm \<noteq> []" "hd nm \<noteq> CHR ''-''" "hd nm \<noteq> CHR ''=''"
    using assms(1) by (auto simp: known_flag_def split_eq_def)
  then show ?thesis using assms by (cases nm) (auto simp: Let_def)
qed

lemma parse_aslr_flag: "parse_flags fl ((''-no-aslr='' @ FormatBool b) # rest) = parse_flags (fl\<lparr>fl_no_aslr := b\<rparr>) rest"
  by (cases b) (simp_all add: FormatBool_def split_eq_def set_flag_def ParseBool_def)

lemma parse_dashes: "parse_flags fl (''--'' # cmd) = Inr (fl, cmd)"
  by simp

definition sent_flags :: "RunSpec \<Rightarrow> flags" where
  "sent_flags spec = \<lparr>fl_meta = ''/box/meta.json'', fl_cpu_ms = CPUms (rs_Limits spec), fl_wall_ms = inner_wall spec,
     fl_fsize_kb = StdoutKB (rs_Limits spec), fl_stack_mb = StackMB (rs_Limits spec), fl_nofile = OpenFiles (rs_Limits spec),
     fl_stdin = rs_StdinPath spec, fl_stdout = ''/box/stdout'', fl_stderr = ''/box/stderr'',
     fl_no_aslr = rs_DisableASLR spec, fl_workdir = ''/box''\<rparr>"

definition limits_ok :: "Limits \<Rightarrow> bool" where
  "limits_ok l \<longleftrightarrow> in_i64 (CPUms l) \<and> in_i64 (WallMs l) \<and> in_i64 (StdoutKB l) \<and> in_i64 (StackMB l) \<and> in_i64 (OpenFiles l)"

lemma boxrun_args_boxCmd:
  assumes "limits_ok (rs_Limits spec)" and "rs_Cmd spec \<noteq> []"
  shows "boxrun_args (tl (boxCmd spec)) = Inr (sent_flags spec, rs_Cmd spec)"
proof -
  have w: "in_i64 (inner_wall spec)" using assms(1) by (simp add: inner_wall_def limits_ok_def in_i64_def)
  have l: "in_i64 (CPUms (rs_Limits spec))" "in_i64 (StdoutKB (rs_Limits spec))" "in_i64 (StackMB (rs_Limits spec))"
    "in_i64 (OpenFiles (rs_Limits spec))" using assms(1) by (simp_all add: limits_ok_def)
  let ?f0 = "default_flags\<lparr>fl_meta := ''/box/meta.json''\<rparr>"
  let ?f1 = "?f0\<lparr>fl_cpu_ms := CPUms (rs_Limits spec)\<rparr>" let ?f2 = "?f1\<lparr>fl_wall_ms := inner_wall spec\<rparr>"
  let ?f3 = "?f2\<lparr>fl_fsize_kb := StdoutKB (rs_Limits spec)\<rparr>" let ?f4 = "?f3\<lparr>fl_stack_mb := StackMB (rs_Limits spec)\<rparr>"
  let ?f5 = "?f4\<lparr>fl_nofile := OpenFiles (rs_Limits spec)\<rparr>"
  let ?f6 = "?f5\<lparr>fl_stdout := ''/box/stdout'', fl_stderr := ''/box/stderr'', fl_workdir := ''/box''\<rparr>"
  let ?f7 = "?f6\<lparr>fl_no_aslr := rs_DisableASLR spec\<rparr>"
  have step: "parse_flags fl ((CHR ''-'' # nm) # v # rest) = parse_flags fl' rest"
    if "known_flag nm" "nm \<noteq> ''no-aslr''" "set_flag nm v fl = Inr fl'" for fl fl' nm v rest
    using that by (rule parse_value_flag)
  have end': "parse_flags ?f7 (boxStdin spec @ ''--'' # rs_Cmd spec) = Inr (sent_flags spec, rs_Cmd spec)"
  proof (cases "rs_StdinPath spec = []")
    case True
    then show ?thesis by (simp add: boxStdin_def sent_flags_def default_flags_def)
  next
    case False
    have "parse_flags ?f7 (''-stdin'' # rs_StdinPath spec # ''--'' # rs_Cmd spec) = parse_flags (?f7\<lparr>fl_stdin := rs_StdinPath spec\<rparr>) (''--'' # rs_Cmd spec)"
      by (rule step) (simp_all add: known_flag_def set_flag_def)
    then show ?thesis using False by (simp add: boxStdin_def sent_flags_def default_flags_def)
  qed
  have "parse_flags default_flags (tl (boxCmd spec)) = parse_flags ?f7 (boxStdin spec @ ''--'' # rs_Cmd spec)"
    unfolding boxCmd_def
    by (simp add: step [of "''meta''" _ _ ?f0] step [of "''cpu-ms''" _ _ ?f1] step [of "''wall-ms''" _ _ ?f2]
        step [of "''fsize-kb''" _ _ ?f3] step [of "''stack-mb''" _ _ ?f4] step [of "''nofile''" _ _ ?f5]
        step [of "''stdout''" _ _ "?f5\<lparr>fl_stdout := ''/box/stdout''\<rparr>"]
        step [of "''stderr''" _ _ "?f5\<lparr>fl_stdout := ''/box/stdout'', fl_stderr := ''/box/stderr''\<rparr>"]
        step [of "''workdir''" _ _ ?f6] parse_aslr_flag [unfolded append_Cons append_Nil] known_flag_def set_flag_def int_flag_def w l
        del: parse_flags.simps)
  then show ?thesis using end' assms(2) by (simp add: boxrun_args_def)
qed

subsection \<open>Properties\<close>

text \<open>
  C10: what the driver asks for is what the kernel is told. For every command of the runner,
  also one whose arguments look like flags, the supervisor started by the Docker driver runs
  exactly that command, with the wall-clock limit and the input the driver sent, and the second
  stage sets the CPU limit to the whole seconds above the requested milliseconds, with the hard
  limit one second later, the file size, stack and open file limits to the requested values
  in bytes and descriptors, and no core dumps, whatever the inherited environment says.
\<close>

theorem limits_reach_kernel:
  assumes "limits_ok (rs_Limits spec)" and "rs_Cmd spec \<noteq> []" and "look (hd (rs_Cmd spec)) = Some bin"
    and "0 < CPUms (rs_Limits spec)" and "CPUms (rs_Limits spec) + 999 \<le> max_i64"
    and "0 < StdoutKB (rs_Limits spec)" and "StdoutKB (rs_Limits spec) < 2 ^ 54"
    and "0 < StackMB (rs_Limits spec)" and "StackMB (rs_Limits spec) < 2 ^ 44" and "0 < OpenFiles (rs_Limits spec)"
  shows "\<exists>fl ls. boxrun_args (tl (boxCmd spec)) = Inr (fl, rs_Cmd spec) \<and>
    fl_wall_ms fl = inner_wall spec \<and> fl_stdin fl = rs_StdinPath spec \<and>
    stage2 (\<lambda>_. True) look (child_getenv inherited fl) (rs_Cmd spec) = (ls, Execs bin (rs_Cmd spec) (rs_DisableASLR spec)) \<and>
    map (\<lambda>(r, soft, hard). (r, uint soft, uint hard)) ls =
      [(RLIMIT_CPU, (CPUms (rs_Limits spec) + 999) div 1000, (CPUms (rs_Limits spec) + 999) div 1000 + 1),
       (RLIMIT_FSIZE, StdoutKB (rs_Limits spec) * 1024, StdoutKB (rs_Limits spec) * 1024),
       (RLIMIT_STACK, StackMB (rs_Limits spec) * 1048576, StackMB (rs_Limits spec) * 1048576),
       (RLIMIT_NOFILE, OpenFiles (rs_Limits spec), OpenFiles (rs_Limits spec)), (RLIMIT_CORE, 0, 0)]"
proof -
  let ?l = "rs_Limits spec" let ?fl = "sent_flags spec"
  have fl: "fl_cpu_ms ?fl = CPUms ?l" "fl_fsize_kb ?fl = StdoutKB ?l" "fl_stack_mb ?fl = StackMB ?l" "fl_nofile ?fl = OpenFiles ?l"
    "fl_no_aslr ?fl = rs_DisableASLR spec" "fl_wall_ms ?fl = inner_wall spec" "fl_stdin ?fl = rs_StdinPath spec"
    by (simp_all add: sent_flags_def)
  have ok: "flags_ok ?fl" using assms(1) by (simp add: flags_ok_def limits_ok_def fl)
  obtain s where s: "cpu_setting (CPUms ?l) = (RLIMIT_CPU, s, s + 1)" "uint s = (CPUms ?l + 999) div 1000" "uint (s + 1) = (CPUms ?l + 999) div 1000 + 1"
    using cpu_setting_uint [OF assms(4,5)] by blast
  let ?ls = "[(RLIMIT_CPU, s, s + 1), (RLIMIT_FSIZE, u64 (StdoutKB ?l) * 1024, u64 (StdoutKB ?l) * 1024),
     (RLIMIT_STACK, u64 (StackMB ?l) * 1024 * 1024, u64 (StackMB ?l) * 1024 * 1024), (RLIMIT_NOFILE, u64 (OpenFiles ?l), u64 (OpenFiles ?l)), (RLIMIT_CORE, 0, 0)]"
  have ls: "stage2_limits (child_getenv inherited ?fl) = ?ls"
    using assms(4,6,8,10) s(1) by (simp add: stage2_limits_child [OF ok] fl)
  have aslr: "(child_getenv inherited ?fl ''BOXRUN_NO_ASLR'' = ''1'') = rs_DisableASLR spec"
    by (simp add: child_getenv_def stage2_env_def fl boolStr_def)
  have f: "uint (u64 (StdoutKB ?l) * 1024) = StdoutKB ?l * 1024"
    using uint_u64_mult [of "StdoutKB ?l" 1024] assms(6,7) by simp
  have k: "uint (u64 (StackMB ?l) * 1024 * 1024) = StackMB ?l * 1048576"
    using uint_u64_mult [of "StackMB ?l" 1048576] assms(8,9) by (simp add: mult.assoc)
  have z: "uint (0 :: 64 word) = 0" by simp
  have n: "uint (u64 (OpenFiles ?l)) = OpenFiles ?l" using assms(1,10) by (intro uint_u64) (simp_all add: limits_ok_def in_i64_def)
  have exec: "stage2 (\<lambda>_. True) look (child_getenv inherited ?fl) (rs_Cmd spec) = (?ls, Execs bin (rs_Cmd spec) (rs_DisableASLR spec))"
    using assms(2,3) aslr by (simp add: stage2_def ls Let_def)
  have vals: "map (\<lambda>(r, soft, hard). (r, uint soft, uint hard)) ?ls =
      [(RLIMIT_CPU, (CPUms ?l + 999) div 1000, (CPUms ?l + 999) div 1000 + 1), (RLIMIT_FSIZE, StdoutKB ?l * 1024, StdoutKB ?l * 1024),
       (RLIMIT_STACK, StackMB ?l * 1048576, StackMB ?l * 1048576), (RLIMIT_NOFILE, OpenFiles ?l, OpenFiles ?l), (RLIMIT_CORE, 0, 0)]"
    by (simp only: list.map case_prod_conv s(2,3) f k n z)
  show ?thesis
    by (intro exI [of _ ?fl] exI [of _ ?ls] conjI boxrun_args_boxCmd [OF assms(1,2)] fl(6,7) exec vals)
qed

definition sample_spec :: RunSpec where
  "sample_spec = \<lparr>rs_Image = ''img'', rs_Cmd = [''-v'', ''--''], rs_BoxDir = [''box''], rs_StdinPath = ''/box/input'',
     rs_Limits = DefaultRunLimits, rs_Env = [], rs_CPUSet = ''3'', rs_Network = False, rs_DisableASLR = True, rs_Name = ''n''\<rparr>"

theorem limits_reach_kernel_witness:
  "\<exists>fl. boxrun_args (tl (boxCmd sample_spec)) = Inr (fl, [''-v'', ''--''])"
proof -
  have l: "rs_Limits sample_spec = DefaultRunLimits" "rs_Cmd sample_spec = [''-v'', ''--'']" by (simp_all add: sample_spec_def)
  have "limits_ok (rs_Limits sample_spec)" "rs_Cmd sample_spec \<noteq> []" "Some (hd (rs_Cmd sample_spec)) = Some ''-v''"
    "0 < CPUms (rs_Limits sample_spec)" "CPUms (rs_Limits sample_spec) + 999 \<le> max_i64" "0 < StdoutKB (rs_Limits sample_spec)"
    "StdoutKB (rs_Limits sample_spec) < 2 ^ 54" "0 < StackMB (rs_Limits sample_spec)" "StackMB (rs_Limits sample_spec) < 2 ^ 44"
    "0 < OpenFiles (rs_Limits sample_spec)"
    by (simp_all add: l limits_ok_def DefaultRunLimits_def in_i64_def)
  note ok = this
  from limits_reach_kernel [where look = Some and inherited = "\<lambda>_. []", OF ok] show ?thesis unfolding l by blast
qed

text \<open>The part of the metrics file the driver decodes, and the CPU time of a process in milliseconds.\<close>

definition box_view :: "Meta \<Rightarrow> boxMeta" where
  "box_view m = \<lparr>bm_ExitCode = mt_ExitCode m, bm_Signal = mt_Signal m, bm_CPUms = mt_CPUms m, bm_WallMs = mt_WallMs m,
     bm_MaxRSSKB = mt_MaxRSSKB m, bm_WallKill = mt_WallKill m, bm_CPUKill = mt_CPUKill m, bm_FSizeKill = mt_FSizeKill m,
     bm_StdoutLen = mt_StdoutLen m\<rparr>"

definition cpu_millis :: "process_state \<Rightarrow> int" where
  "cpu_millis p = fst (ps_utime p) * 1000 + snd (ps_utime p) div 1000 + (fst (ps_stime p) * 1000 + snd (ps_stime p) div 1000)"

definition timeval_ok :: "int \<times> int \<Rightarrow> bool" where
  "timeval_ok t \<longleftrightarrow> 0 \<le> fst t \<and> fst t < 2 ^ 50 \<and> 0 \<le> snd t \<and> snd t < 1000000"

lemma timeval_millis: "timeval_ok t \<Longrightarrow> 0 \<le> snd t div 1000 \<and> snd t div 1000 < 1000"
proof -
  assume "timeval_ok t"
  then have "0 \<le> snd t" "snd t \<le> 999999" by (simp_all add: timeval_ok_def)
  then show ?thesis using zdiv_mono1 [of "snd t" 999999 1000] by (simp add: pos_imp_zdiv_nonneg_iff)
qed

lemma tvms_timeval:
  assumes "timeval_ok t"
  shows "tvms t = fst t * 1000 + snd t div 1000"
proof -
  have d: "snd t sdiv 1000 = snd t div 1000" using assms by (simp add: timeval_ok_def sdiv_nonneg)
  have "snd t div 1000 < 1000" "0 \<le> snd t div 1000" using timeval_millis [OF assms] by simp_all
  then have "i64 (fst t * 1000) = fst t * 1000" "i64 (fst t * 1000 + snd t div 1000) = fst t * 1000 + snd t div 1000"
    using assms by (auto intro!: i64_id simp: timeval_ok_def in_i64_def)
  then show ?thesis by (simp add: tvms_def d)
qed

lemma collect_cpu:
  assumes "timeval_ok (ps_utime p)" and "timeval_ok (ps_stime p)"
  shows "mt_CPUms (collect fl wall killed (Some p) waitErr out err) = cpu_millis p"
proof -
  have "snd (ps_utime p) div 1000 < 1000" "0 \<le> snd (ps_utime p) div 1000" "snd (ps_stime p) div 1000 < 1000" "0 \<le> snd (ps_stime p) div 1000"
    using timeval_millis [OF assms(1)] timeval_millis [OF assms(2)] by simp_all
  then have "i64 (cpu_millis p) = cpu_millis p"
    using assms unfolding cpu_millis_def by (intro i64_id) (simp add: timeval_ok_def in_i64_def)
  then have "i64 (tvms (ps_utime p) + tvms (ps_stime p)) = cpu_millis p" by (simp add: tvms_timeval assms cpu_millis_def)
  then show ?thesis by (simp add: collect_def wait_metrics_def Let_def split: wait_status.splits option.splits)
qed

lemma collect_fields:
  "mt_WallMs (collect fl wall killed (Some p) waitErr out err) = wall sdiv 1000000"
  "mt_WallKill (collect fl wall killed (Some p) waitErr out err) = killed"
  "mt_MaxRSSKB (collect fl wall killed (Some p) waitErr out err) = ps_maxrss p"
  "mt_StdoutLen (collect fl wall killed (Some p) waitErr out err) = (case out of None \<Rightarrow> 0 | Some n \<Rightarrow> n)"
  "mt_Signal (collect fl wall killed (Some p) waitErr out err) = (case ps_status p of Signaled sig \<Rightarrow> sig | Exited _ \<Rightarrow> 0)"
  "mt_ExitCode (collect fl wall killed (Some p) waitErr out err) = (case ps_status p of Signaled sig \<Rightarrow> 128 + sig | Exited c \<Rightarrow> c)"
  "mt_FSizeKill (collect fl wall killed (Some p) waitErr out err) = (ps_status p = Signaled 25)"
  by (simp_all add: collect_def wait_metrics_def zero_Meta_def Let_def split: wait_status.splits option.splits)

text \<open>
  C11: from the wait status to the verdict: a run in the Docker sandbox is accepted exactly when
  the process ended by itself with status 0, the checker approved, the watchdog did not report a
  kill, and wall time, CPU time, memory and output, as the kernel reports them, are all below
  the limits, with no out-of-memory kill. A process killed by any signal is never accepted, and
  neither is one that used its whole budget.
\<close>

theorem accepted_run_clean:
  assumes "sane (rs_Limits spec)" and "timeval_ok (ps_utime p)" and "timeval_ok (ps_stime p)" and "0 \<le> wall"
  shows "ClassifyRun (outcome_of (box_view (collect (sent_flags spec) wall killed (Some p) waitErr out err)) oom code) (rs_Limits spec) ok = VerdictAC \<longleftrightarrow>
    ok \<and> ps_status p = Exited 0 \<and> \<not> killed \<and> wall div 1000000 < WallMs (rs_Limits spec) \<and> cpu_millis p < CPUms (rs_Limits spec) \<and>
    ps_maxrss p < MemMB (rs_Limits spec) * 1024 \<and> (case out of None \<Rightarrow> True | Some n \<Rightarrow> n < StdoutKB (rs_Limits spec) * 1024) \<and>
    \<not> oom \<and> \<not> (code = 137 \<and> ps_maxrss p = 0)"
proof -
  have w: "wall sdiv 1000000 = wall div 1000000" using assms(4) by (simp add: sdiv_nonneg)
  have pos: "0 < StdoutKB (rs_Limits spec)" using assms(1) by (simp add: sane_def usable_def)
  let ?o = "outcome_of (box_view (collect (sent_flags spec) wall killed (Some p) waitErr out err)) oom code"
  have o: "out_ExitCode ?o = (case ps_status p of Signaled sig \<Rightarrow> 128 + sig | Exited c \<Rightarrow> c)"
    "out_Signal ?o = (case ps_status p of Signaled sig \<Rightarrow> sig | Exited _ \<Rightarrow> 0)" "out_FSizeKill ?o = (ps_status p = Signaled 25)"
    "out_WallKill ?o = killed" "out_WallMs ?o = wall div 1000000" "out_CPUms ?o = cpu_millis p" "out_MaxRSSKB ?o = ps_maxrss p"
    "out_OOMKilled ?o = (oom \<or> code = 137 \<and> ps_maxrss p = 0)" "out_StdoutLen ?o = (case out of None \<Rightarrow> 0 | Some n \<Rightarrow> n)"
    by (simp_all add: outcome_of_def box_view_def collect_fields collect_cpu assms(2,3) w)
  have "ClassifyRun ?o (rs_Limits spec) ok = VerdictAC \<longleftrightarrow> \<not> output_flood ?o (rs_Limits spec) \<and> \<not> memory_exhausted ?o (rs_Limits spec) \<and>
      \<not> out_of_time ?o (rs_Limits spec) \<and> \<not> crashed ?o \<and> ok"
    by (simp add: ClassifyRun_cases [OF assms(1)] go_simps)
  also have "\<dots> \<longleftrightarrow> ok \<and> ps_status p = Exited 0 \<and> \<not> killed \<and> wall div 1000000 < WallMs (rs_Limits spec) \<and> cpu_millis p < CPUms (rs_Limits spec) \<and>
    ps_maxrss p < MemMB (rs_Limits spec) * 1024 \<and> (case out of None \<Rightarrow> True | Some n \<Rightarrow> n < StdoutKB (rs_Limits spec) * 1024) \<and>
    \<not> oom \<and> \<not> (code = 137 \<and> ps_maxrss p = 0)"
    unfolding output_flood_def memory_exhausted_def out_of_time_def crashed_def o
    using pos by (cases "ps_status p"; cases out) auto
  finally show ?thesis .
qed

theorem accepted_run_clean_witness:
  "ClassifyRun (outcome_of (box_view (collect (sent_flags sample_spec) 1999999999 False
       (Some \<lparr>ps_status = Exited 0, ps_utime = (0, 999999), ps_stime = (0, 0), ps_maxrss = 5\<rparr>) False (Some 7) None)) False 0)
     (rs_Limits sample_spec) True = VerdictAC"
proof -
  have l: "rs_Limits sample_spec = DefaultRunLimits" by (simp add: sample_spec_def)
  show ?thesis
    by (subst accepted_run_clean) (simp_all add: l sane_def usable_def timeval_ok_def DefaultRunLimits_def cpu_millis_def in_i64_def)
qed

end
