(* ===== verification/Runner.thy ===== *)
theory Runner
  imports Sandbox Router
begin

section \<open>The runner (\<^verbatim>\<open>cmd/runner\<close>)\<close>

text \<open>
  A runner claims jobs from the queue and judges each in a goroutine of its own, one per free
  slot, while two more goroutines renew leases and take over abandoned jobs. The goroutines are
  a step relation: every step is one call to the queue or the API, or one operation on the
  slots and the map of jobs in flight, so that the relation has every interleaving the Go
  scheduler has. A \<open>fleet\<close> is any number of runners on one queue, each of which may crash and
  start again at any step. What the API answers to a request is arbitrary, and what a judging
  returns is anything \<open>Judge_Run\<close> returns on some file system: jobs in other slots run at the
  same time. Metrics, logging and the probe for instruction counters have no model; timers show
  as steps that may happen at any time.
\<close>

subsection \<open>What a runner sends\<close>

definition failed_result :: "Config \<Rightarrow> JobSpec \<Rightarrow> SubmissionResult" where
  "failed_result cfg job = zero_SubmissionResult
     \<lparr>r_SubmissionID := job_SubmissionID job, r_Attempt := job_Attempt job, r_RunnerID := RunnerID cfg,
      r_Status := StatusFailed, r_Verdict := VerdictIE, r_FailedTest := - 1,
      r_CompileLog := ''the judge could not complete this submission; please resubmit''\<rparr>"

definition runner_request :: "Config \<Rightarrow> string \<Rightarrow> string list \<Rightarrow> string \<Rightarrow> request" where
  "runner_request cfg meth path txt =
     \<lparr>rq_method = meth, rq_path = path,
      rq_header = (\<lambda>k. if k = ''X-Runner-Token'' then RunnerToken cfg else if k = ''Content-Type'' then ''application/json'' else []),
      rq_query = (\<lambda>_. []), rq_body = txt, rq_flusher = True, rq_events = []\<rparr>"

definition markJudging :: "Config \<Rightarrow> (string \<Rightarrow> int \<Rightarrow> string) \<Rightarrow> JobSpec \<Rightarrow> request" where
  "markJudging cfg marshal job =
     runner_request cfg ''PATCH'' [''internal'', ''submissions'', job_SubmissionID job, ''judging''] (marshal (RunnerID cfg) (job_Attempt job))"

definition report_request :: "Config \<Rightarrow> (SubmissionResult \<Rightarrow> string) \<Rightarrow> SubmissionResult \<Rightarrow> request" where
  "report_request cfg marshal res = runner_request cfg ''POST'' [''internal'', ''results''] (marshal res)"

text \<open>\<^verbatim>\<open>cpuModel\<close>, on what the shell pipeline printed, and the preparation of the sandbox: the containers
  of a previous incarnation are removed and every image is pulled; failures are only logged.\<close>

definition cpuModel :: "string option \<Rightarrow> string" where
  "cpuModel out = (case out of None \<Rightarrow> ''unknown''
     | Some s \<Rightarrow> bytes_of (rev (dropWhile space (rev (dropWhile space (runes s))))))"

definition prepare_sandbox :: "'d host \<Rightarrow> driver \<Rightarrow> Manifest list \<Rightarrow> 'd \<Rightarrow> 'd" where
  "prepare_sandbox H drv ms s =
     (case drv of
        ProcessDriver \<Rightarrow> s
      | DockerDriver runnerID \<Rightarrow> foldl (\<lambda>s m. snd (Warm H (m_Image m) s)) (snd (SweepStale H runnerID s)) ms)"

subsection \<open>State\<close>

text \<open>Where the goroutine of a job is: before the mark, judging, posting a result for the \<open>n\<close>-th time,
  about to acknowledge, or at its deferred functions.\<close>

datatype phase = Marking | Running | Reporting SubmissionResult nat | Acking | Ending

record task =
  t_delivery :: Delivery
  t_slot :: int
  t_phase :: phase

text \<open>The loop: at its head, blocked in \<^verbatim>\<open>Consume\<close> with a batch size, handing out deliveries, waiting for
  the goroutines after the signal, or drained.\<close>

datatype loop_phase = Polling | Fetching nat | Starting "Delivery list" | Joining | Drained

text \<open>The reclaim goroutine: between ticks, or posting and acknowledging the dead ones.\<close>

datatype reclaim_phase = Ticking | Burying Delivery nat "Delivery list" | Releasing Delivery "Delivery list"

record agent =
  a_cfg :: Config
  a_j :: Judge
  a_checkers :: registry
  a_inFlight :: "string list"
  a_slots :: "int list"
  a_tasks :: "task list"
  a_loop :: loop_phase
  a_reclaim :: reclaim_phase
  a_cancelled :: bool

definition start_agent :: "Config \<Rightarrow> Judge \<Rightarrow> registry \<Rightarrow> agent" where
  "start_agent cfg j reg =
     \<lparr>a_cfg = cfg, a_j = j, a_checkers = reg, a_inFlight = [], a_slots = map int [0..<nat (RunnerSlots cfg)],
      a_tasks = [], a_loop = Polling, a_reclaim = Ticking, a_cancelled = False\<rparr>"

subsection \<open>Handling one job\<close>

text \<open>What the judge may return for a job in a slot.\<close>

definition judged :: "agent \<Rightarrow> JobSpec \<Rightarrow> int \<Rightarrow> (judge_error, SubmissionResult) result \<Rightarrow> bool" where
  "judged a job slot out \<longleftrightarrow>
     (\<exists>now dn s s'. Judge_Run ((a_j a)\<lparr>j_now := now, j_done := dn\<rparr>) (a_checkers a) job slot s = (out, s'))"

definition after_run :: "Config \<Rightarrow> JobSpec \<Rightarrow> (judge_error, SubmissionResult) result \<Rightarrow> phase" where
  "after_run cfg job out =
     (case out of
        Inl _ \<Rightarrow> if job_Attempt job \<ge> MaxAttempts cfg then Reporting (failed_result cfg job) 0 else Ending
      | Inr res \<Rightarrow> Reporting res 0)"

text \<open>One pass of the loop of \<^verbatim>\<open>report\<close> with the status the API answered, if it did: \<open>None\<close> when \<^verbatim>\<open>report\<close>
  returns, or the number of the next attempt. \<open>ctxDone\<close> is what ended the wait between two attempts.\<close>

definition report_try :: "nat \<Rightarrow> int option \<Rightarrow> bool \<Rightarrow> nat option" where
  "report_try n answer ctxDone =
     (if (case answer of Some code \<Rightarrow> code < 300 | None \<Rightarrow> False) then None
      else if ctxDone then None
      else if n + 1 < 4 then Some (n + 1) else None)"

text \<open>The whole of \<^verbatim>\<open>report\<close>, on a state the requests change; \<open>send n\<close> is the \<open>n\<close>-th request and
  \<open>ctxDone n\<close> says that the context was cancelled in the wait after it.\<close>

function report :: "(nat \<Rightarrow> 'w \<Rightarrow> int option \<times> 'w) \<Rightarrow> (nat \<Rightarrow> bool) \<Rightarrow> nat \<Rightarrow> 'w \<Rightarrow> 'w" where
  "report send ctxDone n w =
     (case send n w of (answer, w1) \<Rightarrow>
        case report_try n answer (ctxDone n) of None \<Rightarrow> w1 | Some k \<Rightarrow> report send ctxDone k w1)"
  by pat_completeness auto
termination
  by (relation "measure (\<lambda>(_, _, n, _). 4 - n)") (auto simp: report_try_def split: if_splits)

declare report.simps [simp del]

text \<open>A request to the API over a network that may lose the request or the reply.\<close>

datatype transport = Answered | RequestLost | ReplyLost

definition deliver :: "'s ext \<Rightarrow> Server \<Rightarrow> (nat \<Rightarrow> transport) \<Rightarrow> request \<Rightarrow> nat \<Rightarrow> 's world \<Rightarrow> int option \<times> 's world" where
  "deliver X S net req n w =
     (case net n of
        RequestLost \<Rightarrow> (None, w)
      | ReplyLost \<Rightarrow> (None, snd (Router X S req w))
      | Answered \<Rightarrow> (case Router X S req w of (resp, w1) \<Rightarrow> (Some (status_code resp), w1)))"

definition after_post :: "SubmissionResult \<Rightarrow> nat \<Rightarrow> int option \<Rightarrow> bool \<Rightarrow> phase" where
  "after_post res n answer ctxDone =
     (case report_try n answer ctxDone of None \<Rightarrow> Acking | Some k \<Rightarrow> Reporting res k)"

definition after_burial :: "Delivery \<Rightarrow> nat \<Rightarrow> Delivery list \<Rightarrow> int option \<Rightarrow> bool \<Rightarrow> reclaim_phase" where
  "after_burial d n ds answer ctxDone =
     (case report_try n answer ctxDone of None \<Rightarrow> Releasing d ds | Some k \<Rightarrow> Burying d k ds)"

definition bury :: "Delivery list \<Rightarrow> reclaim_phase" where
  "bury ds = (case ds of [] \<Rightarrow> Ticking | d # ds \<Rightarrow> Burying d 0 ds)"

definition move_task :: "agent \<Rightarrow> nat \<Rightarrow> phase \<Rightarrow> agent" where
  "move_task a k ph = a\<lparr>a_tasks := (a_tasks a)[k := (a_tasks a ! k)\<lparr>t_phase := ph\<rparr>]\<rparr>"

definition launch :: "Delivery \<Rightarrow> Delivery list \<Rightarrow> int \<Rightarrow> int list \<Rightarrow> agent \<Rightarrow> agent" where
  "launch d ds slot free a =
     a\<lparr>a_loop := Starting ds, a_slots := free, a_inFlight := List.insert (MessageID d) (a_inFlight a),
       a_tasks := a_tasks a @ [\<lparr>t_delivery = d, t_slot = slot, t_phase = Marking\<rparr>]\<rparr>"

definition end_task :: "agent \<Rightarrow> nat \<Rightarrow> agent" where
  "end_task a k =
     a\<lparr>a_inFlight := removeAll (MessageID (t_delivery (a_tasks a ! k))) (a_inFlight a),
       a_slots := a_slots a @ [t_slot (a_tasks a ! k)], a_tasks := take k (a_tasks a) @ drop (Suc k) (a_tasks a)\<rparr>"

text \<open>The last lines of \<^verbatim>\<open>main\<close>.\<close>

definition drain :: "'s redis \<Rightarrow> Queue \<Rightarrow> agent \<Rightarrow> 's rdb \<Rightarrow> 's rdb" where
  "drain R q a c = (if a_inFlight a = [] then c else snd (Nack R q (a_inFlight a) c))"

subsection \<open>The steps\<close>

type_synonym post = "string \<times> SubmissionResult \<times> int option"

text \<open>
  One step of one runner, on the Redis client, the results posted so far, with the message they
  are about and the answer, and the runner's own state. A signal may come at any time.
\<close>

inductive agent_step :: "'s redis \<Rightarrow> codec \<Rightarrow> Queue \<Rightarrow> 's rdb \<times> post list \<times> agent \<Rightarrow> 's rdb \<times> post list \<times> agent \<Rightarrow> bool"
  for R J q where
  signal: "agent_step R J q (c, ps, a) (c, ps, a\<lparr>a_cancelled := True\<rparr>)"
| poll: "a_loop a = Polling \<Longrightarrow> \<not> a_cancelled a \<Longrightarrow> a_slots a \<noteq> [] \<Longrightarrow>
    agent_step R J q (c, ps, a) (c, ps, a\<lparr>a_loop := Fetching (length (a_slots a))\<rparr>)"
| fetched: "a_loop a = Fetching n \<Longrightarrow> Consume R J q (RunnerID (a_cfg a)) n c = (Inr ds, c') \<Longrightarrow>
    agent_step R J q (c, ps, a) (c', ps, a\<lparr>a_loop := Starting ds\<rparr>)"
| not_fetched: "a_loop a = Fetching n \<Longrightarrow> Consume R J q (RunnerID (a_cfg a)) n c = (Inl e, c') \<Longrightarrow>
    agent_step R J q (c, ps, a) (c', ps, a\<lparr>a_loop := Polling\<rparr>)"
| launch: "a_loop a = Starting (d # ds) \<Longrightarrow> a_slots a = slot # free \<Longrightarrow>
    agent_step R J q (c, ps, a) (c, ps, launch d ds slot free a)"
| launched: "a_loop a = Starting [] \<Longrightarrow> agent_step R J q (c, ps, a) (c, ps, a\<lparr>a_loop := Polling\<rparr>)"
| mark: "k < length (a_tasks a) \<Longrightarrow> t_phase (a_tasks a ! k) = Marking \<Longrightarrow>
    agent_step R J q (c, ps, a) (c, ps, move_task a k Running)"
| run: "k < length (a_tasks a) \<Longrightarrow> t_phase (a_tasks a ! k) = Running \<Longrightarrow> job = d_Job (t_delivery (a_tasks a ! k)) \<Longrightarrow>
    judged a job (t_slot (a_tasks a ! k)) out \<Longrightarrow>
    agent_step R J q (c, ps, a) (c, ps, move_task a k (after_run (a_cfg a) job out))"
| post: "k < length (a_tasks a) \<Longrightarrow> t_phase (a_tasks a ! k) = Reporting res n \<Longrightarrow> (ctxDone \<Longrightarrow> a_cancelled a) \<Longrightarrow>
    agent_step R J q (c, ps, a)
      (c, ps @ [(MessageID (t_delivery (a_tasks a ! k)), res, answer)], move_task a k (after_post res n answer ctxDone))"
| ack: "k < length (a_tasks a) \<Longrightarrow> t_phase (a_tasks a ! k) = Acking \<Longrightarrow>
    agent_step R J q (c, ps, a) (snd (Ack R q [MessageID (t_delivery (a_tasks a ! k))] c), ps, move_task a k Ending)"
| ends: "k < length (a_tasks a) \<Longrightarrow> t_phase (a_tasks a ! k) = Ending \<Longrightarrow> agent_step R J q (c, ps, a) (c, ps, end_task a k)"
| beat: "\<not> a_cancelled a \<Longrightarrow> a_inFlight a \<noteq> [] \<Longrightarrow> set ids = set (a_inFlight a) \<Longrightarrow>
    agent_step R J q (c, ps, a) (snd (Heartbeat R q (RunnerID (a_cfg a)) ids c), ps, a)"
| reclaim: "a_reclaim a = Ticking \<Longrightarrow> \<not> a_cancelled a \<Longrightarrow>
    Reclaim R J q (RunnerID (a_cfg a)) (LeaseTTL (a_cfg a)) (MaxAttempts (a_cfg a)) c = (((live, dead), err), c') \<Longrightarrow>
    agent_step R J q (c, ps, a) (c', ps, a\<lparr>a_reclaim := (if err = None then bury dead else Ticking)\<rparr>)"
| bury: "a_reclaim a = Burying d n ds \<Longrightarrow> (ctxDone \<Longrightarrow> a_cancelled a) \<Longrightarrow>
    agent_step R J q (c, ps, a)
      (c, ps @ [(MessageID d, failed_result (a_cfg a) (d_Job d), answer)], a\<lparr>a_reclaim := after_burial d n ds answer ctxDone\<rparr>)"
| release: "a_reclaim a = Releasing d ds \<Longrightarrow>
    agent_step R J q (c, ps, a) (snd (Ack R q [MessageID d] c), ps, a\<lparr>a_reclaim := bury ds\<rparr>)"
| stop: "a_loop a = Polling \<Longrightarrow> a_cancelled a \<Longrightarrow> agent_step R J q (c, ps, a) (c, ps, a\<lparr>a_loop := Joining\<rparr>)"
| exit: "a_loop a = Joining \<Longrightarrow> a_tasks a = [] \<Longrightarrow>
    agent_step R J q (c, ps, a) (drain R q a c, ps, a\<lparr>a_loop := Drained\<rparr>)"

text \<open>
  The whole judging side: any number of runners, crashes, and everything else that happens on
  the Redis server without acknowledging a message: publications by the API, commands on other
  keys, changes of the network.
\<close>

record 's fleet =
  f_rdb :: "'s rdb"
  f_posts :: "post list"
  f_agents :: "agent list"

inductive fleet_step :: "'s redis \<Rightarrow> codec \<Rightarrow> Queue \<Rightarrow> (string \<Rightarrow> string \<Rightarrow> 's \<Rightarrow> group_view option) \<Rightarrow> 's fleet \<Rightarrow> 's fleet \<Rightarrow> bool"
  for R J q view where
  agent: "k < length (f_agents s) \<Longrightarrow> agent_step R J q (f_rdb s, f_posts s, f_agents s ! k) (c', ps', a') \<Longrightarrow>
    fleet_step R J q view s (s\<lparr>f_rdb := c', f_posts := ps', f_agents := (f_agents s)[k := a']\<rparr>)"
| crash: "k < length (f_agents s) \<Longrightarrow>
    fleet_step R J q view s (s\<lparr>f_agents := (f_agents s)
      [k := start_agent (a_cfg (f_agents s ! k)) (a_j (f_agents s ! k)) (a_checkers (f_agents s ! k))]\<rparr>)"
| environment: "queue_step R J q view (\<lambda>_. False) (f_rdb s) c' \<Longrightarrow> fleet_step R J q view s (s\<lparr>f_rdb := c'\<rparr>)"

definition fresh_fleet :: "'s fleet \<Rightarrow> bool" where
  "fresh_fleet s \<longleftrightarrow> f_posts s = [] \<and> (\<forall>a \<in> set (f_agents s). a = start_agent (a_cfg a) (a_j a) (a_checkers a))"

subsection \<open>The slots\<close>

context redis_streams
begin

lemma consume_length:
  assumes "Consume R J q u n c = (Inr ds, c')"
  shows "length ds \<le> n"
proof -
  let ?f = "XREADGROUP R (q_stream q) (q_group q) u n"
  have f: "length ms \<le> n" if "fst (?f s) = Inr ms" for s ms
  proof (cases "view (q_stream q) (q_group q) s")
    case None
    then show ?thesis using that xread_nogroup [OF None] by simp
  next
    case (Some v)
    then show ?thesis using that xread [OF Some surjective_pairing, of u n] by (auto split: if_splits)
  qed
  have c: "length ms \<le> n" if "call ?f c = (Inr ms, c1)" for ms c1
    using that f by (auto simp: call_def Let_def split: fate.splits prod.splits) (metis fst_conv)
  have "length (Queue.decode J ms) \<le> length ms" for ms
    by (induction ms) (auto simp: Queue.decode_def split: option.splits)
  then show ?thesis using assms c by (auto simp: Consume_def split: prod.splits sum.splits if_splits intro: le_trans)
qed

end

definition message :: "task \<Rightarrow> string" where
  "message t = MessageID (t_delivery t)"

definition loop_ok :: "agent \<Rightarrow> bool" where
  "loop_ok a \<longleftrightarrow> (case a_loop a of
      Fetching n \<Rightarrow> n \<le> length (a_slots a)
    | Starting ds \<Rightarrow> length ds \<le> length (a_slots a)
    | Drained \<Rightarrow> a_tasks a = []
    | _ \<Rightarrow> True)"

definition slot_bag :: "agent \<Rightarrow> int multiset" where
  "slot_bag a = mset (a_slots a) + image_mset t_slot (mset (a_tasks a))"

definition full_bag :: "Config \<Rightarrow> int multiset" where
  "full_bag cfg = mset (map int [0..<nat (RunnerSlots cfg)])"

definition agent_ok :: "agent \<Rightarrow> bool" where
  "agent_ok a \<longleftrightarrow> slot_bag a = full_bag (a_cfg a) \<and>
     set (a_inFlight a) \<subseteq> message ` set (a_tasks a) \<and> loop_ok a"

lemma mset_remove_nth: "k < length xs \<Longrightarrow> mset (take k xs @ drop (Suc k) xs) + {#xs ! k#} = mset xs"
  by (metis add.commute add_mset_add_single id_take_nth_drop mset.simps(2) mset_append union_mset_add_mset_right)

lemma set_remove_nth: "k < length xs \<Longrightarrow> set xs = insert (xs ! k) (set (take k xs @ drop (Suc k) xs))"
  by (metis Un_insert_right id_take_nth_drop list.simps(15) set_append)

lemma map_update_same: "f y = f (xs ! k) \<Longrightarrow> map f (xs[k := y]) = map f xs"
  by (metis list_update_id map_update)

lemma move_task_simps [simp]:
  "map t_slot (a_tasks (move_task a k ph)) = map t_slot (a_tasks a)"
  "map message (a_tasks (move_task a k ph)) = map message (a_tasks a)"
  "a_slots (move_task a k ph) = a_slots a" "a_inFlight (move_task a k ph) = a_inFlight a" "a_loop (move_task a k ph) = a_loop a"
  "a_cfg (move_task a k ph) = a_cfg a" "a_reclaim (move_task a k ph) = a_reclaim a" "a_tasks (move_task a k ph) = [] \<longleftrightarrow> a_tasks a = []"
  by (simp_all add: move_task_def map_update_same message_def)

lemma start_agent_ok [simp]: "agent_ok (start_agent cfg j reg)"
  by (simp add: agent_ok_def slot_bag_def full_bag_def start_agent_def loop_ok_def)

lemma agent_ok_update [simp]: "agent_ok (a\<lparr>a_cancelled := b\<rparr>) = agent_ok a" "agent_ok (a\<lparr>a_reclaim := x\<rparr>) = agent_ok a"
  by (simp_all add: agent_ok_def slot_bag_def loop_ok_def split: loop_phase.split)

lemma agent_ok_move: "agent_ok (move_task a k ph) \<longleftrightarrow> agent_ok a"
proof -
  have "slot_bag (move_task a k ph) = slot_bag a" "message ` set (a_tasks (move_task a k ph)) = message ` set (a_tasks a)"
    by (simp_all add: slot_bag_def flip: mset_map set_map)
  moreover have "loop_ok (move_task a k ph) \<longleftrightarrow> loop_ok a" by (simp add: loop_ok_def split: loop_phase.split)
  ultimately show ?thesis by (simp add: agent_ok_def)
qed

lemma slot_bag_end:
  assumes "k < length (a_tasks a)"
  shows "slot_bag (end_task a k) = slot_bag a"
proof -
  let ?t = "a_tasks a ! k" let ?ts = "take k (a_tasks a) @ drop (Suc k) (a_tasks a)"
  have "slot_bag (end_task a k) = mset (a_slots a) + image_mset t_slot (mset ?ts + {#?t#})" by (simp add: slot_bag_def end_task_def)
  also have "\<dots> = slot_bag a" by (simp only: mset_remove_nth [OF assms] slot_bag_def)
  finally show ?thesis .
qed

lemma agent_ok_end:
  assumes "agent_ok a" and "k < length (a_tasks a)"
  shows "agent_ok (end_task a k)"
proof -
  let ?t = "a_tasks a ! k" let ?ts = "take k (a_tasks a) @ drop (Suc k) (a_tasks a)"
  have "set (removeAll (message ?t) (a_inFlight a)) \<subseteq> message ` set ?ts"
    using assms(1) set_remove_nth [OF assms(2)] by (auto simp: agent_ok_def)
  moreover have "a_inFlight (end_task a k) = removeAll (message ?t) (a_inFlight a)" "a_tasks (end_task a k) = ?ts" "a_cfg (end_task a k) = a_cfg a"
    by (simp_all add: end_task_def message_def)
  moreover have "loop_ok (end_task a k)"
    using assms by (auto simp: agent_ok_def loop_ok_def end_task_def split: loop_phase.splits)
  ultimately show ?thesis using assms by (simp only: agent_ok_def slot_bag_end)
qed

lemma agent_ok_launch:
  assumes "agent_ok a" and "a_loop a = Starting (d # ds)" and "a_slots a = slot # free"
  shows "agent_ok (launch d ds slot free a)"
  using assms by (auto simp: agent_ok_def slot_bag_def loop_ok_def launch_def message_def)

context redis_streams
begin

lemma agent_step_ok:
  assumes "agent_step R J q (c, ps, a) (c', ps', a')" and "agent_ok a"
  shows "agent_ok a' \<and> a_cfg a' = a_cfg a"
  using assms
proof (cases rule: agent_step.cases)
  case (fetched n ds)
  then show ?thesis using assms(2) consume_length [OF fetched(4)] by (auto simp: agent_ok_def slot_bag_def loop_ok_def)
qed (auto simp: agent_ok_move agent_ok_end agent_ok_launch, auto simp: agent_ok_def slot_bag_def loop_ok_def launch_def end_task_def)

lemma fleet_step_agents:
  assumes "fleet_step R J q view s s'" and "list_all agent_ok (f_agents s)"
  shows "list_all agent_ok (f_agents s')"
  using assms
proof (cases rule: fleet_step.cases)
  case (agent k c' ps' a')
  then show ?thesis using assms(2) agent_step_ok [OF agent(3)] by (auto simp: list_all_length nth_list_update)
qed (auto simp: list_all_length nth_list_update)

lemma fleet_steps_agents:
  assumes "(fleet_step R J q view)\<^sup>*\<^sup>* s s'" and "list_all agent_ok (f_agents s)"
  shows "list_all agent_ok (f_agents s')"
  using assms by induction (auto intro: fleet_step_agents)

end

subsection \<open>Acknowledgement comes last\<close>

text \<open>Whatever is about to be acknowledged has been posted.\<close>

definition posted_ok :: "post list \<Rightarrow> agent \<Rightarrow> bool" where
  "posted_ok ps a \<longleftrightarrow> (\<forall>t \<in> set (a_tasks a). t_phase t = Acking \<longrightarrow> message t \<in> fst ` set ps) \<and>
     (\<forall>d ds. a_reclaim a = Releasing d ds \<longrightarrow> MessageID d \<in> fst ` set ps)"

lemma start_agent_posted [simp]: "posted_ok ps (start_agent cfg j reg)"
  by (simp add: posted_ok_def start_agent_def)

lemma posted_ok_mono: "posted_ok ps a \<Longrightarrow> set ps \<subseteq> set ps' \<Longrightarrow> posted_ok ps' a"
  unfolding posted_ok_def by (meson image_mono subsetD)

lemma posted_ok_move:
  assumes "posted_ok ps a" and "k < length (a_tasks a)" and "ph = Acking \<longrightarrow> message (a_tasks a ! k) \<in> fst ` set ps"
  shows "posted_ok ps (move_task a k ph)"
proof -
  let ?t = "(a_tasks a ! k)\<lparr>t_phase := ph\<rparr>"
  have "message t \<in> fst ` set ps" if "t \<in> set ((a_tasks a)[k := ?t])" "t_phase t = Acking" for t
  proof (cases "t = ?t")
    case True
    then show ?thesis using assms(3) that(2) by (simp add: message_def)
  next
    case False
    then have "t \<in> set (a_tasks a)" using that(1) set_update_subset_insert [of "a_tasks a" k ?t] by auto
    then show ?thesis using assms(1) that(2) by (simp add: posted_ok_def)
  qed
  then show ?thesis using assms(1) by (simp add: posted_ok_def move_task_def)
qed

lemma posted_ok_end: "posted_ok ps a \<Longrightarrow> posted_ok ps (end_task a k)"
  by (auto simp: posted_ok_def end_task_def dest: in_set_takeD in_set_dropD)

lemma bury_not_releasing [simp]: "bury ds \<noteq> Releasing d es"
  by (simp add: bury_def split: list.split)

lemma after_run_not_acking [simp]: "after_run cfg job out \<noteq> Acking"
  by (simp add: after_run_def split: sum.split)

lemma agent_step_posted:
  assumes "agent_step R J q (c, ps, a) (c', ps', a')" and "posted_ok ps a"
  shows "set ps \<subseteq> set ps' \<and> posted_ok ps' a'"
  using assms
proof (cases rule: agent_step.cases)
  case (post k res n ctxDone answer)
  have "posted_ok ps' a" using assms(2) post by (auto intro: posted_ok_mono)
  then show ?thesis using post by (auto intro!: posted_ok_move simp: message_def)
next
  case (run k job out)
  then show ?thesis using assms(2) by (auto intro!: posted_ok_move)
next
  case (bury d n ds ctxDone answer)
  then show ?thesis using posted_ok_mono [OF assms(2), of ps']
    by (auto simp: posted_ok_def after_burial_def split: option.splits)
qed (auto simp: posted_ok_move posted_ok_end, auto simp: posted_ok_def launch_def)

lemma agent_step_queue:
  assumes "agent_step R J q (c, ps, a) (c', ps', a')" and "posted_ok ps a" and "i \<notin> fst ` set ps"
  shows "c' = c \<or> queue_step R J q view (\<lambda>ids. i \<notin> set ids) c c'"
  using assms(1)
proof (cases rule: agent_step.cases)
  case (fetched n ds)
  then show ?thesis using queue_step.consume [of R J q view _ c "RunnerID (a_cfg a)" n] by simp
next
  case (not_fetched n e)
  then show ?thesis using queue_step.consume [of R J q view _ c "RunnerID (a_cfg a)" n] by simp
next
  case (ack k)
  then have "i \<notin> set [MessageID (t_delivery (a_tasks a ! k))]" using assms(2,3) nth_mem by (force simp: posted_ok_def message_def)
  then show ?thesis unfolding ack by (intro disjI2 queue_step.ack)
next
  case (release d ds)
  then have "i \<notin> set [MessageID d]" using assms(2,3) by (auto simp: posted_ok_def)
  then show ?thesis unfolding release by (intro disjI2 queue_step.ack)
next
  case (beat ids)
  then show ?thesis by (simp add: queue_step.heartbeat)
next
  case (reclaim live dead err)
  then show ?thesis using queue_step.reclaim [of R J q view _ c "RunnerID (a_cfg a)" "LeaseTTL (a_cfg a)" "MaxAttempts (a_cfg a)"] by simp
next
  case exit
  then show ?thesis by (simp add: drain_def queue_step.nack)
qed simp_all

inductive_cases queue_stepE: "queue_step R J q view A c c'"

lemma queue_step_mono:
  assumes "queue_step R J q view A c c'" and "\<And>ids. A ids \<Longrightarrow> B ids"
  shows "queue_step R J q view B c c'"
  using assms(1) by (elim queue_stepE) (auto intro: queue_step.intros assms(2))

subsection \<open>Fleets\<close>

lemma fleet_step_posted:
  assumes "fleet_step R J q view s s'" and "list_all (posted_ok (f_posts s)) (f_agents s)"
  shows "set (f_posts s) \<subseteq> set (f_posts s') \<and> list_all (posted_ok (f_posts s')) (f_agents s')"
  using assms
proof (cases rule: fleet_step.cases)
  case (agent k c' ps' a')
  then have "posted_ok (f_posts s) (f_agents s ! k)" using assms(2) by (simp add: list_all_length)
  note p = agent_step_posted [OF agent(3) this]
  then show ?thesis using agent assms(2) by (auto simp: list_all_length nth_list_update intro: posted_ok_mono)
qed (auto simp: list_all_length nth_list_update)

lemma fresh_fleet_ok: "fresh_fleet s \<Longrightarrow> list_all agent_ok (f_agents s) \<and> list_all (posted_ok (f_posts s)) (f_agents s)"
  unfolding fresh_fleet_def list_all_iff by (metis start_agent_ok start_agent_posted)

text \<open>What the runners rely on: a queue on a server with streams, whose dead letters go elsewhere.\<close>

locale lease_queue = redis_streams R view time
  for R :: "'s redis" and view :: "string \<Rightarrow> string \<Rightarrow> 's \<Rightarrow> group_view option" and time :: "'s \<Rightarrow> int" +
  fixes J :: codec and q :: Queue
  assumes dlq_elsewhere: "q_dlq q \<noteq> q_stream q"
begin

lemma fleet_step_holds:
  assumes "fleet_step R J q view s s'" and "list_all (posted_ok (f_posts s)) (f_agents s)" and "i \<notin> fst ` set (f_posts s)"
    and "holds q (outstanding i f) (server (f_rdb s))"
  shows "holds q (outstanding i f) (server (f_rdb s'))"
proof -
  have "f_rdb s' = f_rdb s \<or> queue_step R J q view (\<lambda>ids. i \<notin> set ids) (f_rdb s) (f_rdb s')"
    using assms(1)
  proof (cases rule: fleet_step.cases)
    case (agent k c' ps' a')
    then have "posted_ok (f_posts s) (f_agents s ! k)" using assms(2) by (simp add: list_all_length)
    from agent_step_queue [OF agent(3) this assms(3)] show ?thesis using agent by simp
  next
    case (environment c')
    then show ?thesis by (auto intro: queue_step_mono)
  qed simp
  then show ?thesis using queue_step_holds [OF _ outstanding_inv dlq_elsewhere assms(4)] assms(4) by auto
qed

lemma fleet_steps_outstanding:
  assumes "(fleet_step R J q view)\<^sup>*\<^sup>* s s'" and "fresh_fleet s" and "holds q (outstanding i f) (server (f_rdb s))"
  shows "list_all (posted_ok (f_posts s')) (f_agents s') \<and> (i \<notin> fst ` set (f_posts s') \<longrightarrow> holds q (outstanding i f) (server (f_rdb s')))"
  using assms(1)
proof induction
  case base
  then show ?case using fresh_fleet_ok [OF assms(2)] assms(3) by simp
next
  case (step y z)
  then have "set (f_posts y) \<subseteq> set (f_posts z)" "list_all (posted_ok (f_posts z)) (f_agents z)"
    using fleet_step_posted by blast+
  then show ?case using fleet_step_holds [OF step(2)] step.IH by (meson image_mono subsetD)
qed

end

interpretation sample_lease: lease_queue ref_redis ref_view ref_time sample_codec sample_queue
  by unfold_locales (rule sample_names(3))

subsection \<open>Properties\<close>

lemma clean_comps_last: "c \<notin> {[], ''.'', ''..''} \<Longrightarrow> clean_comps acc (cs @ [c]) = clean_comps acc cs @ [c]"
  by (induction acc cs rule: clean_comps.induct) simp_all

lemma slot_dir_last: "last (slot_dir j n) = ''slot-'' @ itoa n"
proof -
  have "CHR ''/'' \<notin> set (itoa n)" using utoa_digits [of "nat n"] utoa_digits [of "nat (- n)"] by (auto simp: itoa_def list_all_iff dec_digit_def)
  then have "CHR ''/'' \<notin> set (''slot-'' @ itoa n)" by simp
  then have "split_slash (''slot-'' @ itoa n) = [''slot-'' @ itoa n]" by (rule split_slash_single)
  then have "slot_dir j n = clean_comps (rev (j_BoxRoot j)) (split_slash (j_RunnerID j) @ [''slot-'' @ itoa n])"
    by (simp only: slot_dir_def Join_def list.map concat.simps append_Nil2)
  then show ?thesis by (simp add: clean_comps_last)
qed

lemma slot_dir_inj:
  assumes "in_i64 m" and "in_i64 n" and "slot_dir j m = slot_dir j n"
  shows "m = n"
proof -
  have "itoa m = itoa n" using slot_dir_last [of j m] slot_dir_last [of j n] assms(3) by (metis same_append_eq)
  then have "Some m = Some n" using Atoi_itoa [OF assms(1)] Atoi_itoa [OF assms(2)] by metis
  then show ?thesis by simp
qed

lemma agent_ok_slots:
  assumes "agent_ok a"
  shows "distinct (a_slots a @ map t_slot (a_tasks a))" and "set (a_slots a @ map t_slot (a_tasks a)) = {0..<RunnerSlots (a_cfg a)}"
proof -
  let ?all = "map int [0..<nat (RunnerSlots (a_cfg a))]"
  have m: "mset (a_slots a @ map t_slot (a_tasks a)) = mset ?all" using assms by (simp only: agent_ok_def slot_bag_def full_bag_def mset_append mset_map)
  have "distinct ?all" by (simp add: distinct_map inj_on_def)
  then show "distinct (a_slots a @ map t_slot (a_tasks a))" using mset_eq_imp_distinct_iff [OF m] by blast
  have "set ?all = {0..<RunnerSlots (a_cfg a)}" by (simp add: image_int_atLeastLessThan)
  then show "set (a_slots a @ map t_slot (a_tasks a)) = {0..<RunnerSlots (a_cfg a)}" using mset_eq_setD [OF m] by simp
qed


definition sample_agent :: agent where
  "sample_agent = start_agent (sample_cfg\<lparr>RunnerSlots := 2\<rparr>) sample_judge checkers"

definition sample_fleet :: "ref_state fleet" where
  "sample_fleet = \<lparr>f_rdb = sample_rdb, f_posts = [], f_agents = [sample_agent]\<rparr>"

lemma sample_fleet_fresh: "fresh_fleet sample_fleet"
  by (simp add: fresh_fleet_def sample_fleet_def sample_agent_def start_agent_def)

lemma sample_fleet_polls:
  "(fleet_step ref_redis sample_codec sample_queue ref_view)\<^sup>*\<^sup>* sample_fleet
     (sample_fleet\<lparr>f_rdb := sample_rdb, f_posts := [], f_agents := [sample_agent\<lparr>a_loop := Fetching 2\<rparr>]\<rparr>)"
proof -
  have l: "length (a_slots sample_agent) = 2" by (simp add: sample_agent_def start_agent_def)
  have "agent_step ref_redis sample_codec sample_queue (sample_rdb, [], sample_agent)
      (sample_rdb, [], sample_agent\<lparr>a_loop := Fetching (length (a_slots sample_agent))\<rparr>)"
    by (rule agent_step.poll) (simp_all add: sample_agent_def start_agent_def)
  then show ?thesis unfolding l
    using fleet_step.agent [of 0 sample_fleet ref_redis sample_codec sample_queue sample_rdb "[]" "sample_agent\<lparr>a_loop := Fetching 2\<rparr>" ref_view]
    by (intro r_into_rtranclp) (simp add: sample_fleet_def)
qed




subsection \<open>A verdict that gets through is recorded\<close>

text \<open>What the runner posts is handled by \<^verbatim>\<open>handleResult\<close>, when both have the same token.\<close>

lemma Router_report:
  assumes "RunnerToken cfg = RunnerToken (s_cfg S)" and "length (marshal res) \<le> 1048576" and "x_result_body X (marshal res, False) = Some res'"
  shows "Router X S (report_request cfg marshal res) w = handleResult X S (Some res') w"
  using assms
  by (simp add: Router_def report_request_def runner_request_def requireRunnerToken_def subtleCompare_eq dispatch_def internal_routes_def capped_def)

lemma find_row_submissions: "submissions d' = submissions d \<Longrightarrow> find_row i d' = find_row i d"
  by (simp add: find_row_def)

text \<open>After the transaction the handler only reads submissions.\<close>

lemma finish_result_submissions:
  "submissions (w_db (snd (finish_result X S res w))) = submissions (snd (SaveResult res (w_db w)))"
proof -
  obtain r1 w1 where 1: "on_db (SaveResult res) w = (r1, w1)" by (cases "on_db (SaveResult res) w")
  then have d1: "w_db w1 = snd (SaveResult res (w_db w))" using on_db_frame(4) [of "SaveResult res" w] by simp
  obtain r2 w2 where 2: "on_db (GetSubmission (r_SubmissionID res)) w1 = (r2, w2)" by (cases "on_db (GetSubmission (r_SubmissionID res)) w1")
  then have d2: "submissions (w_db w2) = submissions (w_db w1)" using reads_on_db [OF reads_GetSubmission, of "r_SubmissionID res" w1] by simp
  show ?thesis
  proof (cases "\<exists>e. r1 = Inl e \<or> r2 = Inl e")
    case True
    then show ?thesis using 1 2 d1 d2 by (cases r1; cases r2) (auto simp: finish_result_def)
  next
    case False
    then obtain u sub where r: "r1 = Inr u" "r2 = Inr sub" by (metis sum.exhaust)
    obtain r3 w3 where 3: "on_db (GetProblem (s_ProblemID sub)) w2 = (r3, w3)" by (cases "on_db (GetProblem (s_ProblemID sub)) w2")
    then have "submissions (w_db w3) = submissions (w_db w2)" using reads_on_db [OF reads_statements(1), of "s_ProblemID sub" w2] by simp
    then show ?thesis using 1 2 3 d1 d2 r by (cases r3) (simp_all add: finish_result_def Let_def)
  qed
qed

definition recorded :: "SubmissionResult \<Rightarrow> db \<Rightarrow> bool" where
  "recorded res d \<longleftrightarrow> db_ok d \<and> (\<exists>r. find_row (r_SubmissionID res) d = Some r \<and> row_status r = StatusDone \<and>
     row_verdict r = Some (r_Verdict res) \<and> row_score r = r_Score res)"

lemma handleResult_recorded:
  assumes "recorded res (w_db w)" and "r_SubmissionID res \<noteq> []"
  shows "recorded res (w_db (snd (handleResult X S (Some res) w)))"
proof -
  let ?res = "received (w_now w) res"
  have i: "r_SubmissionID ?res = r_SubmissionID res" by (simp add: received_def)
  obtain r where ok: "db_ok (w_db w)" "find_row (r_SubmissionID ?res) (w_db w) = Some r" "row_status r = StatusDone"
    "row_verdict r = Some (r_Verdict res)" "row_score r = r_Score res" using assms(1) by (auto simp: recorded_def i)
  have s: "submissions (w_db (snd (handleResult X S (Some res) w))) = submissions (w_db w)"
    using assms(2) SaveResult_done [OF ok(1,2,3)] by (simp add: handleResult_def finish_result_submissions)
  show ?thesis using ok i find_row_submissions [OF s] by (simp add: recorded_def db_ok_def s)
qed

text \<open>What the database accepts as a result.\<close>

definition storable :: "SubmissionResult \<Rightarrow> bool" where
  "storable res \<longleftrightarrow> r_SubmissionID res \<noteq> [] \<and> r_Status res = StatusDone \<and> result_ok res \<and> result_args_ok res \<and>
     list_all test_ok (r_Tests res) \<and> distinct (map t_Index (r_Tests res))"

definition awaiting :: "string \<Rightarrow> db \<Rightarrow> bool" where
  "awaiting i d \<longleftrightarrow> db_ok d \<and> (\<exists>r. find_row i d = Some r \<and> row_status r \<noteq> StatusDone) \<and> test_rows i d = [] \<and> db_faults d = (\<lambda>_. False)"

lemma handleResult_records:
  assumes "awaiting (r_SubmissionID res) (w_db w)" and "storable res"
  shows "recorded res (w_db (snd (handleResult X S (Some res) w)))"
proof -
  let ?res = "received (w_now w) res" let ?d = "w_db w"
  have f: "r_SubmissionID ?res = r_SubmissionID res" "r_Tests ?res = r_Tests res" "result_ok ?res \<and> result_args_ok ?res"
    using assms(2) by (auto simp: received_def storable_def result_ok_def result_args_ok_def go_simps)
  obtain r where r: "db_ok ?d" "find_row (r_SubmissionID ?res) ?d = Some r" "row_status r \<noteq> StatusDone" "test_rows (r_SubmissionID ?res) ?d = []" "\<not> db_faults ?d (db_clock ?d)"
    using assms(1) by (auto simp: awaiting_def f)
  obtain v d' where sv: "SaveResult ?res ?d = (v, d')" by (cases "SaveResult ?res ?d")
  have row: "find_row (r_SubmissionID ?res) d' = Some (result_row ?res (db_now ?d) r)"
    using SaveResult_rows [OF r(1,2,3) f(3) _ r(5,4) _ sv] assms(2) f(2) by (auto simp: storable_def)
  have s: "submissions (w_db (snd (handleResult X S (Some res) w))) = submissions d'"
    using assms(2) sv by (simp add: handleResult_def finish_result_submissions storable_def)
  have "db_ok d'" using SaveResult_ok [OF r(1), of ?res] sv by simp
  then show ?thesis using row f(1) find_row_submissions [OF s] assms(2)
    by (simp add: recorded_def db_ok_def s result_row_def received_def storable_def)
qed

text \<open>
  What \<open>report\<close> relies on: requests that are lost or handled, of which the first one handled in an
  open state settles it, and further ones leave it settled.
\<close>

locale idempotent_endpoint =
  fixes send :: "nat \<Rightarrow> 'w \<Rightarrow> int option \<times> 'w" and lost :: "nat \<Rightarrow> bool" and unsettled settled :: "'w \<Rightarrow> bool"
  assumes lost_request: "lost n \<Longrightarrow> send n w = (None, w)"
    and first_request: "\<not> lost n \<Longrightarrow> unsettled w \<Longrightarrow> settled (snd (send n w))"
    and repeated_request: "settled w \<Longrightarrow> settled (snd (send n w))"
begin

lemma report_settled:
  assumes "settled w"
  shows "settled (report send ctxDone n w)"
  using assms
proof (induction "4 - n" arbitrary: n w rule: less_induct)
  case less
  obtain answer w1 where s: "send n w = (answer, w1)" by (cases "send n w")
  have p: "settled w1" using repeated_request [OF less(2), of n] s by simp
  have "settled (report send ctxDone k w1)" if "report_try n answer (ctxDone n) = Some k" for k
    using less(1) [OF _ p] that by (auto simp: report_try_def split: if_splits)
  then show ?case using s p by (simp add: report.simps [of send ctxDone n] split: option.split)
qed

lemma report_handled:
  assumes "\<not> lost n" and "unsettled w"
  shows "settled (report send ctxDone n w)"
proof -
  obtain answer w1 where s: "send n w = (answer, w1)" by (cases "send n w")
  then have "settled w1" using first_request [OF assms] by simp
  then show ?thesis using s report_settled by (simp add: report.simps [of send ctxDone n] split: option.split)
qed

lemma report_gets_through:
  assumes "unsettled w" and "n \<le> k" and "k < 4" and "\<not> lost k" and "\<And>m. m < k \<Longrightarrow> \<not> ctxDone m"
  shows "settled (report send ctxDone n w)"
  using assms(2)
proof (induction "k - n" arbitrary: n)
  case 0
  then show ?case using report_handled [OF assms(4,1)] by simp
next
  case (Suc j)
  then have nk: "n < k" by simp
  show ?case
  proof (cases "lost n")
    case True
    have "report_try n None (ctxDone n) = Some (n + 1)" using assms(3,5) nk by (simp add: report_try_def)
    then show ?thesis using Suc(1) [of "n + 1"] Suc(2) nk lost_request [OF True, of w] by (simp add: report.simps [of send ctxDone n])
  qed (simp add: report_handled assms(1))
qed

end

text \<open>A transmission: the runner with its token, and a result that its encoding carries.\<close>

definition transmits :: "'s ext \<Rightarrow> Server \<Rightarrow> Config \<Rightarrow> (SubmissionResult \<Rightarrow> string) \<Rightarrow> SubmissionResult \<Rightarrow> bool" where
  "transmits X S cfg marshal res \<longleftrightarrow> RunnerToken cfg = RunnerToken (s_cfg S) \<and> length (marshal res) \<le> 1048576 \<and>
     x_result_body X (marshal res, False) = Some res \<and> storable res"

locale transmission =
  fixes X :: "'s ext" and S :: Server and cfg :: Config and marshal :: "SubmissionResult \<Rightarrow> string" and res :: SubmissionResult
    and net :: "nat \<Rightarrow> transport"
  assumes transmitted: "transmits X S cfg marshal res"
begin

lemma Router_transmits: "Router X S (report_request cfg marshal res) w = handleResult X S (Some res) w"
  using transmitted by (intro Router_report) (simp_all add: transmits_def)

lemma storable_res: "storable res" "r_SubmissionID res \<noteq> []"
  using transmitted by (simp_all add: transmits_def storable_def)

lemma deliver_state: "snd (deliver X S net (report_request cfg marshal res) n w) = (if net n = RequestLost then w else snd (handleResult X S (Some res) w))"
  by (simp add: deliver_def Router_transmits split: transport.split prod.split)

end

sublocale transmission \<subseteq> endpoint: idempotent_endpoint "deliver X S net (report_request cfg marshal res)" "\<lambda>n. net n = RequestLost"
  "\<lambda>w. awaiting (r_SubmissionID res) (w_db w)" "\<lambda>w. recorded res (w_db w)"
proof
  show "deliver X S net (report_request cfg marshal res) n w = (None, w)" if "net n = RequestLost" for n w
    using that by (simp add: deliver_def)
qed (auto simp: deliver_state handleResult_records handleResult_recorded storable_res)

context transmission
begin

lemma report_through:
  assumes "awaiting (r_SubmissionID res) (w_db w)" and "k < 4" and "net k \<noteq> RequestLost" and "\<And>m. m < k \<Longrightarrow> \<not> ctxDone m"
  shows "recorded res (w_db (report (deliver X S net (report_request cfg marshal res)) ctxDone 0 w))"
  using endpoint.report_gets_through [OF assms(1) _ assms(2,3), of 0 ctxDone] assms(4) by simp

end


definition report_ext :: "ref_state ext" where
  "report_ext = sample_ext\<lparr>x_result_body := (\<lambda>_. Some (zero_SubmissionResult
     \<lparr>r_SubmissionID := ''s'', r_Status := StatusDone, r_Verdict := VerdictAC, r_Score := 70\<rparr>))\<rparr>"

definition sample_report :: SubmissionResult where
  "sample_report = zero_SubmissionResult\<lparr>r_SubmissionID := ''s'', r_Status := StatusDone, r_Verdict := VerdictAC, r_Score := 70\<rparr>"

interpretation sample_transmission: transmission report_ext sample_server sample_cfg "\<lambda>_. ''{}''" sample_report "\<lambda>_. Answered"
  by unfold_locales
    (auto simp: sample_report_def transmits_def report_ext_def sample_server_def storable_def result_ok_def result_args_ok_def zero_SubmissionResult_def
      known_verdicts_def Store.truncate_def fits_int4_def go_simps intro!: valid_text_ascii)


end
