(* ===== verification/Migrate.thy ===== *)
theory Migrate
  imports Api
begin

section \<open>Schema migrations (\<^verbatim>\<open>internal/adapters/postgres/migrate.go\<close>)\<close>

text \<open>
  The migration files are read, ordered by the version in their names and applied one by one,
  each in a transaction of its own that also records its checksum. What a script does to the
  schema is an argument, \<open>exec\<close>, on an abstract schema: scripts are taken not to touch the
  table of applied migrations. Any statement may fail, as the store's may (a failing statement
  has no effect), so a run may stop after any of them; the advisory lock makes runs of several
  replicas follow one another. The lemmas show that a run applies a prefix of what is pending.
\<close>

subsection \<open>Files\<close>

record migration =
  version :: int
  mig_name :: string
  sql :: string
  mig_sum :: string

record dir_entry =
  de_name :: string
  de_isDir :: bool
  de_content :: "string option"

datatype migrate_error =
    BadName string | BadVersion string | Unreadable string
  | Modified string string string | ApplyError string string | InsertError | StatementFailed

definition HasSuffix :: "string \<Rightarrow> string \<Rightarrow> bool" where
  "HasSuffix s t \<longleftrightarrow> suffix t s"

definition load_one :: "(string \<Rightarrow> string) \<Rightarrow> dir_entry \<Rightarrow> (migrate_error, migration) result" where
  "load_one sha e =
     (if CHR ''_'' \<notin> set (de_name e) then Inl (BadName (de_name e))
      else case Atoi (takeWhile (\<lambda>c. c \<noteq> CHR ''_'') (de_name e)) of
          None \<Rightarrow> Inl (BadVersion (de_name e))
        | Some v \<Rightarrow>
            (case de_content e of
               None \<Rightarrow> Inl (Unreadable (de_name e))
             | Some b \<Rightarrow> Inr \<lparr>version = v, mig_name = de_name e, sql = b, mig_sum = EncodeToString (sha b)\<rparr>))"

fun load_all :: "(string \<Rightarrow> string) \<Rightarrow> dir_entry list \<Rightarrow> (migrate_error, migration list) result" where
  "load_all sha [] = Inr []"
| "load_all sha (e # es) =
     (if de_isDir e \<or> \<not> HasSuffix (de_name e) ''.sql'' then load_all sha es
      else case load_one sha e of
          Inl err \<Rightarrow> Inl err
        | Inr m \<Rightarrow> (case load_all sha es of Inl err \<Rightarrow> Inl err | Inr ms \<Rightarrow> Inr (m # ms)))"

text \<open>\<^verbatim>\<open>sort.Slice\<close>: for fewer than thirteen elements an insertion sort, which is stable.\<close>

definition loadMigrations :: "(string \<Rightarrow> string) \<Rightarrow> (migrate_error, dir_entry list) result \<Rightarrow> (migrate_error, migration list) result" where
  "loadMigrations sha dir =
     (case dir of Inl e \<Rightarrow> Inl e
      | Inr es \<Rightarrow> (case load_all sha es of Inl e \<Rightarrow> Inl e | Inr ms \<Rightarrow> Inr (sort_key version ms)))"

subsection \<open>The database\<close>

type_synonym mig_row = "int \<times> string \<times> string"

record 'd mdb =
  mg_schema :: 'd
  mg_rows :: "mig_row list option"
  mg_clock :: nat
  mg_faults :: "nat \<Rightarrow> bool"

type_synonym ('d, 'a) mstmt = "'d mdb \<Rightarrow> (migrate_error, 'a) result \<times> 'd mdb"

definition stmt :: "('d, 'a) mstmt \<Rightarrow> ('d, 'a) mstmt" where
  "stmt f d =
     (let d' = d\<lparr>mg_clock := mg_clock d + 1\<rparr>
      in if mg_faults d (mg_clock d) then (Inl StatementFailed, d') else f d')"

definition table :: "'d mdb \<Rightarrow> mig_row list" where
  "table d = (case mg_rows d of None \<Rightarrow> [] | Some rows \<Rightarrow> rows)"

definition run_sql :: "(string \<Rightarrow> 'd \<Rightarrow> (string, 'd) result) \<Rightarrow> migration \<Rightarrow> ('d, unit) mstmt" where
  "run_sql exec m d =
     (case exec (sql m) (mg_schema d) of
        Inl e \<Rightarrow> (Inl (ApplyError (mig_name m) e), d)
      | Inr s \<Rightarrow> (Inr (), d\<lparr>mg_schema := s\<rparr>))"

definition insert_row :: "migration \<Rightarrow> ('d, unit) mstmt" where
  "insert_row m d =
     (if \<not> fits_int4 (version m) \<or> version m \<in> fst ` set (table d) \<or> \<not> valid_text (mig_name m)
      then (Inl InsertError, d)
      else (Inr (), d\<lparr>mg_rows := Some (table d @ [(version m, mig_name m, mig_sum m)])\<rparr>))"

text \<open>\<^verbatim>\<open>pgx.BeginFunc\<close>: the transaction is rolled back when the function or the commit fails.\<close>

definition begin_func :: "('d, unit) mstmt \<Rightarrow> ('d, unit) mstmt" where
  "begin_func f d =
     (case stmt (\<lambda>d. (Inr (), d)) d of
        (Inl e, d1) \<Rightarrow> (Inl e, d1)
      | (Inr _, d1) \<Rightarrow>
          (let roll = (\<lambda>x. x\<lparr>mg_schema := mg_schema d1, mg_rows := mg_rows d1\<rparr>)
           in case f d1 of
                (Inl e, d2) \<Rightarrow> (Inl e, roll d2)
              | (Inr _, d2) \<Rightarrow>
                  (case stmt (\<lambda>d. (Inr (), d)) d2 of (Inl e, d3) \<Rightarrow> (Inl e, roll d3) | (Inr _, d3) \<Rightarrow> (Inr (), d3))))"

definition apply_migration :: "(string \<Rightarrow> 'd \<Rightarrow> (string, 'd) result) \<Rightarrow> migration \<Rightarrow> ('d, unit) mstmt" where
  "apply_migration exec m = begin_func (\<lambda>d.
     case stmt (run_sql exec m) d of
       (Inl e, d1) \<Rightarrow> (Inl e, d1)
     | (Inr _, d1) \<Rightarrow> stmt (insert_row m) d1)"

fun migrate_loop :: "(string \<Rightarrow> 'd \<Rightarrow> (string, 'd) result) \<Rightarrow> (int \<Rightarrow> string option) \<Rightarrow> migration list \<Rightarrow> ('d, unit) mstmt" where
  "migrate_loop exec applied [] d = (Inr (), d)"
| "migrate_loop exec applied (m # ms) d =
     (case applied (version m) of
        Some s \<Rightarrow> if s \<noteq> mig_sum m then (Inl (Modified (mig_name m) (mig_sum m) s), d) else migrate_loop exec applied ms d
      | None \<Rightarrow>
          (case apply_migration exec m d of
             (Inl e, d1) \<Rightarrow> (Inl e, d1)
           | (Inr _, d1) \<Rightarrow> migrate_loop exec applied ms d1))"

definition checksums :: "mig_row list \<Rightarrow> int \<Rightarrow> string option" where
  "checksums rows v = map_of (map (\<lambda>(v, _, s). (v, s)) (rev rows)) v"

definition Migrate :: "(string \<Rightarrow> 'd \<Rightarrow> (string, 'd) result) \<Rightarrow> (string \<Rightarrow> string) \<Rightarrow> (migrate_error, dir_entry list) result \<Rightarrow> ('d, unit) mstmt" where
  "Migrate exec sha dir d =
     (case stmt (\<lambda>d. (Inr (), d)) d of
        (Inl e, d1) \<Rightarrow> (Inl e, d1)
      | (Inr _, d1) \<Rightarrow>
          (case stmt (\<lambda>d. (Inr (), d)) d1 of
             (Inl e, d2) \<Rightarrow> (Inl e, d2)
           | (Inr _, d2) \<Rightarrow>
               (case stmt (\<lambda>d. (Inr (), d\<lparr>mg_rows := Some (table d)\<rparr>)) d2 of
                  (Inl e, d3) \<Rightarrow> (Inl e, d3)
                | (Inr _, d3) \<Rightarrow>
                    (case stmt (\<lambda>d. (Inr (table d), d)) d3 of
                       (Inl e, d4) \<Rightarrow> (Inl e, d4)
                     | (Inr rows, d4) \<Rightarrow>
                         (case loadMigrations sha dir of
                            Inl e \<Rightarrow> (Inl e, d4)
                          | Inr ms \<Rightarrow> migrate_loop exec (checksums rows) ms d4)))))"

subsection \<open>Runs apply prefixes\<close>

fun apply_scripts :: "(string \<Rightarrow> 'd \<Rightarrow> (string, 'd) result) \<Rightarrow> migration list \<Rightarrow> 'd \<Rightarrow> 'd option" where
  "apply_scripts exec [] s = Some s"
| "apply_scripts exec (m # ms) s = (case exec (sql m) s of Inl _ \<Rightarrow> None | Inr s' \<Rightarrow> apply_scripts exec ms s')"

definition mig_row_of :: "migration \<Rightarrow> mig_row" where
  "mig_row_of m = (version m, mig_name m, mig_sum m)"

definition pending :: "migration list \<Rightarrow> mig_row list \<Rightarrow> migration list" where
  "pending ms rows = filter (\<lambda>m. version m \<notin> fst ` set rows) ms"

lemma apply_scripts_append: "apply_scripts exec (ms @ ns) s = Option.bind (apply_scripts exec ms s) (apply_scripts exec ns)"
  by (induction ms arbitrary: s) (auto split: sum.split)

lemma checksums_None: "checksums rows v = None \<longleftrightarrow> v \<notin> fst ` set rows"
  by (auto simp: checksums_def map_of_eq_None_iff image_image split_beta)

lemma checksums_append:
  assumes "distinct (map version ms)" and "m \<in> set ms"
  shows "checksums (rows @ map mig_row_of ms) (version m) = Some (mig_sum m)"
proof -
  have e: "map (\<lambda>(v, _, s). (v, s)) (rev (map mig_row_of ms)) = rev (map (\<lambda>m. (version m, mig_sum m)) ms)"
    by (simp add: rev_map mig_row_of_def)
  have "distinct (map fst (rev (map (\<lambda>m. (version m, mig_sum m)) ms)))" using assms(1) by (simp add: rev_map comp_def flip: rev_map)
  moreover have "(version m, mig_sum m) \<in> set (rev (map (\<lambda>m. (version m, mig_sum m)) ms))" using assms(2) by auto
  ultimately have "map_of (rev (map (\<lambda>m. (version m, mig_sum m)) ms)) (version m) = Some (mig_sum m)" by (rule map_of_is_SomeI)
  then show ?thesis by (simp add: checksums_def map_add_def flip: e)
qed

lemma checksums_skip: "v \<notin> version ` set ns \<Longrightarrow> checksums (rows @ map mig_row_of ns) v = checksums rows v"
  by (auto simp: checksums_def map_add_def mig_row_of_def rev_map image_image split: option.split dest!: map_of_SomeD)

lemma apply_migration_atomic:
  assumes "apply_migration exec m d = (r, d')"
  shows "(\<exists>e. r = Inl e) \<and> mg_schema d' = mg_schema d \<and> table d' = table d \<or>
    r = Inr () \<and> exec (sql m) (mg_schema d) = Inr (mg_schema d') \<and> table d' = table d @ [mig_row_of m]"
  using assms
  by (auto simp: apply_migration_def begin_func_def stmt_def run_sql_def insert_row_def table_def mig_row_of_def Let_def
      split: sum.splits if_splits prod.splits option.splits)

lemma migrate_loop_prefix:
  assumes "migrate_loop exec applied ms d = (r, d')"
  shows "\<exists>k. apply_scripts exec (take k (filter (\<lambda>m. applied (version m) = None) ms)) (mg_schema d) = Some (mg_schema d') \<and>
    table d' = table d @ map mig_row_of (take k (filter (\<lambda>m. applied (version m) = None) ms)) \<and>
    (r = Inr () \<longrightarrow> length (filter (\<lambda>m. applied (version m) = None) ms) \<le> k \<and>
       (\<forall>m \<in> set ms. applied (version m) = None \<or> applied (version m) = Some (mig_sum m)))"
  using assms
proof (induction ms arbitrary: d)
  case (Cons m ms)
  show ?case
  proof (cases "applied (version m)")
    case None
    obtain r1 d1 where a: "apply_migration exec m d = (r1, d1)" by (cases "apply_migration exec m d")
    show ?thesis
    proof (cases r1)
      case (Inl e)
      then show ?thesis using a None Cons.prems apply_migration_atomic [OF a] by (intro exI [of _ 0]) auto
    next
      case (Inr u)
      then have s: "exec (sql m) (mg_schema d) = Inr (mg_schema d1)" "table d1 = table d @ [mig_row_of m]" using apply_migration_atomic [OF a] by auto
      have "migrate_loop exec applied ms d1 = (r, d')" using Cons.prems None a Inr by simp
      from Cons.IH [OF this] obtain k where "apply_scripts exec (take k (filter (\<lambda>m. applied (version m) = None) ms)) (mg_schema d1) = Some (mg_schema d')"
          "table d' = table d1 @ map mig_row_of (take k (filter (\<lambda>m. applied (version m) = None) ms))"
          "r = Inr () \<longrightarrow> length (filter (\<lambda>m. applied (version m) = None) ms) \<le> k \<and> (\<forall>m \<in> set ms. applied (version m) = None \<or> applied (version m) = Some (mig_sum m))"
        by blast
      then show ?thesis using None s by (intro exI [of _ "Suc k"]) simp
    qed
  next
    case (Some s)
    show ?thesis
    proof (cases "s = mig_sum m")
      case True
      then show ?thesis using Cons.IH [of d] Cons.prems Some by auto
    next
      case False
      then show ?thesis using Cons.prems Some by (intro exI [of _ 0]) auto
    qed
  qed
qed simp

lemma table_update [simp]: "table (d\<lparr>mg_clock := n\<rparr>) = table d" "table (d\<lparr>mg_faults := fs\<rparr>) = table d" "table (d\<lparr>mg_rows := Some rows\<rparr>) = rows"
  by (simp_all add: table_def)

lemma Migrate_cases:
  assumes "Migrate exec sha dir d = (r, d')" and "loadMigrations sha dir = Inr ms"
  obtains (stopped) "mg_schema d' = mg_schema d" and "table d' = table d" and "r \<noteq> Inr ()"
  | (looped) d4 where "migrate_loop exec (checksums (table d)) ms d4 = (r, d')" and "mg_schema d4 = mg_schema d" and "table d4 = table d"
    and "mg_faults d4 = mg_faults d"
  using assms by (auto simp: Migrate_def stmt_def Let_def split: if_splits)

lemma Migrate_prefix:
  assumes "Migrate exec sha dir d = (r, d')" and "loadMigrations sha dir = Inr ms"
  shows "\<exists>k. apply_scripts exec (take k (pending ms (table d))) (mg_schema d) = Some (mg_schema d') \<and>
    table d' = table d @ map mig_row_of (take k (pending ms (table d))) \<and>
    (r = Inr () \<longrightarrow> length (pending ms (table d)) \<le> k \<and>
       (\<forall>m \<in> set ms. checksums (table d) (version m) = None \<or> checksums (table d) (version m) = Some (mig_sum m)))"
proof -
  show ?thesis
    using assms
  proof (cases rule: Migrate_cases)
    case stopped
    then show ?thesis by (intro exI [of _ 0]) simp
  next
    case (looped d4)
    then show ?thesis using migrate_loop_prefix [OF looped(1)] by (simp add: pending_def checksums_None)
  qed
qed

lemma filter_other_versions:
  assumes "distinct (map version xs)"
  shows "filter (\<lambda>m. version m \<notin> version ` set (take k xs)) xs = drop k xs"
proof -
  have "distinct (map version (take k xs @ drop k xs))" using assms by simp
  then have "version m \<notin> version ` set (take k xs)" if "m \<in> set (drop k xs)" for m using that by (auto simp del: append_take_drop_id)
  then have "filter (\<lambda>m. version m \<notin> version ` set (take k xs)) (take k xs @ drop k xs) = drop k xs"
    by (simp add: filter_id_conv filter_empty_conv del: append_take_drop_id)
  then show ?thesis by simp
qed

lemma pending_after:
  assumes "distinct (map version ms)"
  shows "pending ms (rows @ map mig_row_of (take k (pending ms rows))) = drop k (pending ms rows)"
proof -
  have d: "distinct (map version (pending ms rows))" using assms by (simp add: pending_def distinct_map_filter)
  have v: "fst ` set (map mig_row_of xs) = version ` set xs" for xs by (auto simp: mig_row_of_def image_image)
  have "pending ms (rows @ map mig_row_of (take k (pending ms rows))) = filter (\<lambda>m. version m \<notin> version ` set (take k (pending ms rows))) (pending ms rows)"
    by (simp add: pending_def image_Un conj_commute v [simplified])
  then show ?thesis by (simp only: filter_other_versions [OF d])
qed

text \<open>Runs that may have been interrupted anywhere, each with failures of its own.\<close>

definition attempted :: "(string \<Rightarrow> 'd \<Rightarrow> (string, 'd) result) \<Rightarrow> (string \<Rightarrow> string) \<Rightarrow> (migrate_error, dir_entry list) result \<Rightarrow> 'd mdb \<Rightarrow> 'd mdb \<Rightarrow> bool" where
  "attempted exec sha dir d d' \<longleftrightarrow> (\<exists>n fs r. Migrate exec sha dir (d\<lparr>mg_clock := n, mg_faults := fs\<rparr>) = (r, d'))"

lemma attempted_prefix:
  assumes "(attempted exec sha dir)\<^sup>*\<^sup>* d d'" and "loadMigrations sha dir = Inr ms" and "distinct (map version ms)"
  shows "\<exists>k. apply_scripts exec (take k (pending ms (table d))) (mg_schema d) = Some (mg_schema d') \<and>
    table d' = table d @ map mig_row_of (take k (pending ms (table d)))"
  using assms(1)
proof induction
  case base
  then show ?case by (intro exI [of _ 0]) simp
next
  case (step y z)
  let ?P = "pending ms (table d)"
  obtain k where k: "apply_scripts exec (take k ?P) (mg_schema d) = Some (mg_schema y)" "table y = table d @ map mig_row_of (take k ?P)" using step.IH by blast
  obtain n fs r where "Migrate exec sha dir (y\<lparr>mg_clock := n, mg_faults := fs\<rparr>) = (r, z)" using step.hyps(2) by (auto simp: attempted_def)
  from Migrate_prefix [OF this assms(2)] obtain j where
    j: "apply_scripts exec (take j (pending ms (table y))) (mg_schema y) = Some (mg_schema z)" "table z = table y @ map mig_row_of (take j (pending ms (table y)))" by auto
  have "pending ms (table y) = drop k ?P" unfolding k(2) by (rule pending_after [OF assms(3)])
  then show ?case using k j by (intro exI [of _ "k + j"]) (simp add: take_add apply_scripts_append)
qed

lemma Migrate_quiet:
  assumes "loadMigrations sha dir = Inr ms" and "\<And>m. m \<in> set ms \<Longrightarrow> checksums (table d) (version m) = Some (mig_sum m)" and "mg_faults d = (\<lambda>_. False)"
  shows "fst (Migrate exec sha dir d) = Inr () \<and> mg_schema (snd (Migrate exec sha dir d)) = mg_schema d \<and> table (snd (Migrate exec sha dir d)) = table d"
proof -
  have l: "migrate_loop exec (checksums (table d)) xs e = (Inr (), e)" if "set xs \<subseteq> set ms" for xs e
    using that assms(2) by (induction xs) auto
  show ?thesis using l [of ms] assms(1,3) by (simp add: Migrate_def stmt_def Let_def table_def)
qed

subsection \<open>Property\<close>

text \<open>
  C22: interrupted deployments converge. However many runs were cut short by failing statements,
  and wherever, a run that succeeds leaves the schema that applying every pending migration once,
  in version order and from the first state on, gives: none is skipped, repeated or half
  applied, and each is recorded. A success also means that no applied file was edited since, and
  a further run succeeds and changes nothing.
\<close>

theorem Migrate_converges:
  assumes "loadMigrations sha dir = Inr ms" and "distinct (map version ms)"
    and "(attempted exec sha dir)\<^sup>*\<^sup>* d d1" and "Migrate exec sha dir d1 = (Inr (), d2)"
  shows "apply_scripts exec (pending ms (table d)) (mg_schema d) = Some (mg_schema d2) \<and>
    table d2 = table d @ map mig_row_of (pending ms (table d)) \<and> sorted (map version (pending ms (table d))) \<and>
    (\<forall>m \<in> set ms. checksums (table d2) (version m) = Some (mig_sum m)) \<and>
    (mg_faults d2 = (\<lambda>_. False) \<longrightarrow> fst (Migrate exec sha dir d2) = Inr () \<and>
       mg_schema (snd (Migrate exec sha dir d2)) = mg_schema d2 \<and> table (snd (Migrate exec sha dir d2)) = table d2)"
proof -
  let ?P = "pending ms (table d)"
  obtain k where k: "apply_scripts exec (take k ?P) (mg_schema d) = Some (mg_schema d1)" "table d1 = table d @ map mig_row_of (take k ?P)"
    using attempted_prefix [OF assms(3,1,2)] by blast
  have p1: "pending ms (table d1) = drop k ?P" unfolding k(2) by (rule pending_after [OF assms(2)])
  obtain j where j: "apply_scripts exec (take j (drop k ?P)) (mg_schema d1) = Some (mg_schema d2)" "table d2 = table d1 @ map mig_row_of (take j (drop k ?P))"
      "length (drop k ?P) \<le> j" "\<forall>m \<in> set ms. checksums (table d1) (version m) = None \<or> checksums (table d1) (version m) = Some (mig_sum m)"
    using Migrate_prefix [OF assms(4,1)] unfolding p1 by auto
  have all: "take j (drop k ?P) = drop k ?P" using j(3) by simp
  have s: "apply_scripts exec ?P (mg_schema d) = Some (mg_schema d2)"
    using k(1) j(1) apply_scripts_append [of exec "take k ?P" "drop k ?P" "mg_schema d"] by (simp add: all)
  have t: "table d2 = table d @ map mig_row_of ?P" using k(2) j(2) by (simp add: all flip: map_append)
  have c: "checksums (table d2) (version m) = Some (mig_sum m)" if m: "m \<in> set ms" for m
  proof (cases "m \<in> set (drop k ?P)")
    case True
    have "distinct (map version (drop k ?P))" using assms(2) by (simp add: pending_def distinct_map_filter distinct_drop flip: drop_map)
    then show ?thesis using checksums_append [OF _ True, of "table d1"] j(2) by (simp add: all)
  next
    case False
    then have "m \<notin> set (pending ms (table d1))" by (simp only: p1) simp
    then have "version m \<in> fst ` set (table d1)" using m by (simp add: pending_def)
    then have "checksums (table d1) (version m) = Some (mig_sum m)" using j(4) m checksums_None by metis
    moreover have "checksums (table d2) (version m) = checksums (table d1) (version m)"
    proof -
      have "\<forall>x \<in> set (pending ms (table d1)). version x \<notin> fst ` set (table d1)" by (simp add: pending_def)
      then have "version m \<notin> version ` set (drop k ?P)" using \<open>version m \<in> fst ` set (table d1)\<close> unfolding p1 by (metis imageE)
      then show ?thesis by (simp add: j(2) all checksums_skip)
    qed
    ultimately show ?thesis by simp
  qed
  have "sorted (map version ms)" using assms(1) by (auto simp: loadMigrations_def split: sum.splits)
  then have "sorted (map version ?P)" by (simp add: pending_def sorted_filter)
  then show ?thesis using s t c Migrate_quiet [OF assms(1) c, of exec] by blast
qed

text \<open>Two scripts; the first run fails at the commit of the second one.\<close>

definition sample_dir :: "(migrate_error, dir_entry list) result" where
  "sample_dir = Inr [\<lparr>de_name = ''0001_a.sql'', de_isDir = False, de_content = Some ''x''\<rparr>, \<lparr>de_name = ''0002_b.sql'', de_isDir = False, de_content = Some ''y''\<rparr>]"

definition sample_mdb :: "string mdb" where
  "sample_mdb = \<lparr>mg_schema = [], mg_rows = None, mg_clock = 0, mg_faults = (\<lambda>n. n = 11)\<rparr>"

definition sample_exec :: "string \<Rightarrow> string \<Rightarrow> (string, string) result" where
  "sample_exec q s = Inr (s @ q)"

abbreviation sample_migrations :: "migration list" where
  "sample_migrations \<equiv> [\<lparr>version = 1, mig_name = ''0001_a.sql'', sql = ''x'', mig_sum = []\<rparr>, \<lparr>version = 2, mig_name = ''0002_b.sql'', sql = ''y'', mig_sum = []\<rparr>]"

lemma sample_load: "loadMigrations (\<lambda>_. []) sample_dir = Inr sample_migrations"
  by code_simp

lemma sample_script_names: "valid_text ''0001_a.sql''" "valid_text ''0002_b.sql''"
  by (auto intro!: valid_text_ascii)

lemma sample_run1: "Migrate sample_exec (\<lambda>_. []) sample_dir sample_mdb =
    (Inl StatementFailed, sample_mdb\<lparr>mg_schema := ''x'', mg_rows := Some [(1, ''0001_a.sql'', [])], mg_clock := 12\<rparr>)"
  by (simp add: Migrate_def stmt_def Let_def sample_load apply_migration_def begin_func_def run_sql_def insert_row_def sample_exec_def
    sample_script_names fits_int4_def checksums_def sample_mdb_def table_def)

lemma sample_run2: "fst (Migrate sample_exec (\<lambda>_. []) sample_dir (snd (Migrate sample_exec (\<lambda>_. []) sample_dir sample_mdb))) = Inr ()"
  unfolding sample_run1
  by (simp add: Migrate_def stmt_def Let_def sample_load apply_migration_def begin_func_def run_sql_def insert_row_def sample_exec_def
    sample_script_names fits_int4_def checksums_def sample_mdb_def table_def)

theorem Migrate_converges_witness:
  "mg_schema (snd (Migrate sample_exec (\<lambda>_. []) sample_dir (snd (Migrate sample_exec (\<lambda>_. []) sample_dir sample_mdb)))) = ''xy''"
proof -
  let ?M = "Migrate sample_exec (\<lambda>_. []) sample_dir" let ?d1 = "snd (?M sample_mdb)"
  have "attempted sample_exec (\<lambda>_. []) sample_dir sample_mdb ?d1"
    unfolding attempted_def by (intro exI [of _ 0] exI [of _ "\<lambda>n. n = 11"] exI [of _ "fst (?M sample_mdb)"]) (simp add: sample_mdb_def)
  then have a: "(attempted sample_exec (\<lambda>_. []) sample_dir)\<^sup>*\<^sup>* sample_mdb ?d1" by blast
  have b: "?M ?d1 = (Inr (), snd (?M ?d1))" using sample_run2 by (metis prod.collapse)
  have "apply_scripts sample_exec (pending sample_migrations (table sample_mdb)) (mg_schema sample_mdb) = Some ''xy''" by code_simp
  then show ?thesis using Migrate_converges [OF sample_load _ a b] by simp
qed

end
