(* ===== verification/Seed.thy ===== *)
theory Seed
  imports Migrate "HOL-Library.Sublist"
begin

section \<open>Seeding (\<^verbatim>\<open>cmd/seed\<close>)\<close>

text \<open>
  The seed program fills an empty installation: users, one contest, three problems with their
  tests in the blob store. It runs after the migrations and may run again. The statements are
  on the tables of theory \<open>Store\<close>, with the constraints of \<^verbatim>\<open>0001_init.sql\<close>; \<open>sha\<close> and \<open>hash\<close>, for
  SHA-256 and bcrypt, are arguments. The expected output of the generated test is computed by
  Kadane's algorithm, which is shown to give the greatest sum of a contiguous part.
\<close>

subsection \<open>The generated test\<close>

definition big_value :: "nat \<Rightarrow> int" where
  "big_value i = i64 (int i * 7919) smod 2001 - 1000"

definition bigInput :: "nat \<Rightarrow> string" where
  "bigInput n = itoa (int n) @ [CHR 0x0A] @ concat (map (\<lambda>i. itoa (big_value i) @ '' '') [0..<n]) @ [CHR 0x0A]"

definition kadane_step :: "int \<times> int \<Rightarrow> int \<Rightarrow> int \<times> int" where
  "kadane_step bc v =
     (let (best, cur) = bc; cur = (if cur < 0 then 0 else cur); cur = i64 (cur + v)
      in (if cur > best then cur else best, cur))"

definition big_best :: "nat \<Rightarrow> int" where
  "big_best n = fst (foldl kadane_step (- (2 ^ 62), 0) (map big_value [0..<n]))"

definition bigExpected :: string where
  "bigExpected = itoa (big_best 200000) @ [CHR 0x0A]"

lemma big_value_range: "i < 200000 \<Longrightarrow> - 1000 \<le> big_value i \<and> big_value i \<le> 1000"
proof -
  assume "i < 200000"
  then have "i64 (int i * 7919) = int i * 7919" by (intro i64_id) (simp add: in_i64_def)
  then show ?thesis by (simp add: big_value_def smod_nonneg)
qed

text \<open>The sums of the non-empty parts of a list that end at its end, and of all its non-empty parts.\<close>

definition tail_sums :: "int list \<Rightarrow> int set" where
  "tail_sums xs = sum_list ` {ys. ys \<noteq> [] \<and> suffix ys xs}"

definition part_sums :: "int list \<Rightarrow> int set" where
  "part_sums xs = sum_list ` {ys. ys \<noteq> [] \<and> sublist ys xs}"

lemma tail_sums_snoc: "tail_sums (xs @ [v]) = insert v ((\<lambda>s. s + v) ` tail_sums xs)"
proof -
  have "{ys. ys \<noteq> [] \<and> suffix ys (xs @ [v])} = insert [v] ((\<lambda>ys. ys @ [v]) ` {ys. ys \<noteq> [] \<and> suffix ys xs})"
    by (auto simp: suffix_snoc image_iff)
  then show ?thesis by (simp add: tail_sums_def image_image)
qed

lemma part_sums_snoc: "part_sums (xs @ [v]) = part_sums xs \<union> tail_sums (xs @ [v])"
  unfolding part_sums_def tail_sums_def by (auto simp: sublist_snoc)

definition kadane_ok :: "int list \<Rightarrow> int \<times> int \<Rightarrow> bool" where
  "kadane_ok xs bc \<longleftrightarrow> snd bc \<in> tail_sums xs \<and> (\<forall>s \<in> tail_sums xs. s \<le> snd bc) \<and>
     fst bc \<in> part_sums xs \<and> (\<forall>s \<in> part_sums xs. s \<le> fst bc) \<and> - 1000 \<le> snd bc \<and> snd bc \<le> 1000 * int (length xs)"

lemma kadane_first: "- 1000 \<le> v \<Longrightarrow> v \<le> 1000 \<Longrightarrow> kadane_ok [v] (kadane_step (- (2 ^ 62), 0) v)"
proof -
  assume v: "- 1000 \<le> v" "v \<le> 1000"
  have "i64 v = v" using v by (intro i64_id) (simp add: in_i64_def)
  moreover have "tail_sums [v] = {v}" using tail_sums_snoc [of "[]" v] by (simp add: tail_sums_def)
  moreover have "part_sums [v] = {v}" using part_sums_snoc [of "[]" v] \<open>tail_sums [v] = {v}\<close> by (simp add: part_sums_def)
  ultimately show ?thesis using v by (simp add: kadane_ok_def kadane_step_def)
qed

lemma kadane_next:
  assumes "kadane_ok xs bc" and "- 1000 \<le> v" and "v \<le> 1000" and "length xs < 2 ^ 40"
  shows "kadane_ok (xs @ [v]) (kadane_step bc v)"
proof -
  obtain best cur where bc: "bc = (best, cur)" by (cases bc)
  let ?c = "max cur 0 + v"
  have ok: "cur \<in> tail_sums xs" "\<forall>s \<in> tail_sums xs. s \<le> cur" "best \<in> part_sums xs" "\<forall>s \<in> part_sums xs. s \<le> best"
    "- 1000 \<le> cur" "cur \<le> 1000 * int (length xs)" using assms(1) by (simp_all add: kadane_ok_def bc)
  have "i64 ?c = ?c" using ok(5,6) assms(2-4) by (intro i64_id) (auto simp: in_i64_def)
  moreover have "(if cur < 0 then 0 else cur) = max cur 0" by simp
  ultimately have step: "kadane_step bc v = (max best ?c, ?c)" by (simp only: bc kadane_step_def Let_def case_prod_conv) simp
  have t: "?c \<in> tail_sums (xs @ [v])" "\<forall>s \<in> tail_sums (xs @ [v]). s \<le> ?c"
    using ok(1,2) by (auto simp: tail_sums_snoc max_def)
  have p: "max best ?c \<in> part_sums (xs @ [v])" "\<forall>s \<in> part_sums (xs @ [v]). s \<le> max best ?c"
    using ok(3,4) t by (auto simp: part_sums_snoc max_def)
  have "- 1000 \<le> ?c" "?c \<le> 1000 * int (length (xs @ [v]))" using ok(5,6) assms(2,3) by (auto simp: max_def)
  then show ?thesis using t p by (simp add: kadane_ok_def step)
qed

text \<open>Kadane's algorithm in 64-bit arithmetic gives the greatest sum of a non-empty contiguous part.\<close>

lemma kadane_greatest:
  assumes "xs \<noteq> []" and "\<forall>v \<in> set xs. - 1000 \<le> v \<and> v \<le> 1000" and "length xs < 2 ^ 40"
  shows "kadane_ok xs (foldl kadane_step (- (2 ^ 62), 0) xs)"
  using assms
proof (induction xs rule: rev_nonempty_induct)
  case (single v)
  then show ?case using kadane_first [of v] by simp
next
  case (snoc v xs)
  then show ?case using kadane_next [of xs _ v] by simp
qed

lemma bigExpected_greatest:
  "\<exists>b \<in> part_sums (map big_value [0..<200000]). bigExpected = itoa b @ [CHR 0x0A] \<and> (\<forall>s \<in> part_sums (map big_value [0..<200000]). s \<le> b)"
proof -
  have "kadane_ok (map big_value [0..<200000]) (foldl kadane_step (- (2 ^ 62), 0) (map big_value [0..<200000]))"
    using big_value_range by (intro kadane_greatest) auto
  then show ?thesis by (intro bexI [of _ "big_best 200000"]) (simp_all add: kadane_ok_def big_best_def bigExpected_def)
qed

subsection \<open>Users, contest and problems\<close>

record tc =
  tc_in :: string
  tc_out :: string
  tc_sample :: bool

record prob =
  pr_slug :: string
  pr_title :: string
  pr_statement :: string
  pr_cpuMs :: int
  pr_memMB :: int
  pr_checker :: string
  pr_tests :: "tc list"

definition seed_users :: "(string \<times> string) list" where
  "seed_users = [(''admin'', ''admin''), (''setter'', ''setter''), (''anish'', ''participant''), (''alice'', ''participant''), (''bob'', ''participant'')]"

definition seed_problems :: "prob list" where
  "seed_problems =
     [\<lparr>pr_slug = ''a-plus-b'', pr_title = ''A + B'', pr_statement = ''Read two integers a and b, print a+b.'', pr_cpuMs = 1000, pr_memMB = 128, pr_checker = ''token'',
       pr_tests = [\<lparr>tc_in = ''1 2'' @ [CHR 0x0A], tc_out = ''3'' @ [CHR 0x0A], tc_sample = True\<rparr>, \<lparr>tc_in = ''100 250'' @ [CHR 0x0A], tc_out = ''350'' @ [CHR 0x0A], tc_sample = False\<rparr>,
         \<lparr>tc_in = ''-5 5'' @ [CHR 0x0A], tc_out = ''0'' @ [CHR 0x0A], tc_sample = False\<rparr>, \<lparr>tc_in = ''1000000000 1000000000'' @ [CHR 0x0A], tc_out = ''2000000000'' @ [CHR 0x0A], tc_sample = False\<rparr>]\<rparr>,
      \<lparr>pr_slug = ''max-subarray'', pr_title = ''Maximum Subarray Sum'',
       pr_statement = ''Given n and n integers, print the maximum sum of a contiguous non-empty subarray. n can be up to 200000, so an O(n^2) solution will TLE.'',
       pr_cpuMs = 1000, pr_memMB = 256, pr_checker = ''token'',
       pr_tests = [\<lparr>tc_in = ''5'' @ [CHR 0x0A] @ ''-2 1 -3 4 -1'' @ [CHR 0x0A], tc_out = ''4'' @ [CHR 0x0A], tc_sample = True\<rparr>,
         \<lparr>tc_in = ''3'' @ [CHR 0x0A] @ ''-5 -2 -9'' @ [CHR 0x0A], tc_out = ''-2'' @ [CHR 0x0A], tc_sample = False\<rparr>, \<lparr>tc_in = bigInput 200000, tc_out = bigExpected, tc_sample = False\<rparr>]\<rparr>,
      \<lparr>pr_slug = ''float-avg'', pr_title = ''Average'', pr_statement = ''Print the mean of n numbers with absolute error <= 1e-6.'', pr_cpuMs = 1000, pr_memMB = 128, pr_checker = ''float'',
       pr_tests = [\<lparr>tc_in = ''3'' @ [CHR 0x0A] @ ''1 2 4'' @ [CHR 0x0A], tc_out = ''2.3333333333'' @ [CHR 0x0A], tc_sample = True\<rparr>,
         \<lparr>tc_in = ''2'' @ [CHR 0x0A] @ ''1 2'' @ [CHR 0x0A], tc_out = ''1.5'' @ [CHR 0x0A], tc_sample = False\<rparr>]\<rparr>]"

definition seed_user :: "string \<Rightarrow> string \<Rightarrow> string \<Rightarrow> unit store" where
  "seed_user handle hash role = query (\<lambda>d.
     let i = db_uuid d (db_clock d)
     in if \<not> valid_text hash then (Inl CheckViolation, d)
        else if \<exists>v \<in> set (users d). ci_eq (u_Handle v) handle then (Inr (), d)
        else if \<exists>v \<in> set (users d). u_ID v = i then (Inl UniqueViolation, d)
        else (Inr (), d\<lparr>users := users d @ [\<lparr>u_ID = i, u_Handle = handle, u_Email = handle @ ''@arena.local'', u_PasswordHash = hash,
               u_Role = role, u_CreatedAt = db_now d\<rparr>]\<rparr>))"

definition contest_slug :: string where "contest_slug = ''technovit-speed''"

definition seed_contest :: "gotime \<Rightarrow> string store" where
  "seed_contest now = query (\<lambda>d.
     let i = db_uuid d (db_clock d)
     in case find (\<lambda>c. c_Slug c = contest_slug) (contests d) of
          Some c \<Rightarrow> (Inr (c_ID c), d\<lparr>contests := map (\<lambda>k. if c_Slug k = contest_slug then k\<lparr>c_Title := ''TechnoVIT Speed Coding''\<rparr> else k) (contests d)\<rparr>)
        | None \<Rightarrow>
            if \<exists>c \<in> set (contests d). c_ID c = i then (Inl UniqueViolation, d)
            else (Inr i, d\<lparr>contests := contests d @ [\<lparr>c_ID = i, c_Slug = contest_slug, c_Title = ''TechnoVIT Speed Coding'',
                    c_StartsAt = now - 60 * Minute_ns, c_EndsAt = now + 360 * Minute_ns, c_ScoringMode = ModeSpeed\<rparr>]\<rparr>))"

text \<open>The hash covers the inputs and outputs one after another; sixteen hexadecimal digits of it are kept.\<close>

definition testdata_version :: "(string \<Rightarrow> string) \<Rightarrow> tc list \<Rightarrow> string" where
  "testdata_version sha tests = take 16 (EncodeToString (sha (concat (map (\<lambda>t. tc_in t @ tc_out t) tests))))"

text \<open>The columns the statement names; the others have the defaults of the table.\<close>

definition seed_columns :: "prob \<Rightarrow> string \<Rightarrow> Problem \<Rightarrow> Problem" where
  "seed_columns p ver q =
     q\<lparr>p_Title := pr_title p, p_StatementMD := pr_statement p,
       p_Limits := (p_Limits q)\<lparr>CPUms := pr_cpuMs p, WallMs := pr_cpuMs p * 3, MemMB := pr_memMB p\<rparr>,
       p_Checker := (p_Checker q)\<lparr>chk_Type := pr_checker p\<rparr>, p_TestdataVersion := ver\<rparr>"

definition table_defaults :: "string \<Rightarrow> string \<Rightarrow> string \<Rightarrow> Problem" where
  "table_defaults i cid slug =
     \<lparr>p_ID = i, p_ContestID = cid, p_Slug = slug, p_Title = [], p_StatementMD = [],
      p_Limits = \<lparr>CPUms = 2000, WallMs = 6000, MemMB = 256, StdoutKB = 1024, Pids = 64, StackMB = 0, OpenFiles = 0\<rparr>,
      p_Checker = \<lparr>chk_Type = ''token'', chk_Epsilon = Fin 0\<rparr>, p_TestdataVersion = ''v0'', p_Points = 100\<rparr>"

definition prob_ok :: "prob \<Rightarrow> bool" where
  "prob_ok p \<longleftrightarrow> 100 \<le> pr_cpuMs p \<and> pr_cpuMs p \<le> 30000 \<and> pr_cpuMs p * 3 \<le> 60000 \<and> 16 \<le> pr_memMB p \<and> pr_memMB p \<le> 2048 \<and>
     pr_checker p \<in> {''exact'', ''token'', ''float''}"

definition seed_problem :: "string \<Rightarrow> prob \<Rightarrow> string \<Rightarrow> string store" where
  "seed_problem cid p ver = query (\<lambda>d.
     let i = db_uuid d (db_clock d); own = (\<lambda>q. p_ContestID q = cid \<and> p_Slug q = pr_slug p)
     in if \<not> prob_ok p then (Inl CheckViolation, d)
        else case find own (problems d) of
            Some q \<Rightarrow> (Inr (p_ID q), d\<lparr>problems := map (\<lambda>x. if own x then seed_columns p ver x else x) (problems d)\<rparr>)
          | None \<Rightarrow>
              if cid \<notin> c_ID ` set (contests d) then (Inl ForeignKeyViolation, d)
              else if \<exists>q \<in> set (problems d). p_ID q = i then (Inl UniqueViolation, d)
              else (Inr i, d\<lparr>problems := problems d @ [seed_columns p ver (table_defaults i cid (pr_slug p))]\<rparr>))"

definition delete_tests :: "string \<Rightarrow> unit store" where
  "delete_tests pid = query (\<lambda>d. (Inr (), d\<lparr>test_cases := filter (\<lambda>(p, _). p \<noteq> pid) (test_cases d)\<rparr>))"

definition insert_test :: "string \<Rightarrow> TestRef \<Rightarrow> unit store" where
  "insert_test pid t = query (\<lambda>d.
     if pid \<notin> p_ID ` set (problems d) then (Inl ForeignKeyViolation, d)
     else if \<exists>(p, u) \<in> set (test_cases d). p = pid \<and> ref_Index u = ref_Index t then (Inl UniqueViolation, d)
     else (Inr (), d\<lparr>test_cases := test_cases d @ [(pid, t)]\<rparr>))"

subsection \<open>The program\<close>

text \<open>\<^verbatim>\<open>must\<close>: the program ends at the first error.\<close>

datatype seed_error = StoreFailed store_error | BlobFailed blob_error

definition must :: "('w \<Rightarrow> (seed_error, 'a) result \<times> 'w) \<Rightarrow> ('a \<Rightarrow> 'w \<Rightarrow> (seed_error, 'b) result \<times> 'w) \<Rightarrow> 'w \<Rightarrow> (seed_error, 'b) result \<times> 'w" where
  "must f g w = (case f w of (Inl e, w1) \<Rightarrow> (Inl e, w1) | (Inr a, w1) \<Rightarrow> g a w1)"

definition exec_db :: "'a store \<Rightarrow> 's world \<Rightarrow> (seed_error, 'a) result \<times> 's world" where
  "exec_db f w = (case on_db f w of (Inl e, w1) \<Rightarrow> (Inl (StoreFailed e), w1) | (Inr a, w1) \<Rightarrow> (Inr a, w1))"

definition put_blob :: "'s ext \<Rightarrow> path \<Rightarrow> string \<Rightarrow> string \<Rightarrow> 's world \<Rightarrow> (seed_error, unit) result \<times> 's world" where
  "put_blob X blobRoot key txt w =
     (case on_fs (Put (x_tmp_name X) blobRoot key (txt, False)) w of (Inl e, w1) \<Rightarrow> (Inl (BlobFailed e), w1) | (Inr a, w1) \<Rightarrow> (Inr a, w1))"

fun must_each :: "('a \<Rightarrow> 'w \<Rightarrow> (seed_error, unit) result \<times> 'w) \<Rightarrow> 'a list \<Rightarrow> 'w \<Rightarrow> (seed_error, unit) result \<times> 'w" where
  "must_each f [] w = (Inr (), w)"
| "must_each f (x # xs) w = must (f x) (\<lambda>_. must_each f xs) w"

definition test_ref :: "string \<Rightarrow> string \<Rightarrow> nat \<Rightarrow> nat \<times> tc \<Rightarrow> TestRef" where
  "test_ref ver slug n it =
     (let key = ''testdata/'' @ ver @ ''/'' @ slug @ ''/'' @ itoa (int (fst it))
      in \<lparr>ref_Index = int (fst it), ref_InputRef = key @ ''.in'', ref_OutputRef = key @ ''.out'',
          ref_IsSample = tc_sample (snd it), ref_Points = 100 sdiv int n\<rparr>)"

definition seed_test :: "'s ext \<Rightarrow> path \<Rightarrow> string \<Rightarrow> (nat \<times> tc \<Rightarrow> TestRef) \<Rightarrow> nat \<times> tc \<Rightarrow> 's world \<Rightarrow> (seed_error, unit) result \<times> 's world" where
  "seed_test X blobRoot pid mk it =
     must (put_blob X blobRoot (ref_InputRef (mk it)) (tc_in (snd it))) (\<lambda>_.
     must (put_blob X blobRoot (ref_OutputRef (mk it)) (tc_out (snd it))) (\<lambda>_.
     exec_db (insert_test pid (mk it))))"

definition seed_one :: "'s ext \<Rightarrow> path \<Rightarrow> string \<Rightarrow> prob \<Rightarrow> 's world \<Rightarrow> (seed_error, unit) result \<times> 's world" where
  "seed_one X blobRoot cid p =
     (let ver = testdata_version (x_sha256 X) (pr_tests p)
      in must (exec_db (seed_problem cid p ver)) (\<lambda>pid.
         must (exec_db (delete_tests pid)) (\<lambda>_.
         must_each (seed_test X blobRoot pid (test_ref ver (pr_slug p) (length (pr_tests p)))) (enumerate 0 (pr_tests p)))))"

text \<open>The salt of a password is drawn anew for each user.\<close>

definition seed :: "'s ext \<Rightarrow> path \<Rightarrow> 's world \<Rightarrow> (seed_error, unit) result \<times> 's world" where
  "seed X blobRoot w =
     must (must_each (\<lambda>(handle, role) w. exec_db (seed_user handle (case x_bcrypt X (w_salt w) ''password123'' of None \<Rightarrow> [] | Some h \<Rightarrow> h) role)
        (w\<lparr>w_salt := Suc (w_salt w)\<rparr>)) seed_users) (\<lambda>_.
     must (exec_db (seed_contest (w_now w))) (\<lambda>cid. must_each (seed_one X blobRoot cid) seed_problems)) w"

text \<open>After a problem was seeded its tests are listed in order, and nothing of an earlier version is left.\<close>

lemma exec_db_Inr: "exec_db f w = (Inr a, w') \<Longrightarrow> f (w_db w) = (Inr a, w_db w')"
  by (auto simp: exec_db_def on_db_def split: prod.splits sum.splits)

lemma insert_test_Inr: "insert_test pid t d = (Inr (), d') \<Longrightarrow> test_cases d' = test_cases d @ [(pid, t)]"
  by (auto simp: insert_test_def query_def Let_def split: if_splits)

lemma delete_tests_Inr: "delete_tests pid d = (Inr (), d') \<Longrightarrow> test_cases d' = filter (\<lambda>(q, _). q \<noteq> pid) (test_cases d)"
  by (auto simp: delete_tests_def query_def Let_def split: if_splits)

lemma put_blob_db: "w_db (snd (put_blob X blobRoot key txt w)) = w_db w"
proof -
  obtain v w1 where "on_fs (Put (x_tmp_name X) blobRoot key (txt, False)) w = (v, w1)" by (cases "on_fs (Put (x_tmp_name X) blobRoot key (txt, False)) w")
  then show ?thesis using on_fs_frame(1) [of "Put (x_tmp_name X) blobRoot key (txt, False)" w] by (cases v) (simp_all add: put_blob_def)
qed

lemma seed_test_db:
  assumes "seed_test X blobRoot pid mk it w = (Inr (), w')"
  shows "test_cases (w_db w') = test_cases (w_db w) @ [(pid, mk it)]"
proof -
  let ?p1 = "put_blob X blobRoot (ref_InputRef (mk it)) (tc_in (snd it))" let ?p2 = "put_blob X blobRoot (ref_OutputRef (mk it)) (tc_out (snd it))"
  obtain w1 where 1: "?p1 w = (Inr (), w1)" using assms by (auto simp: seed_test_def must_def split: prod.splits sum.splits)
  obtain w2 where 2: "?p2 w1 = (Inr (), w2)" using assms 1 by (auto simp: seed_test_def must_def split: prod.splits sum.splits)
  have "exec_db (insert_test pid (mk it)) w2 = (Inr (), w')" using assms 1 2 by (simp add: seed_test_def must_def)
  then have i: "insert_test pid (mk it) (w_db w2) = (Inr (), w_db w')" by (rule exec_db_Inr)
  have "w_db w2 = w_db w" using put_blob_db [of X blobRoot _ _ w] put_blob_db [of X blobRoot _ _ w1] 1 2 by (metis snd_conv)
  moreover have "test_cases (w_db w') = test_cases (w_db w2) @ [(pid, mk it)]"
    by (rule insert_test_Inr [OF i])
  ultimately show ?thesis by simp
qed

lemma must_each_tests:
  assumes "must_each (seed_test X blobRoot pid mk) its w = (Inr (), w')"
  shows "test_cases (w_db w') = test_cases (w_db w) @ map (\<lambda>it. (pid, mk it)) its"
  using assms
proof (induction its arbitrary: w)
  case (Cons it its)
  then obtain w1 where 1: "seed_test X blobRoot pid mk it w = (Inr (), w1)" by (auto simp: must_def split: prod.splits sum.splits)
  then show ?case using Cons seed_test_db [OF 1] by (simp add: must_def)
qed simp

lemma seed_one_tests:
  assumes "seed_one X blobRoot cid p w = (Inr (), w')"
  shows "\<exists>pid. map snd (filter (\<lambda>(q, _). q = pid) (test_cases (w_db w'))) =
      map (test_ref (testdata_version (x_sha256 X) (pr_tests p)) (pr_slug p) (length (pr_tests p))) (enumerate 0 (pr_tests p))"
proof -
  let ?ver = "testdata_version (x_sha256 X) (pr_tests p)"
  obtain pid w1 where 1: "exec_db (seed_problem cid p ?ver) w = (Inr pid, w1)" using assms by (auto simp: seed_one_def Let_def must_def split: prod.splits sum.splits)
  obtain w2 where 2: "exec_db (delete_tests pid) w1 = (Inr (), w2)" using assms 1 by (auto simp: seed_one_def Let_def must_def split: prod.splits sum.splits)
  have d: "test_cases (w_db w2) = filter (\<lambda>(q, _). q \<noteq> pid) (test_cases (w_db w1))"
    by (rule delete_tests_Inr [OF exec_db_Inr [OF 2]])
  have "must_each (seed_test X blobRoot pid (test_ref ?ver (pr_slug p) (length (pr_tests p)))) (enumerate 0 (pr_tests p)) w2 = (Inr (), w')"
    using assms 1 2 by (simp add: seed_one_def Let_def must_def)
  from must_each_tests [OF this] show ?thesis
    by (intro exI [of _ pid]) (simp add: d filter_map comp_def split_beta)
qed

text \<open>Bytes that move from an output to the input before it leave the version as it is.\<close>

lemma testdata_version_ambiguous:
  "testdata_version sha [\<lparr>tc_in = ''1 '', tc_out = ''2'', tc_sample = b\<rparr>] = testdata_version sha [\<lparr>tc_in = ''1'', tc_out = '' 2'', tc_sample = b\<rparr>]"
  by (simp add: testdata_version_def)

end
