(* ===== verification/Perfcount.thy ===== *)
theory Perfcount
  imports Prelude "HOL-Library.Word"
begin

section \<open>Hardware counters (\<^verbatim>\<open>internal/perfcount\<close>)\<close>

text \<open>
  The attributes the program asks the kernel for, reading a counter, and the probe the runner
  makes when it starts. What the kernel answers, to \<^verbatim>\<open>perf_event_open\<close>, to a read and for the file
  with its paranoia level, are arguments. A counter read back is the 64-bit number the kernel
  wrote, byte by byte.
\<close>

unbundle bit_operations_syntax

text \<open>\<^verbatim>\<open>perf_event_attr\<close>, without the two bytes of padding at its end.\<close>

record attr =
  attr_Type :: "32 word"
  attr_Size :: "32 word"
  attr_Config :: "64 word"
  attr_SamplePeriod :: "64 word"
  attr_SampleType :: "64 word"
  attr_ReadFormat :: "64 word"
  attr_Bits :: "64 word"
  attr_WakeupEvents :: "32 word"
  attr_BPType :: "32 word"
  attr_Ext1 :: "64 word"
  attr_Ext2 :: "64 word"
  attr_BranchSampleType :: "64 word"
  attr_SampleRegsUser :: "64 word"
  attr_SampleStackUser :: "32 word"
  attr_ClockID :: "32 word"
  attr_SampleRegsIntr :: "64 word"
  attr_AuxWatermark :: "32 word"
  attr_SampleMaxStack :: "16 word"

definition flagDisabled :: "64 word" where "flagDisabled = push_bit 0 1"
definition flagInherit :: "64 word" where "flagInherit = push_bit 1 1"
definition flagExcludeKernel :: "64 word" where "flagExcludeKernel = push_bit 5 1"
definition flagExcludeHV :: "64 word" where "flagExcludeHV = push_bit 6 1"
definition flagEnableOnExec :: "64 word" where "flagEnableOnExec = push_bit 12 1"

text \<open>\<^verbatim>\<open>unsafe.Sizeof\<close> of the structure is 112.\<close>

definition open_attr :: attr where
  "open_attr =
     \<lparr>attr_Type = 0, attr_Size = 112, attr_Config = 1, attr_SamplePeriod = 0, attr_SampleType = 0,
      attr_ReadFormat = 0, attr_Bits = flagDisabled OR flagInherit OR flagExcludeKernel OR flagExcludeHV OR
      flagEnableOnExec, attr_WakeupEvents = 0, attr_BPType = 0, attr_Ext1 = 0, attr_Ext2 = 0,
      attr_BranchSampleType = 0, attr_SampleRegsUser = 0, attr_SampleStackUser = 0, attr_ClockID = 0,
      attr_SampleRegsIntr = 0, attr_AuxWatermark = 0, attr_SampleMaxStack = 0\<rparr>"

definition Open_counter :: "(attr \<Rightarrow> int \<Rightarrow> (string, int) result) \<Rightarrow> int \<Rightarrow> (string, int) result" where
  "Open_counter perf_open pid = (case perf_open open_attr pid of Inl e \<Rightarrow> Inl (''perf_event_open: '' @ e) | Inr fd \<Rightarrow> Inr fd)"

text \<open>The kernel fills the first bytes of the buffer; a short read is an error.\<close>

datatype read_error = ReadFailed string | ShortRead nat

definition Read :: "(string, 8 word list) result \<Rightarrow> (read_error, 64 word) result" where
  "Read answer =
     (case answer of
        Inl e \<Rightarrow> Inl (ReadFailed e)
      | Inr buf \<Rightarrow>
          if length buf \<noteq> 8 then Inl (ShortRead (length buf))
          else Inr (foldr (\<lambda>b v. push_bit 8 v OR ucast b) buf 0))"

definition Available :: "string option \<Rightarrow> (attr \<Rightarrow> int \<Rightarrow> (string, int) result) \<Rightarrow> bool \<times> string" where
  "Available paranoid perf_open =
     (if (case paranoid of Some (c # _) \<Rightarrow> c = CHR ''3'' | _ \<Rightarrow> False)
      then (False, ''kernel.perf_event_paranoid=3 forbids userspace perf events'')
      else case Open_counter perf_open 0 of
          Inl e \<Rightarrow> (False, e @ '' (no virtualised PMU? common under WSL2, GCP and AWS shared instances)'')
        | Inr _ \<Rightarrow> (True, []))"

text \<open>The bytes of a number, least significant first, as a little-endian kernel writes them.\<close>

fun little_endian :: "nat \<Rightarrow> 64 word \<Rightarrow> 8 word list" where
  "little_endian 0 v = []"
| "little_endian (Suc n) v = ucast v # little_endian n (drop_bit 8 v)"

lemma length_little_endian: "length (little_endian n v) = n"
  by (induction n arbitrary: v) simp_all

lemma fold_little_endian: "foldr (\<lambda>b v. push_bit 8 v OR ucast b) (little_endian n v) 0 = take_bit (8 * n) v"
proof (induction n arbitrary: v)
  case (Suc n)
  show ?case unfolding little_endian.simps foldr.simps comp_def Suc.IH
    by (rule bit_word_eqI) (auto simp: bit_or_iff bit_push_bit_iff bit_take_bit_iff bit_drop_bit_eq bit_ucast_iff)
qed simp

text \<open>Every counter value survives the trip through the buffer.\<close>

lemma Read_little_endian: "Read (Inr (little_endian 8 v)) = Inr v"
proof -
  have "take_bit 64 v = v" by (rule bit_word_eqI) (auto simp: bit_take_bit_iff dest: bit_imp_le_length)
  then show ?thesis using fold_little_endian [of 8 v] by (simp add: Read_def length_little_endian)
qed

text \<open>The mask asks for user instructions from the next \<^verbatim>\<open>execve\<close> on, children included.\<close>

lemma open_attr_bits: "attr_Bits open_attr = 0x1063"
  by (simp add: open_attr_def flagDisabled_def flagInherit_def flagExcludeKernel_def flagExcludeHV_def flagEnableOnExec_def)

end
