(* ===== verification/Spec2Isabelle.thy ===== *)
theory Spec2Isabelle
  imports Prelude Float64 Verdict CoreLimits Job GoTime Scoring GoText Checker ParseFloat FloatChecker
    Langs FileSys Blob Judge Store Redis Queue Board RateLimit Config Api Effects Submit Results Race Reconciler Router System Handover Boxrun Sandbox Runner Migrate Seed Perfcount Boot
begin

text \<open>
  A verification library for arena, a judge for programming contests written in Go.

  \<^bold>\<open>The program.\<close> A participant submits a source text to the API (\<^verbatim>\<open>internal/api\<close>). The API stores
  it in the blob store (\<^verbatim>\<open>internal/adapters/blob\<close>), adds a row to PostgreSQL
  (\<^verbatim>\<open>internal/adapters/postgres\<close>) and a job to a Redis stream (\<^verbatim>\<open>internal/adapters/redisq\<close>). A runner
  (\<^verbatim>\<open>cmd/runner\<close>) claims the job and judges it (\<^verbatim>\<open>internal/judge\<close>): it compiles the source and runs it
  on every test in a sandbox (\<^verbatim>\<open>internal/adapters/sandbox\<close>), where a supervisor (\<^verbatim>\<open>cmd/boxrun\<close>) sets
  the resource limits and measures; a checker (\<^verbatim>\<open>internal/checker\<close>) compares the outputs, and pure
  functions (\<^verbatim>\<open>internal/core\<close>) make a verdict and a score. The runner posts the result to the API,
  which records it, fills the verdict cache, updates the leaderboard in Redis and tells the
  waiting client. A reconciler republishes or fails what got lost on the way.

  \<^bold>\<open>Foundations.\<close> \<open>Prelude\<close>: 64-bit wrap-around (\<open>i64\<close>), results as sums, lists. \<open>Float64\<close>: IEEE binary64
  on rationals with exact rounding to nearest even. \<open>GoTime\<close>, \<open>GoText\<close>, \<open>ParseFloat\<close>: durations, UTF-8 and
  decimal conversions of the Go library as the program uses them. \<open>FileSys\<close>: directories, inodes and
  hard links, where any system call may fail; its \<open>keeps\<close> rules carry invariants through programs.

  \<^bold>\<open>Core (\<^verbatim>\<open>internal/core\<close>).\<close> \<open>Verdict\<close>: verdicts, their severity order and \<open>WorstOf\<close> (locale \<open>rank_choice\<close>).
  \<open>CoreLimits\<close>: limits, \<open>Normalize\<close> and \<open>Scale\<close>, with the range in which they do not overflow. \<open>Job\<close>: the
  job and result structures, \<open>ClassifyRun\<close>, shown to give the most severe of the diagnoses that apply,
  and \<open>Aggregate\<close>. \<open>Scoring\<close>: the score as a binary64 number; more problems solved rank higher, and at
  equal counts the lower cost does.

  \<^bold>\<open>Checkers (\<^verbatim>\<open>internal/checker\<close>).\<close> \<open>Checker\<close>, \<open>FloatChecker\<close>: the streaming comparisons with the scanner's
  buffer of 16 MiB, against the lists of words of the files (locale \<open>checker_contract\<close>, interpreted for
  all three checkers); the float checker against exact arithmetic.

  \<^bold>\<open>Judge.\<close> \<open>Langs\<close>: language manifests and the registry. \<open>Blob\<close>: the blob store, atomic and confined to its
  root (locale \<open>blob_store\<close>). \<open>Judge\<close>: the whole of \<^verbatim>\<open>judge.go\<close> over \<open>FileSys\<close>: workspaces, cache of test
  data, compilation, runs, results. Its theorems say what the verdict means, that cached tests are
  never changed, what hidden tests show, and how early stopping scores.

  \<^bold>\<open>Sandbox.\<close> \<open>Boxrun\<close>: the supervisor: flag parsing, both stages, limits as 64-bit words, metrics. \<open>Sandbox\<close>:
  the Docker and process drivers. What the driver asks for is what the kernel is told, and a run is
  accepted exactly when the kernel reported a clean one. \<open>Perfcount\<close>: hardware counters.

  \<^bold>\<open>Storage.\<close> \<open>Store\<close>: the statements of \<^verbatim>\<open>store.go\<close> on tables, with constraints and failing statements; a
  finished verdict is final. \<open>Migrate\<close>: schema migrations, which converge however often they are
  interrupted. \<open>Seed\<close>: the seed program.

  \<^bold>\<open>Redis.\<close> \<open>Redis\<close>: the commands the program sends, as a record that is a parameter; what their
  documentation promises is in the locales \<open>redis_hashes\<close>, \<open>redis_locks\<close> and \<open>redis_streams\<close>, which the
  reference server \<open>ref_redis\<close> interprets. A call may be executed several times (the client retries at
  most three times) or get lost. \<open>Queue\<close>: jobs with leases; none is lost, none is delivered twice by
  \<open>Consume\<close>. \<open>Board\<close>: the leaderboard with its Lua script, which refines \<open>RankScore\<close>. \<open>RateLimit\<close>: the
  token bucket.

  \<^bold>\<open>API.\<close> \<open>Config\<close>: the configuration. \<open>Api\<close>: the state a handler works on (\<open>world\<close>: database, Redis, files,
  clock), responses and effects after a verdict. \<open>Submit\<close>, \<open>Results\<close>, \<open>Reconciler\<close>, \<open>Router\<close>: every handler,
  middleware and route. A retried submission adds nothing, a repeated result changes nothing, an
  overdue submission is settled, and the routes keep their access rules. \<open>Race\<close>: the handler of a
  submission cut into its service calls, as an inductive relation over any number of requests
  and everything else that writes; requests with one key agree on one row, and the cut handler is
  the handler. \<open>Effects\<close>, \<open>System\<close>: every route and every tick of a reconciler is a sequence of the
  database steps of \<open>Store\<close>, so an accepted submission and a verdict outlive whatever follows.
  \<open>Handover\<close>: the job that the handler of a submission publishes is what a runner is then given
  (locale \<open>redis_keyspace\<close>, which extends \<open>redis_streams\<close> by what commands on other keys leave alone).

  \<^bold>\<open>Runner.\<close> \<open>Runner\<close>: the goroutines of a runner as an inductive step relation, fleets of runners with
  crashes, and the requests to \<open>Router\<close>. In every reachable state the slots are exclusive; a message
  stays in the queue until a result was posted (locale \<open>lease_queue\<close>, which extends \<open>redis_streams\<close>);
  a result that reaches the API once is recorded (locale \<open>idempotent_endpoint\<close>, to which every
  \<open>transmission\<close> to the router is shown to belong).

  \<^bold>\<open>Processes.\<close> \<open>Boot\<close>: the \<^verbatim>\<open>main\<close> functions of the API, the runner, the seed program and the counter
  probe, with the clients they make. Processes started with the same environment fit together.

  \<^bold>\<open>Bounds.\<close> Copying a directory tree has fuel 2048, half of \<^verbatim>\<open>PATH_MAX\<close>, which no path exceeds in
  components. All other recursions are structural or have a termination proof. Machine integers
  wrap where the code can reach the end of their range; theorems that need a range say so.

  \<^bold>\<open>Parameters.\<close> PostgreSQL's identifiers and faults, Redis, SHA-256, bcrypt, JSON and JWT libraries, the
  docker tool, what a script of a migration does, the answers of system calls and the network are
  arguments; hypotheses about them are documented behaviour, and each has a witness with a concrete
  instance.

  \<^bold>\<open>Not modelled.\<close> Prometheus metrics (but for the tick that reads the depth of the queue) and logging;
  CORS and panic recovery of the router library; listening, signals and shutdown of \<^verbatim>\<open>net/http\<close>; the
  connection pools behind \<open>New_store\<close> and \<open>NewClient\<close>. The file system has no symbolic links; a request
  reads the clock once; the goroutine scheduler is any interleaving of the steps of \<open>Runner\<close>.
  Statements and Redis commands are atomic. Handlers are functions on the whole state; for the
  submissions \<open>Race\<close> shows what remains when the calls of concurrent requests mix, and \<open>System\<close> covers
  statements of other handlers that come in between; the theorems about a single result or a
  single tick do not.
\<close>

end
